(* ===== verification/Vey_Prelude.thy ===== *)
theory Vey_Prelude
  imports "HOL-Library.Word"
begin

text \<open>
  Shared vocabulary of the development.

  \<^item> Rust integers: a \<open>u8\<close>, \<open>u16\<close>, \<open>u32\<close>, \<open>u64\<close> that the code treats bitwise is a word;
    a \<open>usize\<close> or \<open>u64\<close> that the code only counts with is a \<open>nat\<close>, and an operation on it that
    could leave the type is written with the checked operations below.
  \<^item> Rust outcomes: \<open>('e, 'a) rs\<close> is \<open>Result<T, E>\<close> with one more value, \<open>Panic\<close>, for an
    index or slice out of range, an arithmetic overflow, an \<open>unwrap\<close> of nothing or an
    \<open>unreachable!()\<close>. \<open>bnd\<close> is the \<open>?\<close> operator; it also propagates a panic.
  \<^item> Slices: a byte slice is a list of bytes; \<open>idx\<close>, \<open>slice\<close> and \<open>slice_from\<close> are \<open>data[i]\<close>,
    \<open>&data[a..b]\<close> and \<open>&data[a..]\<close> with their panics.
  The generic lemmas on these operations are declared for the simplifier or collected in
  \<open>rs_iff\<close>, the characterisations of how a sequence of steps can return, fail or panic.
\<close>

unbundle bit_operations_syntax

named_theorems rs_iff

type_synonym u8 = "8 word"
type_synonym u16 = "16 word"
type_synonym u32 = "32 word"
type_synonym u64 = "64 word"
type_synonym bytes = "u8 list"

section \<open>Results with panics\<close>

datatype ('e, 'a) rs = Ok 'a | Err 'e | Panic

fun bnd :: "('e, 'a) rs \<Rightarrow> ('a \<Rightarrow> ('e, 'b) rs) \<Rightarrow> ('e, 'b) rs" where
  "bnd (Ok x) f = f x"
| "bnd (Err e) f = Err e"
| "bnd Panic f = Panic"

fun map_err :: "('e \<Rightarrow> 'f) \<Rightarrow> ('e, 'a) rs \<Rightarrow> ('f, 'a) rs" where
  "map_err g (Ok x) = Ok x"
| "map_err g (Err e) = Err (g e)"
| "map_err g Panic = Panic"

fun map_ok :: "('a \<Rightarrow> 'b) \<Rightarrow> ('e, 'a) rs \<Rightarrow> ('e, 'b) rs" where
  "map_ok g (Ok x) = Ok (g x)"
| "map_ok g (Err e) = Err e"
| "map_ok g Panic = Panic"

text \<open>\<open>ok_or\<close>: a \<open>let Some(x) = v else { return Err(e) }\<close>.\<close>

fun ok_or :: "'e \<Rightarrow> 'a option \<Rightarrow> ('e, 'a) rs" where
  "ok_or e None = Err e"
| "ok_or e (Some x) = Ok x"

fun ok_opt :: "('e, 'a) rs \<Rightarrow> 'a option" where
  "ok_opt (Ok x) = Some x"
| "ok_opt (Err e) = None"
| "ok_opt Panic = None"

lemma ok_opt_Some_iff [simp]: "ok_opt m = Some x \<longleftrightarrow> m = Ok x"
  by (cases m) auto

lemma bnd_Ok_iff [rs_iff]: "bnd m f = Ok y \<longleftrightarrow> (\<exists>x. m = Ok x \<and> f x = Ok y)"
  by (cases m) auto

lemma bnd_Err_iff [rs_iff]: "bnd m f = Err e \<longleftrightarrow> m = Err e \<or> (\<exists>x. m = Ok x \<and> f x = Err e)"
  by (cases m) auto

lemma bnd_Panic_iff [rs_iff]: "bnd m f = Panic \<longleftrightarrow> m = Panic \<or> (\<exists>x. m = Ok x \<and> f x = Panic)"
  by (cases m) auto

lemma map_err_Ok_iff [rs_iff]: "map_err g m = Ok y \<longleftrightarrow> m = Ok y"
  by (cases m) auto

lemma map_err_Err_iff [rs_iff]: "map_err g m = Err e \<longleftrightarrow> (\<exists>e'. m = Err e' \<and> e = g e')"
  by (cases m) auto

lemma map_err_Panic_iff [rs_iff]: "map_err g m = Panic \<longleftrightarrow> m = Panic"
  by (cases m) auto

lemma map_ok_Ok_iff [rs_iff]: "map_ok g m = Ok y \<longleftrightarrow> (\<exists>x. m = Ok x \<and> y = g x)"
  by (cases m) auto

lemma map_ok_Err_iff [rs_iff]: "map_ok g m = Err e \<longleftrightarrow> m = Err e"
  by (cases m) auto

lemma map_ok_Panic_iff [rs_iff]: "map_ok g m = Panic \<longleftrightarrow> m = Panic"
  by (cases m) auto

lemma ok_or_Ok_iff [rs_iff]: "ok_or e v = Ok x \<longleftrightarrow> v = Some x"
  by (cases v) auto

lemma ok_or_Err_iff [rs_iff]: "ok_or e v = Err e' \<longleftrightarrow> v = None \<and> e' = e"
  by (cases v) auto

lemma ok_or_not_Panic [simp]: "ok_or e v \<noteq> Panic"
  by (cases v) auto

lemma bnd_Ok_right [simp]: "bnd m Ok = m"
  by (cases m) auto

lemma bnd_assoc: "bnd (bnd m f) g = bnd m (\<lambda>x. bnd (f x) g)"
  by (cases m) auto

lemma bnd_cong [fundef_cong]:
  "m = m' \<Longrightarrow> (\<And>x. m' = Ok x \<Longrightarrow> f x = f' x) \<Longrightarrow> bnd m f = bnd m' f'"
  by (cases m') auto

section \<open>Indexing and slicing\<close>

definition idx :: "'x list \<Rightarrow> nat \<Rightarrow> ('e, 'x) rs" where
  "idx xs i = (if i < length xs then Ok (xs ! i) else Panic)"

definition slice :: "'x list \<Rightarrow> nat \<Rightarrow> nat \<Rightarrow> ('e, 'x list) rs" where
  "slice xs a b = (if a \<le> b \<and> b \<le> length xs then Ok (take (b - a) (drop a xs)) else Panic)"

definition slice_from :: "'x list \<Rightarrow> nat \<Rightarrow> ('e, 'x list) rs" where
  "slice_from xs a = (if a \<le> length xs then Ok (drop a xs) else Panic)"

definition upd :: "'x list \<Rightarrow> nat \<Rightarrow> 'x \<Rightarrow> ('e, 'x list) rs" where
  "upd xs i x = (if i < length xs then Ok (xs[i := x]) else Panic)"

lemma upd_ok [simp]: "i < length xs \<Longrightarrow> upd xs i x = Ok (xs[i := x])"
  by (simp add: upd_def)

lemma idx_ok [simp]: "i < length xs \<Longrightarrow> idx xs i = Ok (xs ! i)"
  by (simp add: idx_def)

lemma idx_Ok_iff [rs_iff]: "idx xs i = Ok x \<longleftrightarrow> i < length xs \<and> x = xs ! i"
  by (auto simp: idx_def)

lemma idx_Err [rs_iff, simp]: "idx xs i \<noteq> Err e"
  by (simp add: idx_def)

lemma idx_Panic_iff [rs_iff]: "idx xs i = Panic \<longleftrightarrow> length xs \<le> i"
  by (auto simp: idx_def)

lemma slice_ok [simp]: "a \<le> b \<Longrightarrow> b \<le> length xs \<Longrightarrow> slice xs a b = Ok (take (b - a) (drop a xs))"
  by (simp add: slice_def)

lemma slice_Ok_iff [rs_iff]:
  "slice xs a b = Ok ys \<longleftrightarrow> a \<le> b \<and> b \<le> length xs \<and> ys = take (b - a) (drop a xs)"
  by (auto simp: slice_def)

lemma slice_Err [rs_iff, simp]: "slice xs a b \<noteq> Err e"
  by (simp add: slice_def)

lemma slice_Panic_iff [rs_iff]: "slice xs a b = Panic \<longleftrightarrow> \<not> (a \<le> b \<and> b \<le> length xs)"
  by (auto simp: slice_def)

lemma slice_from_ok [simp]: "a \<le> length xs \<Longrightarrow> slice_from xs a = Ok (drop a xs)"
  by (simp add: slice_from_def)

lemma slice_from_Ok_iff [rs_iff]: "slice_from xs a = Ok ys \<longleftrightarrow> a \<le> length xs \<and> ys = drop a xs"
  by (auto simp: slice_from_def)

lemma slice_from_Err [rs_iff, simp]: "slice_from xs a \<noteq> Err e"
  by (simp add: slice_from_def)

lemma slice_from_Panic_iff [rs_iff]: "slice_from xs a = Panic \<longleftrightarrow> length xs < a"
  by (auto simp: slice_from_def)

text \<open>Reads of a prefix do not see what follows it.\<close>

lemma idx_append [simp]: "i < length xs \<Longrightarrow> idx (xs @ ys) i = Ok (xs ! i)"
  by (simp add: nth_append)

lemma slice_append [simp]:
  "a \<le> b \<Longrightarrow> b \<le> length xs \<Longrightarrow> slice (xs @ ys) a b = Ok (take (b - a) (drop a xs))"
  by (simp add: slice_def)

lemma append_eq_prefixE:
  assumes "p @ s = x @ rest" and "length x \<le> length p"
  obtains u where "p = x @ u" and "rest = u @ s"
proof -
  have "p = x @ drop (length x) p" and "rest = drop (length x) p @ s"
    using assms by (metis append_eq_append_conv_if append_take_drop_id)+
  then show thesis by (rule that)
qed

section \<open>Checked arithmetic\<close>

text \<open>
  \<open>usize\<close> and \<open>u64\<close> values kept as \<open>nat\<close>: subtraction below zero and addition past 64 bits
  panic (with overflow checks off they would wrap, so a proof that they do not panic covers
  both builds).
\<close>

definition usub :: "nat \<Rightarrow> nat \<Rightarrow> ('e, nat) rs" where
  "usub a b = (if b \<le> a then Ok (a - b) else Panic)"

definition uadd64 :: "nat \<Rightarrow> nat \<Rightarrow> ('e, nat) rs" where
  "uadd64 a b = (if a + b < 2 ^ 64 then Ok (a + b) else Panic)"

definition shl32 :: "u32 \<Rightarrow> nat \<Rightarrow> ('e, u32) rs" where
  "shl32 v n = (if n < 32 then Ok (push_bit n v) else Panic)"

definition shr32 :: "u32 \<Rightarrow> nat \<Rightarrow> ('e, u32) rs" where
  "shr32 v n = (if n < 32 then Ok (drop_bit n v) else Panic)"

lemma usub_ok [simp]: "b \<le> a \<Longrightarrow> usub a b = Ok (a - b)"
  by (simp add: usub_def)

lemma usub_Ok_iff [rs_iff]: "usub a b = Ok c \<longleftrightarrow> b \<le> a \<and> c = a - b"
  by (auto simp: usub_def)

lemma usub_Err [rs_iff, simp]: "usub a b \<noteq> Err e"
  by (simp add: usub_def)

lemma usub_Panic_iff [rs_iff]: "usub a b = Panic \<longleftrightarrow> a < b"
  by (auto simp: usub_def)

lemma uadd64_ok [simp]: "a + b < 2 ^ 64 \<Longrightarrow> uadd64 a b = Ok (a + b)"
  by (simp add: uadd64_def)

lemma uadd64_Ok_iff [rs_iff]: "uadd64 a b = Ok c \<longleftrightarrow> a + b < 2 ^ 64 \<and> c = a + b"
  by (auto simp: uadd64_def)

lemma uadd64_Err [rs_iff, simp]: "uadd64 a b \<noteq> Err e"
  by (simp add: uadd64_def)

lemma uadd64_Panic_iff [rs_iff]: "uadd64 a b = Panic \<longleftrightarrow> 2 ^ 64 \<le> a + b"
  by (auto simp: uadd64_def)

lemma shl32_ok [simp]: "n < 32 \<Longrightarrow> shl32 v n = Ok (push_bit n v)"
  by (simp add: shl32_def)

lemma shr32_ok [simp]: "n < 32 \<Longrightarrow> shr32 v n = Ok (drop_bit n v)"
  by (simp add: shr32_def)

section \<open>Big-endian values\<close>

text \<open>\<open>be_nat bs\<close> is \<open>uN::from_be_bytes(bs)\<close> as a number, for a slice of \<open>N / 8\<close> bytes.\<close>

definition be_nat :: "bytes \<Rightarrow> nat" where
  "be_nat bs = foldl (\<lambda>acc b. acc * 256 + unat b) 0 bs"

lemma foldl_be: "foldl (\<lambda>acc b. acc * 256 + unat b) a bs = a * 256 ^ length bs + be_nat bs"
proof (induction bs arbitrary: a)
  case Nil
  then show ?case by (simp add: be_nat_def)
next
  case (Cons b bs)
  show ?case
    using Cons [of "a * 256 + unat b"] Cons [of "unat b"]
    by (simp add: be_nat_def algebra_simps)
qed

lemma be_nat_Nil [simp]: "be_nat [] = 0"
  by (simp add: be_nat_def)

lemma be_nat_Cons [simp]: "be_nat (b # bs) = unat b * 256 ^ length bs + be_nat bs"
  using foldl_be [of "unat b" bs] by (simp add: be_nat_def)

lemma be_nat_append: "be_nat (xs @ ys) = be_nat xs * 256 ^ length ys + be_nat ys"
  by (induction xs) (simp_all add: algebra_simps power_add)

lemma u8_bound [simp]: "unat (b :: u8) < 256"
  using unsigned_less [of b, where ?'a = nat] by simp

lemma u8_le [simp]: "unat (b :: u8) \<le> 255"
  using u8_bound [of b] by linarith

lemma be_nat_bound: "be_nat bs < 256 ^ length bs"
proof (induction bs)
  case Nil
  then show ?case by simp
next
  case (Cons b bs)
  have "unat b * 256 ^ length bs + be_nat bs < (unat b + 1) * 256 ^ length bs"
    using Cons by simp
  also have "\<dots> \<le> 256 * 256 ^ length bs"
    by (rule mult_right_mono) (use u8_bound [of b] in auto)
  finally show ?case by simp
qed

text \<open>\<open>be_bytes n v\<close> is \<open>v.to_be_bytes()\<close> for an \<open>n\<close>-byte integer.\<close>

fun be_bytes :: "nat \<Rightarrow> nat \<Rightarrow> bytes" where
  "be_bytes 0 v = []"
| "be_bytes (Suc n) v = be_bytes n (v div 256) @ [of_nat v]"

lemma length_be_bytes [simp]: "length (be_bytes n v) = n"
  by (induction n arbitrary: v) auto

lemma be_nat_be_bytes: "be_nat (be_bytes n v) = v mod 256 ^ n"
proof (induction n arbitrary: v)
  case 0
  then show ?case by simp
next
  case (Suc n)
  have "v mod (256 * 256 ^ n) = 256 * (v div 256 mod 256 ^ n) + v mod 256"
    by (rule mod_mult2_eq)
  then show ?case using Suc [of "v div 256"] by (simp add: be_nat_append unsigned_of_nat take_bit_eq_mod)
qed

lemma drop_be_bytes: "k \<le> n \<Longrightarrow> drop k (be_bytes n v) = be_bytes (n - k) v"
proof (induction n arbitrary: v)
  case 0
  then show ?case by simp
next
  case (Suc n)
  show ?case
  proof (cases "k = Suc n")
    case True
    then show ?thesis by simp
  next
    case False
    then have "k \<le> n" using Suc.prems by simp
    then show ?thesis using Suc.IH [of "v div 256"] by (simp add: Suc_diff_le)
  qed
qed

lemma be_bytes_pair: "be_bytes 2 n = [of_nat (n div 256), of_nat n]"
  by (simp add: numeral_2_eq_2)

lemma be_bytes_be_nat: "be_bytes (length bs) (be_nat bs) = bs"
proof (induction bs rule: rev_induct)
  case (snoc b bs)
  have "(be_nat bs * 256 + unat b) div 256 = be_nat bs" by simp
  moreover have "(256 :: u8) = 0" by simp
  then have "of_nat (be_nat bs * 256 + unat b) = b"
    by (simp only: of_nat_add of_nat_mult of_nat_numeral mult_zero_right add_0_left of_nat_unat ucast_id)
  ultimately show ?case using snoc by (simp add: be_nat_append)
qed simp

text \<open>\<open>copy_at buf i src\<close> is \<open>buf[i..i + src.len()].copy_from_slice(src)\<close>.\<close>

definition copy_at :: "'x list \<Rightarrow> nat \<Rightarrow> 'x list \<Rightarrow> ('e, 'x list) rs" where
  "copy_at buf i src =
     (if i + length src \<le> length buf then Ok (take i buf @ src @ drop (i + length src) buf) else Panic)"

lemma copy_at_ok [simp]:
  "i + length src \<le> length buf \<Longrightarrow>
    copy_at buf i src = Ok (take i buf @ src @ drop (i + length src) buf)"
  by (simp add: copy_at_def)

section \<open>Bits of the masks the codecs use\<close>

text \<open>
  The simplifier reads the bits of a word numeral off the integer of the same value, so the
  facts are stated there.
\<close>

lemma bit_mask_7f [simp]: "bit (0x7f :: int) n \<longleftrightarrow> n < 7"
proof -
  have eq: "(0x7f :: int) = mask 7" by (simp add: mask_eq_exp_minus_1)
  show ?thesis unfolding eq by (auto simp only: bit_mask_iff possible_bit_int)
qed

lemma bit_mask_3f [simp]: "bit (0x3f :: int) n \<longleftrightarrow> n < 6"
proof -
  have eq: "(0x3f :: int) = mask 6" by (simp add: mask_eq_exp_minus_1)
  show ?thesis unfolding eq by (auto simp only: bit_mask_iff possible_bit_int)
qed

lemma bit_mask_ff [simp]: "bit (0xff :: int) n \<longleftrightarrow> n < 8"
proof -
  have eq: "(0xff :: int) = mask 8" by (simp add: mask_eq_exp_minus_1)
  show ?thesis unfolding eq by (auto simp only: bit_mask_iff possible_bit_int)
qed

lemma bit_80 [simp]: "bit (0x80 :: int) n \<longleftrightarrow> n = 7"
proof -
  have eq: "(0x80 :: int) = 2 ^ 7" by simp
  show ?thesis unfolding eq by (auto simp only: bit_exp_iff possible_bit_int)
qed

lemma bit_40 [simp]: "bit (0x40 :: int) n \<longleftrightarrow> n = 6"
proof -
  have eq: "(0x40 :: int) = 2 ^ 6" by simp
  show ?thesis unfolding eq by (auto simp only: bit_exp_iff possible_bit_int)
qed

lemma bit_c0 [simp]: "bit (0xc0 :: int) n \<longleftrightarrow> n = 6 \<or> n = 7"
proof -
  have "(0xc0 :: int) = 0x80 OR 0x40" by simp
  then show ?thesis by (auto simp only: bit_or_iff bit_80 bit_40)
qed

lemma less_iff_scaled:
  fixes c :: nat
  assumes "0 < c"
  shows "y < m \<longleftrightarrow> c * y + c \<le> c * m"
proof -
  have "c * y + c = c * Suc y" by simp
  then show ?thesis using assms by (simp only: mult_le_cancel1 Suc_le_eq) auto
qed

lemma unat_drop_bit_div: "unat (drop_bit n w) = unat w div 2 ^ n"
  by (subst unat_drop_bit_eq) (rule drop_bit_eq_div)

lemma unat_and_7f: "unat ((b :: u8) AND 0x7f) = unat b mod 128"
proof -
  have "b AND 0x7f = take_bit 7 b"
    by (rule bit_word_eqI) (auto simp: bit_simps)
  then have "unat (b AND 0x7f) = take_bit 7 (unat b)" by (simp only: unsigned_take_bit_eq)
  then show ?thesis by (simp add: take_bit_eq_mod)
qed

lemma u8_msb_zero_iff: "(b :: u8) AND 0x80 = 0 \<longleftrightarrow> unat b < 128"
proof -
  have top: "7 \<le> n \<longleftrightarrow> n = 7" if "n < 8" for n :: nat using that by auto
  have split: "b = (b AND 0x80) OR (b AND 0x7f)" and high: "b AND 0x80 = push_bit 7 (drop_bit 7 b)"
    by (rule bit_word_eqI; auto simp: bit_simps top)+
  show ?thesis
  proof
    assume "b AND 0x80 = 0"
    then have "b = b AND 0x7f" using split by simp
    then show "unat b < 128" using unat_and_7f [of b] by simp
  next
    assume "unat b < 128"
    then have "unat (drop_bit 7 b) = 0" by (simp add: unat_drop_bit_div)
    then have "drop_bit 7 b = 0" by (simp only: unat_eq_0)
    then show "b AND 0x80 = 0" using high by simp
  qed
qed

section \<open>ASCII literals\<close>

text \<open>\<open>ascii s\<close> is the Rust byte string literal \<open>b"..."\<close> with the characters of \<open>s\<close>.\<close>

definition ascii :: "string \<Rightarrow> bytes" where
  "ascii s = map of_char s"

definition starts_with :: "bytes \<Rightarrow> bytes \<Rightarrow> bool" where
  "starts_with data p \<longleftrightarrow> length p \<le> length data \<and> take (length p) data = p"

lemma ascii_simps [simp]: "ascii [] = []" "ascii (c # s) = of_char c # ascii s"
  by (simp_all add: ascii_def)

lemma length_ascii [simp]: "length (ascii s) = length s"
  by (simp add: ascii_def)

lemma starts_with_iff: "starts_with data p \<longleftrightarrow> (\<exists>rest. data = p @ rest)"
  by (metis append_eq_conv_conj length_append le_add1 starts_with_def)

lemma starts_with_append: "starts_with data p \<Longrightarrow> starts_with (data @ more) p"
  by (auto simp: starts_with_def)

lemma starts_with_Nil [simp]: "starts_with data []"
  by (simp add: starts_with_def)

lemma starts_with_Cons [simp]: "starts_with (d # ds) (p # ps) \<longleftrightarrow> d = p \<and> starts_with ds ps"
    "\<not> starts_with [] (p # ps)"
  by (auto simp: starts_with_def)

section \<open>The contract of a decoder at the front of a buffer\<close>

text \<open>
  What the clients of a decoder rely on when they advance an offset by its \<open>encoded_len\<close>: a
  success consumes at least one byte and no more than there are, and it depends on nothing but
  the bytes it consumes.
\<close>

locale prefix_decoder =
  fixes dec :: "bytes \<Rightarrow> 'r option"
    and len :: "'r \<Rightarrow> nat"
  assumes dec_consumes: "dec data = Some r \<Longrightarrow> 0 < len r \<and> len r \<le> length data"
    and dec_framed: "dec (p @ s) = Some r \<Longrightarrow> len r \<le> length p \<Longrightarrow> dec (p @ s') = Some r"
begin

lemma dec_Nil: "dec [] = None"
  using dec_consumes [of "[]"] by (cases "dec []") auto

lemma dec_prefix: "dec data = Some r \<Longrightarrow> dec (data @ s) = Some r"
  using dec_framed [of data "[]" r s] dec_consumes [of data r] by simp

lemma dec_local: "dec data = Some r \<Longrightarrow> dec (take (len r) data) = Some r"
  using dec_framed [of "take (len r) data" "drop (len r) data" r "[]"] dec_consumes [of data r]
  by simp

text \<open>A success splits the buffer into the bytes of the value and the rest.\<close>

lemma dec_split:
  assumes "dec data = Some r"
  obtains p s where "data = p @ s" and "length p = len r" and "dec p = Some r"
    and "\<And>s'. dec (p @ s') = Some r"
proof -
  have "dec (take (len r) data) = Some r" by (rule dec_local [OF assms])
  moreover have "length (take (len r) data) = len r" using dec_consumes [OF assms] by simp
  ultimately show thesis
    using that [of "take (len r) data" "drop (len r) data"] dec_prefix by simp
qed

lemma dec_advance:
  assumes "off \<le> length data" and "dec (drop off data) = Some r"
  shows "off < off + len r" and "off + len r \<le> length data"
  using dec_consumes [OF assms(2)] assms(1) by auto

end

section \<open>Searching bytes\<close>

text \<open>\<open>memchr::memchr\<close>: the position of the first byte \<open>c\<close>.\<close>

fun memchr :: "u8 \<Rightarrow> bytes \<Rightarrow> nat option" where
  "memchr c [] = None"
| "memchr c (x # xs) = (if x = c then Some 0 else map_option Suc (memchr c xs))"

lemma memchr_Some: "memchr c xs = Some p \<Longrightarrow> p < length xs \<and> xs ! p = c \<and> c \<notin> set (take p xs)"
  by (induction xs arbitrary: p) (auto split: if_splits)

lemma memchr_None_iff: "memchr c xs = None \<longleftrightarrow> c \<notin> set xs"
  by (induction xs) auto

lemma memchr_prefix: "memchr c xs = Some p \<Longrightarrow> memchr c (xs @ ys) = Some p"
  by (induction xs arbitrary: p) (auto split: if_splits)

section \<open>Reads\<close>

text \<open>One call of \<open>read_buf\<close>: the bytes it appends, none at the end of the stream, or a failure.\<close>

datatype read_result = RdBytes bytes | RdFailed

text \<open>The bytes that the reads from number \<open>n\<close> up to \<open>m\<close> appended.\<close>

definition read_bytes :: "(nat \<Rightarrow> read_result) \<Rightarrow> nat \<Rightarrow> nat \<Rightarrow> bytes" where
  "read_bytes reads n m = concat (map (\<lambda>i. case reads i of RdBytes c \<Rightarrow> c | RdFailed \<Rightarrow> []) [n..<m])"

lemma read_bytes_simps: "read_bytes reads n n = []"
    "n < m \<Longrightarrow> read_bytes reads n m = (case reads n of RdBytes c \<Rightarrow> c | RdFailed \<Rightarrow> []) @ read_bytes reads (Suc n) m"
  by (simp_all add: read_bytes_def upt_conv_Cons)

end
