(* ===== verification/Codec_Tlv.thy ===== *)
theory Codec_Tlv
  imports Vey_Prelude
begin

text \<open>
  The tag-length-value walker of \<open>lib/vey-codec/src/tlv.rs\<close>, at the sizes of its only
  implementation \<open>T1L2BVParse\<close> (a one-byte tag and a two-byte big-endian length, so that
  \<open>TAG_SIZE + LENGTH_SIZE\<close> is 3). The handler
  \<open>parse_value\<close> and the error \<open>no_enough_data\<close> belong to the implementing type and are arguments.
\<close>

definition tlv_tag :: "bytes \<Rightarrow> ('e, u8) rs" where
  "tlv_tag buf = idx buf 0"

definition tlv_length :: "bytes \<Rightarrow> ('e, nat) rs" where
  "tlv_length buf = bnd (idx buf 0) (\<lambda>a. bnd (idx buf 1) (\<lambda>b. Ok (be_nat [a, b])))"

function parse_tlv_loop ::
    "'e \<Rightarrow> ('s \<Rightarrow> u8 \<Rightarrow> bytes \<Rightarrow> ('e, 's) rs) \<Rightarrow> 's \<Rightarrow> bytes \<Rightarrow> nat \<Rightarrow> ('e, 's) rs" where
  "parse_tlv_loop no_enough_data parse_value st v offset =
     (if length v < offset + 3 then Err no_enough_data
      else
        bnd (slice_from v offset) (\<lambda>buf.
        bnd (slice buf 0 1) (\<lambda>tag_buf.
        bnd (tlv_tag tag_buf) (\<lambda>tag.
        bnd (slice_from buf 1) (\<lambda>len_buf.
        bnd (tlv_length len_buf) (\<lambda>vl.
        let offset' = offset + 3 in
        if length v < offset' + vl then Err no_enough_data
        else
          bnd (slice v offset' (offset' + vl)) (\<lambda>buf.
          bnd (parse_value st tag buf) (\<lambda>st.
          if offset' + vl = length v then Ok st
          else parse_tlv_loop no_enough_data parse_value st v (offset' + vl)))))))))"
  by pat_completeness auto
termination
  by (relation "measure (\<lambda>(nd, pv, st, v, offset). length v - offset)") auto

declare parse_tlv_loop.simps [simp del]

definition parse_tlv where
  "parse_tlv no_enough_data parse_value st v = parse_tlv_loop no_enough_data parse_value st v 0"

text \<open>The encoding of a list of items, and the items handled in order.\<close>

definition tlv_encode :: "(u8 \<times> bytes) list \<Rightarrow> bytes" where
  "tlv_encode items = concat (map (\<lambda>(t, b). t # be_bytes 2 (length b) @ b) items)"

fun tlv_fold :: "('s \<Rightarrow> u8 \<Rightarrow> bytes \<Rightarrow> ('e, 's) rs) \<Rightarrow> 's \<Rightarrow> (u8 \<times> bytes) list \<Rightarrow> ('e, 's) rs" where
  "tlv_fold pv st [] = Ok st"
| "tlv_fold pv st ((t, b) # items) = bnd (pv st t b) (\<lambda>st. tlv_fold pv st items)"

text \<open>
  The items at the front of a buffer, and whether they fill it: the reference the walker is
  compared with on arbitrary input.
\<close>

function tlv_items :: "bytes \<Rightarrow> (u8 \<times> bytes) list \<times> bool" where
  "tlv_items v =
     (if length v < 3 then ([], False)
      else
        let n = be_nat (take 2 (drop 1 v)) in
        if length v < 3 + n then ([], False)
        else if length v = 3 + n then ([(hd v, drop 3 v)], True)
        else case tlv_items (drop (3 + n) v) of
          (items, full) \<Rightarrow> ((hd v, take n (drop 3 v)) # items, full))"
  by pat_completeness auto
termination
  by (relation "measure length") auto

declare tlv_items.simps [simp del]

lemma tlv_header:
  assumes "3 \<le> length v"
  shows "tlv_length (drop 1 v) = Ok (be_nat (take 2 (drop 1 v)))" and "hd v = v ! 0"
  using assms by (auto simp: tlv_length_def neq_Nil_conv Suc_le_length_iff numeral_eq_Suc)

lemma parse_tlv_loop_items:
  fixes nd :: 'e
  shows "parse_tlv_loop nd pv st v off =
    (case tlv_items (drop off v) of (items, full) \<Rightarrow>
      bnd (tlv_fold pv st items) (\<lambda>st. if full then Ok st else Err nd))"
proof (induction "length v - off" arbitrary: st off rule: less_induct)
  case less
  show ?case
  proof (cases "length v < off + 3")
    case True
    then show ?thesis by (simp add: parse_tlv_loop.simps tlv_items.simps)
  next
    case False
    define w where "w = drop off v"
    have w: "3 \<le> length w" "length w = length v - off" using False by (auto simp: w_def)
    define n where "n = be_nat (take 2 (drop (Suc 0) w))"
    have tag: "(tlv_tag (take 1 w) :: ('e, u8) rs) = Ok (hd w)" using w by (cases w) (auto simp: tlv_tag_def)
    have loop: "parse_tlv_loop nd pv st v off =
        (if length w < 3 + n then Err nd
         else bnd (pv st (hd w) (take n (drop 3 w))) (\<lambda>st.
           if length w = 3 + n then Ok st else parse_tlv_loop nd pv st v (off + 3 + n)))"
    proof -
      have "(slice_from v off :: ('e, bytes) rs) = Ok w" "(slice w 0 1 :: ('e, bytes) rs) = Ok (take 1 w)"
        "(slice_from w 1 :: ('e, bytes) rs) = Ok (drop 1 w)"
        using w False by (simp_all add: w_def)
      moreover have "(slice v (off + 3) (off + 3 + n) :: ('e, bytes) rs) = Ok (take n (drop 3 w))"
        if "3 + n \<le> length w"
        using that w(2) by (simp add: w_def add.commute)
      moreover have "length v < off + 3 + n \<longleftrightarrow> length w < 3 + n"
        and "off + 3 + n = length v \<longleftrightarrow> length w = 3 + n"
        and "\<not> length v < off + 3"
        using w False by auto
      ultimately show ?thesis
        using tag tlv_header(1) [OF w(1), where ?'a = 'e]
        by (subst parse_tlv_loop.simps) (simp add: n_def [symmetric] Let_def)
    qed
    show ?thesis
    proof (cases "length w \<le> 3 + n")
      case True
      then show ?thesis unfolding loop w_def [symmetric]
        by (subst tlv_items.simps) (use w in \<open>auto simp: n_def [symmetric] Let_def\<close>)
    next
      case more: False
      have "drop (off + 3 + n) v = drop (3 + n) w" by (simp add: w_def add.commute add.left_commute)
      then have IH: "parse_tlv_loop nd pv st' v (off + 3 + n) =
          (case tlv_items (drop (3 + n) w) of (items, full) \<Rightarrow>
            bnd (tlv_fold pv st' items) (\<lambda>st. if full then Ok st else Err nd))" for st'
        using less [of "off + 3 + n" st'] more w by simp
      show ?thesis unfolding loop w_def [symmetric] using more w
        by (subst tlv_items.simps)
          (cases "pv st (hd w) (take n (drop 3 w))"; simp add: n_def [symmetric] Let_def IH bnd_assoc split: prod.splits)
    qed
  qed
qed

lemma tlv_items_encode:
  assumes "\<forall>(t, b) \<in> set items. length b < 2 ^ 16" and "items \<noteq> []"
  shows "tlv_items (tlv_encode items) = (items, True)"
  using assms
proof (induction items)
  case (Cons item items)
  obtain t b where item: "item = (t, b)" by (cases item)
  have n: "be_nat (be_bytes 2 (length b)) = length b" using Cons.prems(1) by (simp add: item be_nat_be_bytes)
  have enc: "tlv_encode (item # items) = (t # be_bytes 2 (length b)) @ b @ tlv_encode items"
    by (simp add: tlv_encode_def item)
  show ?case
  proof (cases "items = []")
    case True
    then show ?thesis unfolding enc
      by (subst tlv_items.simps) (simp add: n item tlv_encode_def Let_def del: be_bytes.simps)
  next
    case False
    then have "tlv_encode items \<noteq> []" by (auto simp: tlv_encode_def neq_Nil_conv)
    moreover have "drop (3 + length b) ((t # be_bytes 2 (length b)) @ b @ tlv_encode items) = tlv_encode items"
      by (simp add: numeral_3_eq_3)
    ultimately show ?thesis unfolding enc using False Cons
      by (subst tlv_items.simps) (simp add: n item Let_def del: be_bytes.simps)
  qed
qed simp

lemma tlv_fold_not_Panic:
  "(\<And>st t b. pv st t b \<noteq> Panic) \<Longrightarrow> tlv_fold pv st items \<noteq> Panic"
  by (induction pv st items rule: tlv_fold.induct) (auto simp: bnd_Panic_iff)

text \<open>
  C30: \<open>parse_tlv\<close> hands exactly the items of the buffer to \<open>parse_value\<close>, in order, threading its
  state and stopping at its first error, and reports \<open>no_enough_data\<close> after the last complete item
  unless the items fill the buffer. In particular it terminates on every input, it panics only if
  the handler does, and a list of items that was encoded is read back whole.
\<close>

theorem parse_tlv_correct:
  "parse_tlv nd pv st v = (case tlv_items v of (items, full) \<Rightarrow>
      bnd (tlv_fold pv st items) (\<lambda>st. if full then Ok st else Err nd)) \<and>
   ((\<forall>st t b. pv st t b \<noteq> Panic) \<longrightarrow> parse_tlv nd pv st v \<noteq> Panic) \<and>
   (items \<noteq> [] \<and> (\<forall>(t, b) \<in> set items. length b < 2 ^ 16) \<longrightarrow>
     parse_tlv nd pv st (tlv_encode items) = tlv_fold pv st items)"
proof (intro conjI impI)
  show eq: "parse_tlv nd pv st v = (case tlv_items v of (items, full) \<Rightarrow>
      bnd (tlv_fold pv st items) (\<lambda>st. if full then Ok st else Err nd))" for v
    by (simp add: parse_tlv_def parse_tlv_loop_items)
  show "parse_tlv nd pv st v \<noteq> Panic" if "\<forall>st t b. pv st t b \<noteq> Panic"
    using that tlv_fold_not_Panic [of pv st] by (auto simp: eq bnd_Panic_iff split: prod.splits)
  show "parse_tlv nd pv st (tlv_encode items) = tlv_fold pv st items"
    if "items \<noteq> [] \<and> (\<forall>(t, b) \<in> set items. length b < 2 ^ 16)"
    using that by (simp add: eq tlv_items_encode)
qed

theorem parse_tlv_correct_witness:
  "parse_tlv () (\<lambda>st t b. Ok (st @ [(t, b)])) [] (tlv_encode [(1, [7, 8]), (2, [])]) =
    Ok [(1, [7, 8]), (2, [])]"
  using parse_tlv_correct [of "()" "\<lambda>st t b. Ok (st @ [(t, b)])" "[]" "[]" "[(1, [7, 8]), (2, [])]"]
  by simp

end
