(* ===== verification/Codec_Varint.thy ===== *)
theory Codec_Varint
  imports Vey_Prelude
begin

text \<open>
  Variable-length integers: \<open>lib/vey-codec/src/leb128.rs\<close>, \<open>lib/vey-std-ext/src/core/zig_zag.rs\<close>,
  \<open>lib/vey-codec/src/thrift/var_int.rs\<close> and \<open>lib/vey-codec/src/quic/var_int.rs\<close>. The decoders
  are shown to be the inverse of the encoders, to consume exactly the bytes they report and
  never to panic. Each of them is an instance of the contract \<open>prefix_decoder\<close>.
\<close>

section \<open>LEB128\<close>

datatype leb128_decode_error = LebNeedMoreData | LebNoEndFound | LebOverflow

record leb128 =
  leb_value :: u32
  leb_encoded_len :: nat

text \<open>The loop of \<open>Leb128::<u32>::decode\<close> over \<open>data[1..]\<close>, with the loop index \<open>i\<close>.\<close>

fun leb128_decode_loop ::
  "bytes \<Rightarrow> nat \<Rightarrow> u32 \<Rightarrow> nat \<Rightarrow> (leb128_decode_error, leb128) rs" where
  "leb128_decode_loop [] i value total_bits = Err LebNeedMoreData"
| "leb128_decode_loop (b # left) i value total_bits =
     (let bv = b AND 0x7f in
      if b AND 0x80 = 0 then
        bnd (usub 32 total_bits) (\<lambda>room.
        bnd (shr32 (ucast bv) room) (\<lambda>high.
        if high \<noteq> 0 then Err LebOverflow
        else bnd (shl32 (ucast bv) total_bits) (\<lambda>v.
          Ok \<lparr>leb_value = value OR v, leb_encoded_len = i + 2\<rparr>)))
      else
        bnd (shl32 (ucast bv) total_bits) (\<lambda>v.
        let value = value OR v; total_bits = total_bits + 7 in
        if total_bits > 32 then Err LebNoEndFound
        else leb128_decode_loop left (i + 1) value total_bits))"

definition leb128_decode :: "bytes \<Rightarrow> (leb128_decode_error, leb128) rs" where
  "leb128_decode data =
     (if data = [] then Err LebNeedMoreData
      else bnd (idx data 0) (\<lambda>b0.
        let bv = b0 AND 0x7F in
        if b0 AND 0x80 = 0 then Ok \<lparr>leb_value = ucast bv, leb_encoded_len = 1\<rparr>
        else bnd (slice_from data 1) (\<lambda>left. leb128_decode_loop left 0 (ucast bv) 7)))"

text \<open>
  \<open>Leb128Encoder::encode_u32\<close> writes into its ten-byte buffer from offset 0 and returns the
  filled prefix. The model returns the buffer after the call and that prefix.
\<close>

function leb128_encode_loop :: "bytes \<Rightarrow> nat \<Rightarrow> u32 \<Rightarrow> (unit, bytes \<times> bytes) rs" where
  "leb128_encode_loop buf offset data =
     (let bv = ucast (data AND 0x7f) :: u8; data' = drop_bit 7 data in
      if offset < length buf then
        (if data' = 0 then
           (let buf = buf[offset := bv] in Ok (buf, take (offset + 1) buf))
         else leb128_encode_loop (buf[offset := bv OR 0x80]) (offset + 1) data')
      else Panic)"
  by pat_completeness auto
termination
  by (relation "measure (\<lambda>(buf, offset, data). length buf - offset)") auto

definition leb128_encode_u32 :: "bytes \<Rightarrow> u32 \<Rightarrow> (unit, bytes \<times> bytes) rs" where
  "leb128_encode_u32 buf data = leb128_encode_loop buf 0 data"

declare leb128_encode_loop.simps [simp del]

text \<open>The bytes themselves, without the buffer: the reference the encoder is compared with.\<close>

function leb128_bytes :: "u32 \<Rightarrow> bytes" where
  "leb128_bytes x =
     (let bv = ucast (x AND 0x7f); x' = drop_bit 7 x in
      if x' = 0 then [bv] else (bv OR 0x80) # leb128_bytes x')"
  by pat_completeness auto
termination
proof (relation "measure unat")
  fix x :: u32 and bv :: u8 and x' :: u32
  assume "x' = drop_bit 7 x" and "x' \<noteq> 0"
  moreover from this have "x \<noteq> 0" by auto
  then have "0 < unat x" by (simp add: unat_gt_0)
  then have "unat (drop_bit 7 x) < unat x"
    by (simp add: drop_bit_eq_div unat_div)
  ultimately show "(x', x) \<in> measure unat" by simp
qed simp

declare leb128_bytes.simps [simp del]

subsection \<open>The decoder inverts the encoder\<close>

lemma and_7f_ucast [simp]: "ucast (ucast (x AND 0x7f :: u32) :: u8) = x AND 0x7f"
  by (rule bit_word_eqI) (auto simp: bit_simps)

lemma cont_bit [simp]:
  "ucast (x AND 0x7f :: u32) AND (0x80 :: u8) = 0"
  "(ucast (x AND 0x7f :: u32) OR 0x80) AND (0x80 :: u8) = 0x80"
  "ucast (x AND 0x7f :: u32) AND (0x7f :: u8) = ucast (x AND 0x7f)"
  "(ucast (x AND 0x7f :: u32) OR 0x80) AND (0x7f :: u8) = ucast (x AND 0x7f)"
  by (rule bit_word_eqI; auto simp: bit_simps)+

lemma and_7f_small: "drop_bit 7 x = 0 \<Longrightarrow> x AND 0x7f = (x :: u32)"
proof (rule bit_word_eqI)
  fix n assume "drop_bit 7 x = 0" "n < LENGTH(32)"
  moreover have "bit (drop_bit 7 x) (n - 7) \<longleftrightarrow> bit x n" if "7 \<le> n"
    using that by (simp add: bit_simps)
  ultimately show "bit (x AND 0x7f) n = bit x n"
    by (cases "n < 7") (auto simp: bit_simps)
qed

lemma last_septet:
  fixes x :: u32
  assumes "drop_bit 7 x = 0"
  shows "leb128_bytes x = [ucast x]"
    and "(ucast x :: u8) AND 0x80 = 0"
    and "ucast ((ucast x :: u8) AND 0x7f) = x"
proof -
  note e = and_7f_small [OF assms]
  show "leb128_bytes x = [ucast x]"
    using assms by (subst leb128_bytes.simps) (simp add: e)
  show "(ucast x :: u8) AND 0x80 = 0" "ucast ((ucast x :: u8) AND 0x7f) = x"
    using cont_bit(1,3) [of x] and_7f_ucast [of x] by (simp_all only: e)
qed

lemma push_bit_split_7:
  "push_bit t (x AND 0x7f) OR push_bit (t + 7) (drop_bit 7 x) = push_bit t (x :: u32)"
proof (rule bit_word_eqI)
  fix n assume "n < LENGTH(32)"
  have "7 + (n - (t + 7)) = n - t" if "t + 7 \<le> n" using that by simp
  then show "bit (push_bit t (x AND 0x7f) OR push_bit (t + 7) (drop_bit 7 x)) n = bit (push_bit t x) n"
    using \<open>n < LENGTH(32)\<close> by (cases "t + 7 \<le> n") (auto simp: bit_simps)
qed

lemma leb128_room:
  fixes x :: u32
  assumes "drop_bit (32 - t) x = 0" and "drop_bit 7 x \<noteq> 0" and "t < 32"
  shows "t + 7 < 32" and "drop_bit (32 - (t + 7)) (drop_bit 7 x) = 0"
proof -
  have "drop_bit 7 x = drop_bit (7 - (32 - t)) (drop_bit (32 - t) x)" if "32 - t \<le> 7"
    using that by (simp add: drop_bit_drop_bit)
  with assms(1,2) have "\<not> 32 - t \<le> 7" by auto
  then show small: "t + 7 < 32" by simp
  then show "drop_bit (32 - (t + 7)) (drop_bit 7 x) = 0"
    using assms(1) by (simp add: drop_bit_drop_bit)
qed

lemma leb128_decode_loop_bytes:
  assumes "0 < t" and "t < 32" and "drop_bit (32 - t) x = 0"
  shows "leb128_decode_loop (leb128_bytes x @ rest) i v t =
    Ok \<lparr>leb_value = v OR push_bit t x, leb_encoded_len = i + 1 + length (leb128_bytes x)\<rparr>"
  using assms
proof (induction x arbitrary: i v t rule: leb128_bytes.induct)
  case (1 x)
  show ?case
  proof (cases "drop_bit 7 x = 0")
    case True
    with "1.prems" show ?thesis
      by (simp add: Let_def last_septet)
  next
    case False
    note room = leb128_room [OF "1.prems"(3) False "1.prems"(2)]
    have bytes: "leb128_bytes x = (ucast (x AND 0x7f) OR 0x80) # leb128_bytes (drop_bit 7 x)"
      using False by (subst leb128_bytes.simps) simp
    have "leb128_decode_loop (leb128_bytes (drop_bit 7 x) @ rest) (i + 1)
        (v OR push_bit t (x AND 0x7f)) (t + 7) =
      Ok \<lparr>leb_value = (v OR push_bit t (x AND 0x7f)) OR push_bit (t + 7) (drop_bit 7 x),
          leb_encoded_len = (i + 1) + 1 + length (leb128_bytes (drop_bit 7 x))\<rparr>"
      using "1.IH" [OF refl refl False] room by simp
    then show ?thesis
      using "1.prems" room(1)
      by (simp add: bytes Let_def or.assoc push_bit_split_7 del: push_bit_and)
  qed
qed

lemma leb128_decode_bytes:
  "leb128_decode (leb128_bytes x @ rest) =
    Ok \<lparr>leb_value = x, leb_encoded_len = length (leb128_bytes x)\<rparr>"
proof (cases "drop_bit 7 x = 0")
  case True
  then show ?thesis
    by (simp add: leb128_decode_def Let_def last_septet)
next
  case False
  have bytes: "leb128_bytes x = (ucast (x AND 0x7f) OR 0x80) # leb128_bytes (drop_bit 7 x)"
    using False by (subst leb128_bytes.simps) simp
  have "drop_bit (32 - 7) (drop_bit 7 x) = 0"
    by (rule bit_word_eqI) (auto simp: bit_simps)
  then show ?thesis
    using push_bit_split_7 [of 0 x]
    by (simp add: leb128_decode_def bytes Let_def leb128_decode_loop_bytes)
qed

lemma length_leb128_bytes: "0 < k \<Longrightarrow> unat x < 2 ^ (7 * k) \<Longrightarrow> length (leb128_bytes x) \<le> k"
proof (induction x arbitrary: k rule: leb128_bytes.induct)
  case (1 x)
  show ?case
  proof (cases "drop_bit 7 x = 0")
    case True
    with "1.prems" show ?thesis by (simp add: last_septet)
  next
    case False
    have d: "unat (drop_bit 7 x) = unat x div 128"
      by (simp add: drop_bit_eq_div unat_div)
    have "k \<noteq> 1"
    proof
      assume "k = 1"
      with "1.prems" d have "unat (drop_bit 7 x) = 0" by simp
      with False show False by (simp add: unat_eq_0)
    qed
    with "1.prems" obtain j where j: "k = Suc j" "0 < j" by (cases k) auto
    have "unat (drop_bit 7 x) < 2 ^ (7 * j)"
      using "1.prems"(2) unfolding d j(1) by (simp add: less_mult_imp_div_less power_add mult.commute)
    then have "length (leb128_bytes (drop_bit 7 x)) \<le> j"
      using "1.IH" [OF refl refl False j(2)] by simp
    then show ?thesis
      using False j(1) by (subst leb128_bytes.simps) simp
  qed
qed

lemma length_leb128_bytes_u32: "length (leb128_bytes x) \<le> 5"
proof (rule length_leb128_bytes)
  show "unat x < 2 ^ (7 * 5)" using unsigned_less [of x, where ?'a = nat] by simp
qed simp

lemma take_update_snoc: "off < length buf \<Longrightarrow> take (Suc off) (buf[off := b]) = take off buf @ [b]"
  by (simp add: take_Suc_conv_app_nth)

lemma leb128_encode_loop_bytes:
  assumes "off + length (leb128_bytes x) \<le> length buf"
  shows "\<exists>buf'. leb128_encode_loop buf off x = Ok (buf', take off buf @ leb128_bytes x)
    \<and> length buf' = length buf"
  using assms
proof (induction x arbitrary: off buf rule: leb128_bytes.induct)
  case (1 x)
  show ?case
  proof (cases "drop_bit 7 x = 0")
    case True
    with "1.prems" show ?thesis
      by (subst leb128_encode_loop.simps)
        (simp add: last_septet and_7f_small [OF True] take_update_snoc Let_def)
  next
    case False
    let ?b = "ucast (x AND 0x7f) OR 0x80 :: u8"
    have bytes: "leb128_bytes x = ?b # leb128_bytes (drop_bit 7 x)"
      using False by (subst leb128_bytes.simps) simp
    with "1.prems" have off: "off < length buf"
      and "Suc off + length (leb128_bytes (drop_bit 7 x)) \<le> length (buf[off := ?b])" by auto
    then obtain buf' where "leb128_encode_loop (buf[off := ?b]) (Suc off) (drop_bit 7 x) =
        Ok (buf', take (Suc off) (buf[off := ?b]) @ leb128_bytes (drop_bit 7 x))"
      and "length buf' = length buf"
      using "1.IH" [OF refl refl False, of "Suc off" "buf[off := ?b]"] by auto
    then show ?thesis
      using off False by (subst leb128_encode_loop.simps) (simp add: bytes take_update_snoc Let_def)
  qed
qed

text \<open>
  C25: \<open>Leb128Encoder::encode_u32\<close> never runs past its ten-byte buffer, whatever the buffer held
  before, emits at most five bytes, and \<open>Leb128::decode\<close> on those bytes followed by any other
  data gives the value back and reports exactly the length of the encoding.
\<close>

theorem leb128_roundtrip:
  assumes "length buf = 10"
  shows "\<exists>buf' out. leb128_encode_u32 buf x = Ok (buf', out) \<and> length buf' = 10 \<and> length out \<le> 5
    \<and> leb128_decode (out @ rest) = Ok \<lparr>leb_value = x, leb_encoded_len = length out\<rparr>"
proof -
  have "0 + length (leb128_bytes x) \<le> length buf"
    using assms length_leb128_bytes_u32 [of x] by simp
  from leb128_encode_loop_bytes [OF this] show ?thesis
    using assms length_leb128_bytes_u32 [of x]
    by (auto simp: leb128_encode_u32_def leb128_decode_bytes)
qed

theorem leb128_roundtrip_witness:
  "\<exists>buf' out. leb128_encode_u32 (replicate 10 0) 624485 = Ok (buf', out) \<and> length buf' = 10
    \<and> length out \<le> 5
    \<and> leb128_decode (out @ [7]) = Ok \<lparr>leb_value = 624485, leb_encoded_len = length out\<rparr>"
  by (rule leb128_roundtrip) simp

subsection \<open>What the decoder computes\<close>

text \<open>
  The value of a little-endian base-128 numeral, the continuation bytes at the front of a
  buffer, and the outcome they determine.
\<close>

fun leb_nat :: "bytes \<Rightarrow> nat" where
  "leb_nat [] = 0"
| "leb_nat (b # bs) = unat (b AND 0x7f) + 128 * leb_nat bs"

definition leb_continued :: "bytes \<Rightarrow> nat" where
  "leb_continued data = length (takeWhile (\<lambda>b. b AND 0x80 \<noteq> 0) data)"

definition leb128_outcome :: "bytes \<Rightarrow> (leb128_decode_error, leb128) rs" where
  "leb128_outcome data =
     (let k = leb_continued data in
      if 5 \<le> k then Err LebNoEndFound
      else if k = length data then Err LebNeedMoreData
      else if leb_nat (take (k + 1) data) < 2 ^ 32
      then Ok \<lparr>leb_value = of_nat (leb_nat (take (k + 1) data)), leb_encoded_len = k + 1\<rparr>
      else Err LebOverflow)"

lemma unat_and_7f_less: "unat ((b :: u8) AND 0x7f) < 128"
  by (simp add: unat_and_7f)

lemma unat_or_push:
  fixes v y :: u32
  assumes v: "unat v < 2 ^ n" and y: "unat y * 2 ^ n < 2 ^ 32" and n: "n < 32"
  shows "unat (v OR push_bit n y) = unat v + unat y * 2 ^ n"
proof -
  have "take_bit n v = v"
    using v n by (simp add: word_eq_iff_unsigned unsigned_take_bit_eq take_bit_nat_eq_self_iff
        word_unat_eq_iff)
  then have "\<not> bit v m" if "n \<le> m" for m
    using that by (metis bit_take_bit_iff not_le)
  then have "v AND push_bit n y = 0"
    by (intro bit_word_eqI) (auto simp: bit_simps not_le)
  then have sum: "v OR push_bit n y = v + push_bit n y"
    by (simp add: disjunctive_add_eq_or)
  have push: "unat (push_bit n y) = unat y * 2 ^ n"
    using y by (subst unsigned_push_bit_eq) (simp add: take_bit_nat_eq_self push_bit_eq_mult)
  have "unat v + unat y * 2 ^ n < 2 ^ 32"
  proof (cases "unat y * 2 ^ n = 0")
    case True
    then show ?thesis using unsigned_less [of v, where ?'a = nat] by simp
  next
    case False
    have "2 ^ n * unat y < 2 ^ n * 2 ^ (32 - n)"
      using y n by (simp add: mult.commute flip: power_add)
    then have "unat y + 1 \<le> 2 ^ (32 - n)" by simp
    then have "2 ^ n * (unat y + 1) \<le> 2 ^ n * 2 ^ (32 - n)" by (rule mult_le_mono2)
    then have "2 ^ n * unat y + 2 ^ n \<le> 2 ^ 32" using n by (simp flip: power_add)
    then show ?thesis using v by (simp add: mult.commute)
  qed
  then show ?thesis
    by (simp add: sum unat_word_ariths push)
qed

lemma unat_ucast_septet: "unat (ucast ((b :: u8) AND 0x7f) :: u32) = unat (b AND 0x7f)"
  by (subst unsigned_ucast_eq) (use unat_and_7f_less [of b] in \<open>simp add: take_bit_nat_eq_self\<close>)

lemma septet_fits_iff:
  fixes v :: u32
  assumes "unat v < 2 ^ t" and "t < 32"
  shows "drop_bit (32 - t) (ucast ((b :: u8) AND 0x7f) :: u32) = 0 \<longleftrightarrow>
    unat v + 2 ^ t * unat (b AND 0x7f) < 2 ^ 32"
proof -
  let ?y = "unat (b AND 0x7f)"
  have "drop_bit (32 - t) (ucast (b AND 0x7f) :: u32) = 0 \<longleftrightarrow> ?y div 2 ^ (32 - t) = 0"
    by (simp only: unat_eq_0 [symmetric] unat_drop_bit_div unat_ucast_septet)
  also have "\<dots> \<longleftrightarrow> ?y < 2 ^ (32 - t)"
    by (simp add: div_eq_0_iff)
  also have "\<dots> \<longleftrightarrow> 2 ^ t * ?y + 2 ^ t \<le> 2 ^ 32"
  proof -
    have p: "2 ^ 32 = (2 ^ t * 2 ^ (32 - t) :: nat)" using assms(2) by (simp flip: power_add)
    show ?thesis unfolding p by (rule less_iff_scaled) simp
  qed
  also have "\<dots> \<longleftrightarrow> unat v + 2 ^ t * ?y < 2 ^ 32"
  proof
    assume "unat v + 2 ^ t * ?y < 2 ^ 32"
    then have "2 ^ t * ?y < 2 ^ t * 2 ^ (32 - t)"
      using assms(2) by (simp flip: power_add)
    then have "?y + 1 \<le> 2 ^ (32 - t)" by simp
    then have "2 ^ t * (?y + 1) \<le> 2 ^ t * 2 ^ (32 - t)" by (rule mult_le_mono2)
    then show "2 ^ t * ?y + 2 ^ t \<le> 2 ^ 32" using assms(2) by (simp flip: power_add)
  qed (use assms in auto)
  finally show ?thesis .
qed

lemma leb_continued_simps:
  "leb_continued [] = 0"
  "leb_continued (b # bs) = (if b AND 0x80 \<noteq> 0 then Suc (leb_continued bs) else 0)"
  by (simp_all add: leb_continued_def)

lemma leb128_decode_loop_outcome:
  assumes "1 \<le> k" and "k \<le> 4" and "unat v < 2 ^ (7 * k)"
  shows "leb128_decode_loop left i v (7 * k) =
    (let j = leb_continued left; n = unat v + 2 ^ (7 * k) * leb_nat (take (j + 1) left) in
     if 5 \<le> k + j then Err LebNoEndFound
     else if j = length left then Err LebNeedMoreData
     else if n < 2 ^ 32 then Ok \<lparr>leb_value = of_nat n, leb_encoded_len = i + j + 2\<rparr>
     else Err LebOverflow)"
  using assms
proof (induction left arbitrary: i k v)
  case Nil
  then show ?case by (simp add: leb_continued_simps)
next
  case (Cons b left)
  let ?y = "ucast (b AND 0x7f) :: u32"
  have t: "7 * k < 32" using Cons.prems by simp
  note fits = septet_fits_iff [OF Cons.prems(3) t, of b]
  have val: "unat (v OR push_bit (7 * k) ?y) = unat v + 2 ^ (7 * k) * unat (b AND 0x7f)"
    if "unat (b AND 0x7f) * 2 ^ (7 * k) < 2 ^ 32"
    using unat_or_push [OF Cons.prems(3) _ t, of ?y] that
    by (simp add: unat_ucast_septet mult.commute)
  show ?case
  proof (cases "b AND 0x80 = 0")
    case True
    show ?thesis
    proof (cases "drop_bit (32 - 7 * k) ?y = 0")
      case fit: True
      with fits have "unat (b AND 0x7f) * 2 ^ (7 * k) < 2 ^ 32" by (simp add: mult.commute)
      then have "v OR push_bit (7 * k) ?y = of_nat (unat v + 2 ^ (7 * k) * unat (b AND 0x7f))"
        by (simp add: flip: val)
      then show ?thesis
        using True fit fits t Cons.prems by (simp add: Let_def leb_continued_simps)
    next
      case False
      then show ?thesis
        using True fits t Cons.prems by (simp add: Let_def leb_continued_simps)
    qed
  next
    case False
    show ?thesis
    proof (cases "k = 4")
      case True
      with False show ?thesis by (simp add: Let_def leb_continued_simps)
    next
      case k: False
      have pow: "(2 :: nat) ^ (7 * (k + 1)) = 128 * 2 ^ (7 * k)" by (simp add: power_add)
      have le: "(2 :: nat) ^ (7 * (k + 1)) \<le> 2 ^ 28"
        using k Cons.prems(2) by (intro power_increasing) auto
      have "2 ^ (7 * k) * (unat (b AND 0x7f) + 1) \<le> 2 ^ (7 * k) * 128"
        using unat_and_7f_less [of b] by (intro mult_le_mono2) simp
      then have lt: "unat v + 2 ^ (7 * k) * unat (b AND 0x7f) < 2 ^ (7 * (k + 1))"
        using Cons.prems(3) unfolding pow by (simp only: distrib_left)
      then have v': "unat (v OR push_bit (7 * k) ?y) = unat v + 2 ^ (7 * k) * unat (b AND 0x7f)"
        using le by (intro val) (simp add: mult.commute)
      have "7 * k + 7 = 7 * (k + 1)" by simp
      with Cons.IH [of "k + 1" "v OR push_bit (7 * k) ?y" "i + 1"] lt v' False k t Cons.prems
      show ?thesis
        by (simp add: Let_def leb_continued_simps algebra_simps power_add)
    qed
  qed
qed

lemma leb128_decode_eq_outcome: "leb128_decode data = leb128_outcome data"
proof (cases data)
  case Nil
  then show ?thesis by (simp add: leb128_decode_def leb128_outcome_def leb_continued_simps)
next
  case (Cons b left)
  let ?v = "ucast (b AND 0x7f) :: u32"
  have v: "unat ?v = unat (b AND 0x7f)" by (rule unat_ucast_septet)
  have "leb128_decode_loop left 0 ?v (7 * 1) =
    (let j = leb_continued left; n = unat ?v + 2 ^ (7 * 1) * leb_nat (take (j + 1) left) in
     if 5 \<le> 1 + j then Err LebNoEndFound
     else if j = length left then Err LebNeedMoreData
     else if n < 2 ^ 32 then Ok \<lparr>leb_value = of_nat n, leb_encoded_len = 0 + j + 2\<rparr>
     else Err LebOverflow)"
    using unat_and_7f_less [of b] by (intro leb128_decode_loop_outcome) (simp_all add: v)
  then show ?thesis
    using unat_and_7f_less [of b]
    by (simp add: Cons leb128_decode_def leb128_outcome_def leb_continued_simps Let_def v)
qed

text \<open>
  C26: \<open>Leb128::<u32>::decode\<close> computes, on every input, the outcome fixed by the base-128 numeral
  at the front of the buffer: with \<open>k\<close> continuation bytes in front, five or more of them is
  \<open>NoEndFound\<close>, a buffer that ends in them is \<open>NeedMoreData\<close>, a numeral of \<open>2^32\<close> or more is
  \<open>Overflow\<close>, and otherwise the result is the value of the numeral and its length. It never
  panics and never returns a truncated value.
\<close>

theorem leb128_decode_outcome: "leb128_decode data = leb128_outcome data"
  by (rule leb128_decode_eq_outcome)

lemma leb128_decode_not_Panic: "leb128_decode data \<noteq> Panic"
  by (simp add: leb128_decode_eq_outcome [unfolded leb128_outcome_def] Let_def)

section \<open>Zig-zag integers\<close>

text \<open>
  \<open>impl_zig_zag!\<close> at any width: an \<open>iN\<close> is its two's complement word, \<open>>>\<close> on it is the
  arithmetic shift and on \<open>uN\<close> the logical one, \<open>cast_signed\<close> and \<open>cast_unsigned\<close> keep the bits.
\<close>

definition to_zig_zag :: "'a::len word \<Rightarrow> 'a word" where
  "to_zig_zag x = signed_drop_bit (LENGTH('a) - 1) x XOR push_bit 1 x"

definition from_zig_zag :: "'a::len word \<Rightarrow> 'a word" where
  "from_zig_zag v = drop_bit 1 v XOR - (v AND 1)"

lemma bit_minus_lsb: "n < LENGTH('a) \<Longrightarrow> bit (- ((v :: 'a::len word) AND 1)) n \<longleftrightarrow> bit v 0"
proof -
  assume n: "n < LENGTH('a)"
  have "v AND 1 = (if bit v 0 then 1 else 0)"
    by (simp add: and_one_eq mod_2_eq_odd bit_0)
  then show ?thesis using n by (auto simp: bit_simps)
qed

lemma bit_from_zig_zag:
  "n < LENGTH('a) \<Longrightarrow> bit (from_zig_zag (v :: 'a::len word)) n \<longleftrightarrow> bit v (Suc n) \<noteq> bit v 0"
  unfolding from_zig_zag_def bit_xor_iff by (simp only: bit_minus_lsb bit_drop_bit_eq) simp

lemma bit_to_zig_zag:
  "n < LENGTH('a) \<Longrightarrow>
   bit (to_zig_zag (x :: 'a::len word)) n \<longleftrightarrow> bit x (LENGTH('a) - 1) \<noteq> (0 < n \<and> bit x (n - 1))"
proof -
  assume n: "n < LENGTH('a)"
  have "bit (signed_drop_bit (LENGTH('a) - 1) x) n \<longleftrightarrow> bit x (LENGTH('a) - 1)"
    using n by (cases "n = 0") (auto simp: bit_signed_drop_bit_iff)
  moreover have "bit (push_bit 1 x) n \<longleftrightarrow> 0 < n \<and> bit x (n - 1)"
    unfolding bit_push_bit_iff using n by auto
  ultimately show ?thesis unfolding to_zig_zag_def bit_xor_iff by simp
qed

lemma from_to_zig_zag: "from_zig_zag (to_zig_zag x) = x"
proof (rule bit_word_eqI)
  fix n assume n: "n < LENGTH('a)"
  have top: "\<not> bit (to_zig_zag x) (LENGTH('a))" by (simp add: bit_simps)
  have low: "bit (to_zig_zag x) 0 \<longleftrightarrow> bit x (LENGTH('a) - 1)" by (simp add: bit_to_zig_zag)
  show "bit (from_zig_zag (to_zig_zag x)) n = bit (x :: 'a::len word) n"
  proof (cases "Suc n < LENGTH('a)")
    case True
    then show ?thesis using n low by (auto simp: bit_from_zig_zag bit_to_zig_zag)
  next
    case False
    then have "Suc n = LENGTH('a)" using n by simp
    then have "n = LENGTH('a) - 1" by simp
    with \<open>Suc n = LENGTH('a)\<close> show ?thesis using bit_from_zig_zag [OF n, of "to_zig_zag x"] top low by simp
  qed
qed

lemma to_from_zig_zag: "to_zig_zag (from_zig_zag v) = v"
proof (rule bit_word_eqI)
  fix n assume n: "n < LENGTH('a)"
  have "\<not> bit v (LENGTH('a))" by (simp add: bit_simps)
  with n show "bit (to_zig_zag (from_zig_zag v)) n = bit (v :: 'a::len word) n"
    by (cases n) (auto simp: bit_from_zig_zag bit_to_zig_zag)
qed

section \<open>Thrift compact integers\<close>

datatype var_int32 = VarInt32 (vi32_leb128: leb128)

definition var_int32_parse :: "bytes \<Rightarrow> (leb128_decode_error, var_int32) rs" where
  "var_int32_parse data = bnd (leb128_decode data) (\<lambda>leb128. Ok (VarInt32 leb128))"

definition var_int32_positive_value :: "var_int32 \<Rightarrow> u32" where
  "var_int32_positive_value v = leb_value (vi32_leb128 v)"

definition var_int32_value :: "var_int32 \<Rightarrow> u32" where
  "var_int32_value v = from_zig_zag (leb_value (vi32_leb128 v))"

definition var_int32_encoded_len :: "var_int32 \<Rightarrow> nat" where
  "var_int32_encoded_len v = leb_encoded_len (vi32_leb128 v)"

definition thrift_encode_i32 :: "bytes \<Rightarrow> u32 \<Rightarrow> (unit, bytes \<times> bytes) rs" where
  "thrift_encode_i32 buf v = leb128_encode_u32 buf (to_zig_zag v)"

definition thrift_encode_positive_i32 :: "bytes \<Rightarrow> u32 \<Rightarrow> (unit, bytes \<times> bytes) rs" where
  "thrift_encode_positive_i32 buf v = leb128_encode_u32 buf v"

lemma leb128_encode_u32_bytes:
  assumes "length buf = 10"
  obtains buf' where "leb128_encode_u32 buf x = Ok (buf', leb128_bytes x)" and "length buf' = 10"
proof -
  have "0 + length (leb128_bytes x) \<le> length buf"
    using assms length_leb128_bytes_u32 [of x] by simp
  from leb128_encode_loop_bytes [OF this] that show ?thesis
    using assms by (auto simp: leb128_encode_u32_def)
qed

text \<open>
  C27: the thrift compact encodings round-trip: an \<open>i32\<close> written by \<open>encode_i32\<close> is read back by
  \<open>VarInt32::value\<close> and one written by \<open>encode_positive_i32\<close> by \<open>positive_value\<close>, each consuming
  exactly the bytes written; and the zig-zag map behind the first is a bijection at every
  integer width.
\<close>

theorem thrift_var_int_roundtrip:
  assumes "length buf = 10"
  shows "(\<exists>buf' out r. thrift_encode_i32 buf v = Ok (buf', out) \<and> var_int32_parse (out @ rest) = Ok r
      \<and> var_int32_value r = v \<and> var_int32_encoded_len r = length out)
    \<and> (\<exists>buf' out r. thrift_encode_positive_i32 buf v = Ok (buf', out)
      \<and> var_int32_parse (out @ rest) = Ok r
      \<and> var_int32_positive_value r = v \<and> var_int32_encoded_len r = length out)
    \<and> bij (to_zig_zag :: 'a::len word \<Rightarrow> 'a word)"
proof (intro conjI)
  obtain b where "thrift_encode_i32 buf v = Ok (b, leb128_bytes (to_zig_zag v))"
    unfolding thrift_encode_i32_def by (rule leb128_encode_u32_bytes [OF assms])
  then show "\<exists>buf' out r. thrift_encode_i32 buf v = Ok (buf', out) \<and> var_int32_parse (out @ rest) = Ok r
      \<and> var_int32_value r = v \<and> var_int32_encoded_len r = length out"
    by (simp add: var_int32_parse_def leb128_decode_bytes var_int32_value_def
        var_int32_encoded_len_def from_to_zig_zag)
  obtain b where "thrift_encode_positive_i32 buf v = Ok (b, leb128_bytes v)"
    unfolding thrift_encode_positive_i32_def by (rule leb128_encode_u32_bytes [OF assms])
  then show "\<exists>buf' out r. thrift_encode_positive_i32 buf v = Ok (buf', out)
      \<and> var_int32_parse (out @ rest) = Ok r
      \<and> var_int32_positive_value r = v \<and> var_int32_encoded_len r = length out"
    by (simp add: var_int32_parse_def leb128_decode_bytes var_int32_positive_value_def
        var_int32_encoded_len_def)
  show "bij (to_zig_zag :: 'a::len word \<Rightarrow> 'a word)"
    by (rule o_bij [of from_zig_zag]) (auto simp: fun_eq_iff from_to_zig_zag to_from_zig_zag)
qed

theorem thrift_var_int_roundtrip_witness:
  "\<exists>buf' out r. thrift_encode_i32 (replicate 10 0) (- 67890) = Ok (buf', out)
    \<and> var_int32_parse (out @ []) = Ok r
    \<and> var_int32_value r = - 67890 \<and> var_int32_encoded_len r = length out"
  by (rule thrift_var_int_roundtrip [where ?'a = 16, THEN conjunct1]) simp

section \<open>QUIC variable-length integers\<close>

record var_int =
  vi_value :: nat
  vi_encoded_len :: nat

definition var_int_parse :: "bytes \<Rightarrow> ('e, var_int option) rs" where
  "var_int_parse data =
     (if data = [] then Ok None
      else bnd (idx data 0) (\<lambda>b0.
        let value0 = b0 AND 0x3f; tag = drop_bit 6 b0 in
        if tag = 0 then Ok (Some \<lparr>vi_value = unat value0, vi_encoded_len = 1\<rparr>)
        else if tag = 1 then
          (if length data < 2 then Ok None
           else bnd (slice data 1 2) (\<lambda>t.
             Ok (Some \<lparr>vi_value = be_nat (value0 # t), vi_encoded_len = 2\<rparr>)))
        else if tag = 2 then
          (if length data < 4 then Ok None
           else bnd (slice data 1 4) (\<lambda>t.
             Ok (Some \<lparr>vi_value = be_nat (value0 # t), vi_encoded_len = 4\<rparr>)))
        else if tag = 3 then
          (if length data < 8 then Ok None
           else bnd (slice data 1 8) (\<lambda>t.
             Ok (Some \<lparr>vi_value = be_nat (value0 # t), vi_encoded_len = 8\<rparr>)))
        else Panic))"

definition var_int_encode_u16 :: "bytes \<Rightarrow> u16 \<Rightarrow> (unit, bytes \<times> bytes) rs" where
  "var_int_encode_u16 buf value =
     (let high_byte = ucast (drop_bit 8 value) :: u8; low_byte = ucast (value AND 0xff) :: u8 in
      if high_byte AND 0b11000000 \<noteq> 0 then
        bnd (upd buf 0 0b10000000) (\<lambda>buf.
        bnd (upd buf 1 0) (\<lambda>buf.
        bnd (upd buf 2 high_byte) (\<lambda>buf.
        bnd (upd buf 3 low_byte) (\<lambda>buf.
        bnd (slice buf 0 4) (\<lambda>out. Ok (buf, out))))))
      else if high_byte \<noteq> 0 \<or> low_byte AND 0b11000000 \<noteq> 0 then
        bnd (upd buf 0 (high_byte OR 0b01000000)) (\<lambda>buf.
        bnd (upd buf 1 low_byte) (\<lambda>buf.
        bnd (slice buf 0 2) (\<lambda>out. Ok (buf, out))))
      else
        bnd (upd buf 0 low_byte) (\<lambda>buf.
        bnd (slice buf 0 1) (\<lambda>out. Ok (buf, out))))"

text \<open>The format of RFC 9000, section 16: the top two bits give the length, the rest the value.\<close>

definition quic_var_int :: "bytes \<Rightarrow> var_int option" where
  "quic_var_int data =
     (case data of [] \<Rightarrow> None
      | b # _ \<Rightarrow> let n = 2 ^ (unat b div 64) in
          if length data < n then None
          else Some \<lparr>vi_value = be_nat (take n data) mod 2 ^ (8 * n - 2), vi_encoded_len = n\<rparr>)"

lemma unat_and_3f: "unat ((b :: u8) AND 0x3f) = unat b mod 64"
proof -
  have "b AND 0x3f = take_bit 6 b"
    by (rule bit_word_eqI) (auto simp: bit_simps)
  then have "unat (b AND 0x3f) = take_bit 6 (unat b)" by (simp only: unsigned_take_bit_eq)
  then show ?thesis by (simp add: take_bit_eq_mod)
qed

lemma be_nat_masked_head:
  "be_nat ((b AND 0x3f) # t) = be_nat (b # t) mod 2 ^ (8 * length (b # t) - 2)"
proof -
  have p: "2 ^ (8 * length (b # t) - 2) = (64 * 256 ^ length t :: nat)"
    by (simp add: power_mult power_add)
  have "be_nat (b # t) = 256 ^ length t * unat b + be_nat t" by simp
  moreover have "be_nat t < 256 ^ length t" by (rule be_nat_bound)
  ultimately have "be_nat (b # t) mod (256 ^ length t * 64) =
      256 ^ length t * (unat b mod 64) + be_nat t"
    by (simp add: mod_mult2_eq)
  then show ?thesis unfolding p by (simp add: unat_and_3f mult.commute)
qed

lemma drop_bit_6_cases:
  fixes b :: u8
  shows "unat (drop_bit 6 b) = unat b div 64" and "unat b div 64 < 4"
    and "drop_bit 6 b = of_nat (unat b div 64)"
proof -
  show u: "unat (drop_bit 6 b) = unat b div 64" by (simp add: unat_drop_bit_div)
  show "unat b div 64 < 4" using u8_bound [of b] by linarith
  show "drop_bit 6 b = of_nat (unat b div 64)" by (simp flip: u)
qed

lemma nat_less_4_cases: "(n :: nat) < 4 \<Longrightarrow> n = 0 \<or> n = 1 \<or> n = 2 \<or> n = 3"
  by auto

lemma var_int_parse_eq: "var_int_parse data = Ok (quic_var_int data)"
proof (cases data)
  case Nil
  then show ?thesis by (simp add: var_int_parse_def quic_var_int_def)
next
  case (Cons b t)
  have masked: "be_nat ((b AND 0x3f) # take k t) = be_nat (b # take k t) mod 2 ^ (8 * Suc k - 2)"
    if "k \<le> length t" for k
    using be_nat_masked_head [of b "take k t"] that by (simp add: min_def)
  note defs = Cons var_int_parse_def quic_var_int_def Let_def drop_bit_6_cases(3)
  from nat_less_4_cases [OF drop_bit_6_cases(2) [of b]] show ?thesis
  proof (elim disjE)
    assume "unat b div 64 = 0"
    then show ?thesis using masked [of 0] by (simp add: defs del: be_nat_Cons) (simp add: unat_and_3f)
  next
    assume "unat b div 64 = 1"
    then show ?thesis using masked [of 1] by (cases t) (simp_all add: defs del: be_nat_Cons)
  next
    assume "unat b div 64 = 2"
    then show ?thesis using masked [of 3] by (cases "3 \<le> length t") (simp_all add: defs del: be_nat_Cons)
  next
    assume "unat b div 64 = 3"
    then show ?thesis using masked [of 7] by (cases "7 \<le> length t") (simp_all add: defs del: be_nat_Cons)
  qed
qed

text \<open>
  C28: \<open>VarInt::parse\<close> is the RFC 9000 format on every input: it never panics, asks for more data
  exactly when the buffer is shorter than the length its first byte announces, and returns the
  value with the two length bits masked off.
\<close>

theorem var_int_parse_rfc9000: "var_int_parse data = Ok (quic_var_int data)"
  by (rule var_int_parse_eq)

declare var_int_parse_eq [simp]

lemma quic_var_int_bounds:
  assumes "quic_var_int data = Some r"
  shows "0 < vi_encoded_len r" and "vi_encoded_len r \<le> length data" and "vi_encoded_len r \<le> 8"
    and "vi_value r < 2 ^ 62"
proof -
  obtain b t where data: "data = b # t" using assms by (cases data) (auto simp: quic_var_int_def)
  let ?n = "2 ^ (unat b div 64) :: nat"
  have r: "r = \<lparr>vi_value = be_nat (take ?n data) mod 2 ^ (8 * ?n - 2), vi_encoded_len = ?n\<rparr>"
    and len: "?n \<le> length data"
    using assms by (auto simp: data quic_var_int_def Let_def split: if_splits)
  have n8: "?n \<le> 2 ^ 3"
    using drop_bit_6_cases(2) [of b] by (intro power_increasing) auto
  then have "(2 :: nat) ^ (8 * ?n - 2) \<le> 2 ^ 62" by (intro power_increasing) auto
  moreover have "vi_value r < 2 ^ (8 * ?n - 2)" using r by simp
  ultimately show "vi_value r < 2 ^ 62" by (rule order.strict_trans2 [rotated])
  show "0 < vi_encoded_len r" and "vi_encoded_len r \<le> length data" and "vi_encoded_len r \<le> 8"
    using r len n8 by simp_all
qed

lemma quic_var_int_framed:
  assumes "quic_var_int (p @ s) = Some r" and "vi_encoded_len r \<le> length p"
  shows "quic_var_int (p @ s') = Some r"
proof -
  obtain b t where p: "p = b # t"
    using assms quic_var_int_bounds(1) [OF assms(1)] by (cases p) auto
  let ?n = "2 ^ (unat b div 64) :: nat"
  have "?n \<le> length p" using assms by (auto simp: p quic_var_int_def Let_def split: if_splits)
  then have "take ?n (p @ s) = take ?n p" and "take ?n (p @ s') = take ?n p" by simp_all
  then show ?thesis using assms by (auto simp: p quic_var_int_def Let_def split: if_splits)
qed

interpretation quic_vi: prefix_decoder quic_var_int vi_encoded_len
  by unfold_locales (auto dest: quic_var_int_bounds quic_var_int_framed)

text \<open>The two bytes of a 16-bit value and the length bits of the encoder.\<close>

lemma u16_bytes:
  fixes v :: u16
  shows "unat (ucast (drop_bit 8 v) :: u8) = unat v div 256"
    and "unat (ucast (v AND 0xff) :: u8) = unat v mod 256"
proof -
  have v: "unat v < 65536" using unsigned_less [of v, where ?'a = nat] by simp
  show "unat (ucast (drop_bit 8 v) :: u8) = unat v div 256"
    using v by (simp add: unsigned_ucast_eq unat_drop_bit_div take_bit_eq_mod)
  have "ucast (v AND 0xff) = (ucast v :: u8)"
    by (rule bit_word_eqI) (auto simp: bit_simps)
  then show "unat (ucast (v AND 0xff) :: u8) = unat v mod 256"
    by (simp add: unsigned_ucast_eq take_bit_eq_mod)
qed

lemma length_bits_zero_iff: "(b :: u8) AND 0b11000000 = 0 \<longleftrightarrow> unat b < 64"
proof -
  have split: "b = push_bit 6 (drop_bit 6 b) OR (b AND 0x3f)"
    and high: "b AND 0b11000000 = push_bit 6 (drop_bit 6 b)"
    by (rule bit_word_eqI; auto simp: bit_simps)+
  show ?thesis
  proof
    assume "b AND 0b11000000 = 0"
    then have "b = b AND 0x3f" using split high by simp
    then show "unat b < 64" using unat_and_3f [of b] by simp
  next
    assume "unat b < 64"
    then have "drop_bit 6 b = 0" using drop_bit_6_cases(3) [of b] by simp
    then show "b AND 0b11000000 = 0" using high by simp
  qed
qed

lemma unat_or_40: "unat (b :: u8) < 64 \<Longrightarrow> unat (b OR 0b01000000) = unat b + 64"
proof -
  assume b: "unat b < 64"
  then have "b AND 0b11000000 = 0" by (simp only: length_bits_zero_iff)
  moreover have "b AND 0b01000000 = (b AND 0b11000000) AND 0b01000000"
    by (simp add: and.assoc)
  ultimately have "b AND 0b01000000 = 0" by simp
  then have "b OR 0b01000000 = b + 0b01000000" by (simp add: disjunctive_add_eq_or)
  then show ?thesis using b by (simp add: unat_word_ariths)
qed

lemma var_int_encode_u16_bytes:
  assumes "length buf = 8"
  obtains buf' out where "var_int_encode_u16 buf v = Ok (buf', out)" and "length buf' = 8"
    and "quic_var_int (out @ rest) = Some \<lparr>vi_value = unat v, vi_encoded_len = length out\<rparr>"
    and "length out = (if unat v < 2 ^ 6 then 1 else if unat v < 2 ^ 14 then 2 else 4)"
proof -
  define h l where "h = (ucast (drop_bit 8 v) :: u8)" and "l = (ucast (v AND 0xff) :: u8)"
  have h: "unat h = unat v div 256" and l: "unat l = unat v mod 256"
    by (simp_all only: h_def l_def u16_bytes)
  have v: "unat v = unat h * 256 + unat l" using h l by (simp add: div_mult_mod_eq)
  have hz: "h = 0 \<longleftrightarrow> unat h = 0" by (simp add: unat_eq_0)
  note defs = var_int_encode_u16_def Let_def h_def [symmetric] l_def [symmetric]
    length_bits_zero_iff hz quic_var_int_def assms upd_def slice_def
  have len: "length buf = Suc (Suc (Suc (Suc 4)))" using assms by simp
  obtain b0 b1 b2 b3 bs where buf: "buf = b0 # b1 # b2 # b3 # bs"
    using len unfolding length_Suc_conv by blast
  consider "\<not> unat h < 64" | "unat h < 64" "unat h \<noteq> 0 \<or> \<not> unat l < 64" | "unat h = 0" "unat l < 64" by fastforce
  then show thesis
  proof cases
    case 1
    have "(2 * 2 ^ 30 + unat v) mod 2 ^ 30 = unat v"
      using unsigned_less [of v, where ?'a = nat] by (subst mod_mult_self3) simp
    then show thesis using 1 that [of "0x80 # 0 # h # l # bs" "[0x80, 0, h, l]"] v assms
      by (simp add: defs buf)
  next
    case 2
    have range: "\<not> unat l + unat h * 256 < 64" "unat l + unat h * 256 < 16384"
      using 2 u8_bound [of l] by linarith+
    have len1: "(unat h + 64) div 64 = 1" using 2 by simp
    have "(1 * 2 ^ 14 + unat v) mod 2 ^ 14 = unat v"
      using range v by (subst mod_mult_self3) simp
    then show thesis
      using 2 that [of "(h OR 0b01000000) # l # b2 # b3 # bs" "[h OR 0b01000000, l]"] v assms
      by (simp add: defs buf unat_or_40 range len1 algebra_simps)
  next
    case 3
    then show thesis using that [of "l # b1 # b2 # b3 # bs" "[l]"] v assms by (simp add: defs buf)
  qed
qed

text \<open>
  \<open>VarIntEncoder::encode_u16\<close> fills its eight-byte buffer without leaving it, picks the
  shortest of the 1, 2 and 4 byte forms, and what it returns is parsed back by \<open>VarInt::parse\<close>
  to the same value and length, whatever bytes follow in the packet.
\<close>

theorem var_int_encode_u16_roundtrip:
  assumes "length buf = 8"
  shows "\<exists>buf' out. var_int_encode_u16 buf v = Ok (buf', out) \<and> length buf' = 8 \<and>
    length out = (if unat v < 2 ^ 6 then 1 else if unat v < 2 ^ 14 then 2 else 4) \<and>
    (var_int_parse (out @ rest) :: (unit, var_int option) rs) =
      Ok (Some \<lparr>vi_value = unat v, vi_encoded_len = length out\<rparr>)"
  using var_int_encode_u16_bytes [OF assms, of v rest] by (metis var_int_parse_eq)

theorem var_int_encode_u16_roundtrip_witness:
  "\<exists>buf' out. var_int_encode_u16 (replicate 8 0) 300 = Ok (buf', out) \<and> length out = 2 \<and>
    (var_int_parse (out @ [7]) :: (unit, var_int option) rs) =
      Ok (Some \<lparr>vi_value = 300, vi_encoded_len = 2\<rparr>)"
  using var_int_encode_u16_roundtrip [of "replicate 8 0" 300 "[7]"] by auto

end
