(* ===== verification/Quic_Frame.thy ===== *)
theory Quic_Frame
  imports Codec_Varint
begin

text \<open>
  QUIC frames: \<open>lib/vey-codec/src/quic/frame/\<close> and the frame loop \<open>InitialPacket::consume_frames\<close> of
  \<open>lib/vey-codec/src/quic/packet/mod.rs\<close>. The parsers rest on the variable-length integers through
  the contract \<open>prefix_decoder\<close> and are prefix decoders themselves; the loop is compared with an
  inductive grammar of payloads.
\<close>

section \<open>Frames\<close>

datatype frame_parse_error =
    FpInvalidFrameType nat
  | FpNotEnoughData
  | FpTooBigOffsetValue nat
  | FpOutOfOrderFrame string
  | FpMalformedFrame string

text \<open>The \<open>read_var_int!\<close> macro.\<close>

definition read_var_int :: "bytes \<Rightarrow> nat \<Rightarrow> (frame_parse_error, var_int \<times> nat) rs" where
  "read_var_int data offset =
     bnd (slice_from data offset) (\<lambda>left.
     bnd (var_int_parse left) (\<lambda>v.
     bnd (ok_or FpNotEnoughData v) (\<lambda>v. Ok (v, offset + vi_encoded_len v))))"

record ack_range =
  ar_gap :: var_int
  ar_length :: var_int
  ar_encoded_len :: nat

definition ack_range_parse :: "bytes \<Rightarrow> (frame_parse_error, ack_range) rs" where
  "ack_range_parse data =
     bnd (bnd (var_int_parse data) (ok_or FpNotEnoughData)) (\<lambda>gap.
     let offset = vi_encoded_len gap in
     bnd (slice_from data offset) (\<lambda>left.
     bnd (bnd (var_int_parse left) (ok_or FpNotEnoughData)) (\<lambda>len.
     Ok \<lparr>ar_gap = gap, ar_length = len, ar_encoded_len = offset + vi_encoded_len len\<rparr>)))"

record ecn_counts =
  ecn_ect0 :: var_int
  ecn_ect1 :: var_int
  ecn_ce :: var_int
  ecn_encoded_len :: nat

definition ecn_counts_parse :: "bytes \<Rightarrow> (frame_parse_error, ecn_counts) rs" where
  "ecn_counts_parse data =
     bnd (read_var_int data 0) (\<lambda>(ect0, offset).
     bnd (read_var_int data offset) (\<lambda>(ect1, offset).
     bnd (read_var_int data offset) (\<lambda>(ce, offset).
     Ok \<lparr>ecn_ect0 = ect0, ecn_ect1 = ect1, ecn_ce = ce, ecn_encoded_len = offset\<rparr>)))"

record ack_frame =
  af_largest_ack :: var_int
  af_ack_delay :: var_int
  af_first_ack_range :: var_int
  af_ack_ranges :: "ack_range list"
  af_ecn_counts :: "ecn_counts option"
  af_encoded_len :: nat

text \<open>The loop over the ranges: \<open>n\<close> counts the iterations left.\<close>

fun ack_ranges_loop ::
    "nat \<Rightarrow> bytes \<Rightarrow> nat \<Rightarrow> ack_range list \<Rightarrow> (frame_parse_error, ack_range list \<times> nat) rs" where
  "ack_ranges_loop 0 data offset ack_ranges = Ok (ack_ranges, offset)"
| "ack_ranges_loop (Suc n) data offset ack_ranges =
     bnd (slice_from data offset) (\<lambda>left.
     bnd (ack_range_parse left) (\<lambda>ack_range.
     ack_ranges_loop n data (offset + ar_encoded_len ack_range) (ack_ranges @ [ack_range])))"

definition ack_frame_parse :: "bytes \<Rightarrow> bool \<Rightarrow> (frame_parse_error, ack_frame) rs" where
  "ack_frame_parse data ecn =
     bnd (read_var_int data 0) (\<lambda>(largest_ack, offset).
     bnd (read_var_int data offset) (\<lambda>(ack_delay, offset).
     bnd (read_var_int data offset) (\<lambda>(ack_range_count, offset).
     bnd (read_var_int data offset) (\<lambda>(first_ack_range, offset).
     let ack_range_count = vi_value ack_range_count in
     bnd (usub (length data) offset) (\<lambda>left_len.
     if left_len div 2 < ack_range_count then Err FpNotEnoughData
     else
       bnd (ack_ranges_loop ack_range_count data offset []) (\<lambda>(ack_ranges, offset).
       if ecn then
         bnd (slice_from data offset) (\<lambda>left.
         bnd (ecn_counts_parse left) (\<lambda>ecn_counts.
         Ok \<lparr>af_largest_ack = largest_ack, af_ack_delay = ack_delay,
             af_first_ack_range = first_ack_range, af_ack_ranges = ack_ranges,
             af_ecn_counts = Some ecn_counts, af_encoded_len = offset + ecn_encoded_len ecn_counts\<rparr>))
       else
         Ok \<lparr>af_largest_ack = largest_ack, af_ack_delay = ack_delay,
             af_first_ack_range = first_ack_range, af_ack_ranges = ack_ranges,
             af_ecn_counts = None, af_encoded_len = offset\<rparr>))))))"

text \<open>
  A variable-length integer is below \<open>2^62\<close>, so \<open>usize::try_from\<close> fails only on a platform with a
  \<open>usize\<close> of less than 62 bits; \<open>usize_bits\<close> is its width.
\<close>

record crypto_frame =
  cf_stream_offset :: nat
  cf_data :: bytes
  cf_encoded_len :: nat

definition crypto_frame_new :: "nat \<Rightarrow> bytes \<Rightarrow> crypto_frame" where
  "crypto_frame_new stream_offset data =
     \<lparr>cf_stream_offset = stream_offset, cf_data = data, cf_encoded_len = 0\<rparr>"

definition crypto_frame_parse :: "nat \<Rightarrow> bytes \<Rightarrow> (frame_parse_error, crypto_frame) rs" where
  "crypto_frame_parse usize_bits data =
     bnd (bnd (var_int_parse data) (ok_or FpNotEnoughData)) (\<lambda>stream_offset.
     let offset = vi_encoded_len stream_offset in
     if 2 ^ usize_bits \<le> vi_value stream_offset then Err (FpTooBigOffsetValue (vi_value stream_offset))
     else
       bnd (slice_from data offset) (\<lambda>left.
       bnd (bnd (var_int_parse left) (ok_or FpNotEnoughData)) (\<lambda>len.
       let offset = offset + vi_encoded_len len in
       bnd (uadd64 offset (vi_value len)) (\<lambda>total.
       if length data < total then Err FpNotEnoughData
       else
         let data_end = offset + vi_value len in
         bnd (slice data offset data_end) (\<lambda>d.
         Ok \<lparr>cf_stream_offset = vi_value stream_offset, cf_data = d, cf_encoded_len = data_end\<rparr>)))))"

section \<open>Framing of the parsers\<close>

lemma read_var_int_Ok_iff [rs_iff]:
  "read_var_int data off = Ok (v, off') \<longleftrightarrow>
    off \<le> length data \<and> quic_var_int (drop off data) = Some v \<and> off' = off + vi_encoded_len v"
  by (auto simp: read_var_int_def rs_iff)

lemma read_var_int_Panic_iff [rs_iff]: "read_var_int data off = Panic \<longleftrightarrow> length data < off"
  by (auto simp: read_var_int_def rs_iff)

lemma read_var_int_advance:
  "read_var_int data off = Ok (v, off') \<Longrightarrow> off < off' \<and> off' \<le> length data"
  using quic_vi.dec_advance [of off data v] by (auto simp: rs_iff)

lemma read_var_int_framed:
  assumes "read_var_int (p @ s) off = Ok (v, off')" and "off' \<le> length p"
  shows "read_var_int (p @ s') off = Ok (v, off')"
proof -
  have v: "quic_var_int (drop off p @ s) = Some v" "off' = off + vi_encoded_len v" "off \<le> length p"
    using assms by (auto simp: rs_iff)
  then have "quic_var_int (drop off p @ s') = Some v"
    using quic_vi.dec_framed [of "drop off p" s v s'] assms(2) by simp
  then show ?thesis using v by (simp add: read_var_int_Ok_iff)
qed

lemma ack_range_parse_eq:
  "ack_range_parse data =
    bnd (read_var_int data 0) (\<lambda>(gap, o1).
    bnd (read_var_int data o1) (\<lambda>(len, o2).
    Ok \<lparr>ar_gap = gap, ar_length = len, ar_encoded_len = o2\<rparr>))"
  by (auto simp: ack_range_parse_def read_var_int_def bnd_assoc Let_def intro!: bnd_cong)

lemma ack_range_parse_Ok_iff:
  "ack_range_parse data = Ok r \<longleftrightarrow>
    (\<exists>o1. read_var_int data 0 = Ok (ar_gap r, o1) \<and>
      read_var_int data o1 = Ok (ar_length r, ar_encoded_len r))"
  by (cases r) (auto simp: ack_range_parse_eq bnd_Ok_iff split: prod.splits)

lemma ack_range_parse_not_Panic [simp]: "ack_range_parse data \<noteq> Panic"
proof
  assume "ack_range_parse data = Panic"
  then show False
    by (auto simp: ack_range_parse_eq bnd_Panic_iff read_var_int_Panic_iff dest: read_var_int_advance split: prod.splits)
qed

lemma ack_range_bounds:
  "ack_range_parse data = Ok r \<Longrightarrow> 2 \<le> ar_encoded_len r \<and> ar_encoded_len r \<le> length data"
  by (auto simp: ack_range_parse_Ok_iff dest!: read_var_int_advance)

lemma ack_range_framed:
  assumes "ack_range_parse (p @ s) = Ok r" and "ar_encoded_len r \<le> length p"
  shows "ack_range_parse (p @ s') = Ok r"
proof -
  obtain o1 where 1: "read_var_int (p @ s) 0 = Ok (ar_gap r, o1)"
    and 2: "read_var_int (p @ s) o1 = Ok (ar_length r, ar_encoded_len r)"
    using assms(1) unfolding ack_range_parse_Ok_iff by blast
  then have "o1 \<le> length p" using assms(2) read_var_int_advance [OF 2] by simp
  then show ?thesis unfolding ack_range_parse_Ok_iff
    using read_var_int_framed [OF 1] read_var_int_framed [OF 2] assms(2) by blast
qed

interpretation ack_rng: prefix_decoder "\<lambda>data. ok_opt (ack_range_parse data)" ar_encoded_len
  by unfold_locales (auto dest: ack_range_bounds ack_range_framed)

lemma ack_ranges_loop_Ok:
  assumes "ack_ranges_loop n data off acc = Ok (rs, off')" and "off \<le> length data"
  shows "off + 2 * n \<le> off'" and "off' \<le> length data" and "length rs = length acc + n"
proof -
  have "off + 2 * n \<le> off' \<and> off' \<le> length data \<and> length rs = length acc + n"
    using assms
  proof (induction n data off acc rule: ack_ranges_loop.induct)
    case (2 n data off acc)
    then obtain r where r: "ack_range_parse (drop off data) = Ok r"
      and rec: "ack_ranges_loop n data (off + ar_encoded_len r) (acc @ [r]) = Ok (rs, off')"
      by (auto simp: bnd_Ok_iff)
    then show ?case using 2 ack_range_bounds [OF r] by fastforce
  qed simp
  then show "off + 2 * n \<le> off'" and "off' \<le> length data" and "length rs = length acc + n" by auto
qed

lemma ack_ranges_loop_not_Panic: "off \<le> length data \<Longrightarrow> ack_ranges_loop n data off acc \<noteq> Panic"
proof (induction n data off acc rule: ack_ranges_loop.induct)
  case (2 n data off acc)
  have "ack_ranges_loop n data (off + ar_encoded_len r) (acc @ [r]) \<noteq> Panic"
    if "ack_range_parse (drop off data) = Ok r" for r
    using 2 that ack_range_bounds [OF that] by auto
  then show ?case using 2 by (auto simp: bnd_Panic_iff)
qed simp

lemma ack_ranges_loop_framed:
  "ack_ranges_loop n (p @ s) off acc = Ok (rs, off') \<Longrightarrow> off' \<le> length p \<Longrightarrow> off \<le> length p \<Longrightarrow>
    ack_ranges_loop n (p @ s') off acc = Ok (rs, off')"
proof (induction n arbitrary: off acc)
  case (Suc n)
  then obtain r where r: "ack_range_parse (drop off p @ s) = Ok r"
    and rec: "ack_ranges_loop n (p @ s) (off + ar_encoded_len r) (acc @ [r]) = Ok (rs, off')"
    by (auto simp: bnd_Ok_iff)
  have le: "off + ar_encoded_len r \<le> length (p @ s)" using Suc.prems(3) ack_range_bounds [OF r] by auto
  then have "off + ar_encoded_len r \<le> length p" using ack_ranges_loop_Ok(1) [OF rec le] Suc.prems(2) by simp
  moreover from this have "ack_range_parse (drop off p @ s') = Ok r" by (intro ack_range_framed [OF r]) simp
  ultimately show ?case using Suc.IH [OF rec] Suc.prems by simp
qed simp

lemma ecn_counts_Ok_iff:
  "ecn_counts_parse data = Ok e \<longleftrightarrow>
    (\<exists>o1 o2. read_var_int data 0 = Ok (ecn_ect0 e, o1) \<and> read_var_int data o1 = Ok (ecn_ect1 e, o2) \<and>
      read_var_int data o2 = Ok (ecn_ce e, ecn_encoded_len e))"
  by (cases e) (auto simp: ecn_counts_parse_def bnd_Ok_iff split: prod.splits)

lemma ecn_counts_not_Panic [simp]: "ecn_counts_parse data \<noteq> Panic"
proof
  assume "ecn_counts_parse data = Panic"
  then show False
    by (auto simp: ecn_counts_parse_def bnd_Panic_iff read_var_int_Panic_iff dest: read_var_int_advance split: prod.splits)
qed

lemma ecn_counts_bounds:
  "ecn_counts_parse data = Ok e \<Longrightarrow> 0 < ecn_encoded_len e \<and> ecn_encoded_len e \<le> length data"
  by (auto simp: ecn_counts_Ok_iff dest!: read_var_int_advance)

lemma ecn_counts_framed:
  assumes "ecn_counts_parse (p @ s) = Ok e" and "ecn_encoded_len e \<le> length p"
  shows "ecn_counts_parse (p @ s') = Ok e"
proof -
  obtain o1 o2 where 1: "read_var_int (p @ s) 0 = Ok (ecn_ect0 e, o1)"
    and 2: "read_var_int (p @ s) o1 = Ok (ecn_ect1 e, o2)"
    and 3: "read_var_int (p @ s) o2 = Ok (ecn_ce e, ecn_encoded_len e)"
    using assms(1) unfolding ecn_counts_Ok_iff by blast
  have "o2 \<le> length p" using assms(2) read_var_int_advance [OF 3] by simp
  moreover from this have "o1 \<le> length p" using read_var_int_advance [OF 2] by simp
  ultimately show ?thesis unfolding ecn_counts_Ok_iff
    using read_var_int_framed [OF 1] read_var_int_framed [OF 2] read_var_int_framed [OF 3] assms(2) by blast
qed

lemma ack_frame_Ok_iff:
  "ack_frame_parse data ecn = Ok f \<longleftrightarrow>
    (\<exists>o1 o2 cnt o3 o4 o5. read_var_int data 0 = Ok (af_largest_ack f, o1) \<and>
      read_var_int data o1 = Ok (af_ack_delay f, o2) \<and> read_var_int data o2 = Ok (cnt, o3) \<and>
      read_var_int data o3 = Ok (af_first_ack_range f, o4) \<and> vi_value cnt \<le> (length data - o4) div 2 \<and>
      ack_ranges_loop (vi_value cnt) data o4 [] = Ok (af_ack_ranges f, o5) \<and>
      (if ecn then \<exists>e. ecn_counts_parse (drop o5 data) = Ok e \<and> af_ecn_counts f = Some e \<and>
          af_encoded_len f = o5 + ecn_encoded_len e
       else af_ecn_counts f = None \<and> af_encoded_len f = o5))" (is "?parse \<longleftrightarrow> ?spec")
proof
  assume ?parse
  then show ?spec
    by (auto simp: ack_frame_parse_def Let_def bnd_Ok_iff usub_Ok_iff slice_from_Ok_iff not_less
      split: prod.splits if_splits)
next
  assume ?spec
  then obtain o1 o2 cnt o3 o4 o5 where r: "read_var_int data 0 = Ok (af_largest_ack f, o1)"
      "read_var_int data o1 = Ok (af_ack_delay f, o2)" "read_var_int data o2 = Ok (cnt, o3)"
    and 4: "read_var_int data o3 = Ok (af_first_ack_range f, o4)"
    and n: "vi_value cnt \<le> (length data - o4) div 2"
    and loop: "ack_ranges_loop (vi_value cnt) data o4 [] = Ok (af_ack_ranges f, o5)"
    and tail: "if ecn then \<exists>e. ecn_counts_parse (drop o5 data) = Ok e \<and> af_ecn_counts f = Some e \<and>
          af_encoded_len f = o5 + ecn_encoded_len e
       else af_ecn_counts f = None \<and> af_encoded_len f = o5"
    by blast
  have "o4 \<le> length data" using read_var_int_advance [OF 4] by simp
  moreover from this have "o5 \<le> length data" using ack_ranges_loop_Ok(2) [OF loop] by simp
  ultimately show ?parse using r 4 n loop tail
    by (cases f) (auto simp: ack_frame_parse_def not_less split: if_splits)
qed

lemma ack_frame_bounds:
  assumes "ack_frame_parse data ecn = Ok f"
  shows "0 < af_encoded_len f" and "af_encoded_len f \<le> length data"
proof -
  obtain o3 o4 o5 n where 4: "read_var_int data o3 = Ok (af_first_ack_range f, o4)"
    and loop: "ack_ranges_loop n data o4 [] = Ok (af_ack_ranges f, o5)"
    and tail: "if ecn then \<exists>e. ecn_counts_parse (drop o5 data) = Ok e \<and> af_encoded_len f = o5 + ecn_encoded_len e
       else af_encoded_len f = o5"
    using assms unfolding ack_frame_Ok_iff by (metis (full_types))
  have "0 < o4" "o4 \<le> length data" using read_var_int_advance [OF 4] by auto
  moreover from this have "o4 \<le> o5" "o5 \<le> length data" using ack_ranges_loop_Ok(1,2) [OF loop] by auto
  ultimately show "0 < af_encoded_len f" and "af_encoded_len f \<le> length data"
    using tail by (auto dest!: ecn_counts_bounds split: if_splits)
qed

lemma ack_frame_not_Panic [simp]: "ack_frame_parse data ecn \<noteq> Panic"
proof
  assume "ack_frame_parse data ecn = Panic"
  then show False
    by (auto simp: ack_frame_parse_def Let_def bnd_Panic_iff read_var_int_Panic_iff usub_Panic_iff
      slice_from_Panic_iff ack_ranges_loop_not_Panic
      dest!: read_var_int_advance ack_ranges_loop_Ok(2) split: prod.splits if_splits)
qed

lemma ack_frame_framed:
  assumes "ack_frame_parse (p @ s) ecn = Ok f" and "af_encoded_len f \<le> length p"
  shows "ack_frame_parse (p @ s') ecn = Ok f"
proof -
  obtain o1 o2 cnt o3 o4 o5 where 1: "read_var_int (p @ s) 0 = Ok (af_largest_ack f, o1)"
    and 2: "read_var_int (p @ s) o1 = Ok (af_ack_delay f, o2)"
    and 3: "read_var_int (p @ s) o2 = Ok (cnt, o3)"
    and 4: "read_var_int (p @ s) o3 = Ok (af_first_ack_range f, o4)"
    and loop: "ack_ranges_loop (vi_value cnt) (p @ s) o4 [] = Ok (af_ack_ranges f, o5)"
    and tail: "if ecn then \<exists>e. ecn_counts_parse (drop o5 (p @ s)) = Ok e \<and> af_ecn_counts f = Some e \<and>
          af_encoded_len f = o5 + ecn_encoded_len e
       else af_ecn_counts f = None \<and> af_encoded_len f = o5"
    using assms(1) unfolding ack_frame_Ok_iff by blast
  have o5: "o5 \<le> length p" using assms(2) tail by (auto split: if_splits)
  have "o4 \<le> length (p @ s)" using read_var_int_advance [OF 4] by simp
  then have n: "o4 + 2 * vi_value cnt \<le> o5" using ack_ranges_loop_Ok(1) [OF loop] by simp
  have le: "o4 \<le> length p" "o3 \<le> length p" "o2 \<le> length p" "o1 \<le> length p"
    using n o5 read_var_int_advance [OF 2] read_var_int_advance [OF 3] read_var_int_advance [OF 4] by auto
  have tail': "if ecn then \<exists>e. ecn_counts_parse (drop o5 (p @ s')) = Ok e \<and> af_ecn_counts f = Some e \<and>
          af_encoded_len f = o5 + ecn_encoded_len e
       else af_ecn_counts f = None \<and> af_encoded_len f = o5"
    using tail o5 assms(2) ecn_counts_framed [of "drop o5 p" s _ s'] by (auto split: if_splits)
  have "vi_value cnt \<le> (length (p @ s') - o4) div 2" using n o5 le by simp
  then show ?thesis unfolding ack_frame_Ok_iff
    using read_var_int_framed [OF 1 le(4)] read_var_int_framed [OF 2 le(3)] read_var_int_framed [OF 3 le(2)]
      read_var_int_framed [OF 4 le(1)] ack_ranges_loop_framed [OF loop o5 le(1)] tail' by blast
qed

interpretation ack_frm: prefix_decoder "\<lambda>data. ok_opt (ack_frame_parse data ecn)" af_encoded_len for ecn
  by unfold_locales (auto dest: ack_frame_bounds ack_frame_framed)

text \<open>\<open>var_int_bytes v bs\<close>: the bytes \<open>bs\<close> are one of the encodings of \<open>v\<close>.\<close>

definition var_int_bytes :: "nat \<Rightarrow> bytes \<Rightarrow> bool" where
  "var_int_bytes v bs \<longleftrightarrow> quic_var_int bs = Some \<lparr>vi_value = v, vi_encoded_len = length bs\<rparr>"

lemma var_int_bytes_parse:
  "var_int_bytes v bs \<Longrightarrow> quic_var_int (bs @ rest) = Some \<lparr>vi_value = v, vi_encoded_len = length bs\<rparr>"
  unfolding var_int_bytes_def by (rule quic_vi.dec_prefix)

lemma var_int_bytes_split:
  assumes "quic_var_int data = Some v"
  obtains bs rest where "data = bs @ rest" and "var_int_bytes (vi_value v) bs" and "length bs = vi_encoded_len v"
proof -
  let ?bs = "take (vi_encoded_len v) data"
  have "length ?bs = vi_encoded_len v" using quic_vi.dec_consumes [OF assms] by simp
  moreover have "quic_var_int ?bs = Some v" by (rule quic_vi.dec_local [OF assms])
  ultimately show thesis
    using that [of ?bs "drop (vi_encoded_len v) data"] by (simp add: var_int_bytes_def)
qed

lemma var_int_bytes_value: "var_int_bytes v bs \<Longrightarrow> v < 2 ^ 62 \<and> 0 < length bs \<and> length bs \<le> 8"
  using quic_var_int_bounds [of bs] by (auto simp: var_int_bytes_def)

lemma crypto_frame_parse_eq:
  assumes "quic_var_int data = Some v1" and "quic_var_int (drop (vi_encoded_len v1) data) = Some v2"
    and "length data < 2 ^ 63"
  shows "crypto_frame_parse usize_bits data =
    (let off = vi_encoded_len v1 + vi_encoded_len v2; total = off + vi_value v2 in
     if 2 ^ usize_bits \<le> vi_value v1 then Err (FpTooBigOffsetValue (vi_value v1))
     else if length data < total then Err FpNotEnoughData
     else Ok \<lparr>cf_stream_offset = vi_value v1, cf_data = take (vi_value v2) (drop off data),
              cf_encoded_len = total\<rparr>)"
proof -
  have le: "vi_encoded_len v1 \<le> length data" using quic_vi.dec_consumes [OF assms(1)] by simp
  have "vi_encoded_len v1 + vi_encoded_len v2 + vi_value v2 < 8 + 8 + 2 ^ 62 + 1"
    using quic_var_int_bounds(3,4) [OF assms(1)] quic_var_int_bounds(3,4) [OF assms(2)] by linarith
  then have "(uadd64 (vi_encoded_len v1 + vi_encoded_len v2) (vi_value v2) :: (frame_parse_error, nat) rs) =
      Ok (vi_encoded_len v1 + vi_encoded_len v2 + vi_value v2)"
    by (intro uadd64_ok) simp
  then show ?thesis using assms(1,2) le by (simp add: crypto_frame_parse_def Let_def not_less)
qed

lemma crypto_frame_parse_Ok_var_ints:
  assumes "crypto_frame_parse usize_bits data = Ok f"
  obtains v1 v2 where "quic_var_int data = Some v1" and "quic_var_int (drop (vi_encoded_len v1) data) = Some v2"
proof (cases "quic_var_int data")
  case (Some v1)
  then have "vi_encoded_len v1 \<le> length data" using quic_vi.dec_consumes by blast
  then show thesis using assms Some that
    by (cases "quic_var_int (drop (vi_encoded_len v1) data)")
      (auto simp: crypto_frame_parse_def Let_def split: if_splits)
qed (use assms in \<open>simp add: crypto_frame_parse_def\<close>)

lemma crypto_frame_Ok_iff:
  assumes "length data < 2 ^ 63"
  shows "crypto_frame_parse usize_bits data = Ok f \<longleftrightarrow>
    cf_stream_offset f < 2 ^ usize_bits \<and>
    (\<exists>bo bl rest. data = bo @ bl @ cf_data f @ rest \<and> var_int_bytes (cf_stream_offset f) bo \<and>
      var_int_bytes (length (cf_data f)) bl \<and> cf_encoded_len f = length (bo @ bl @ cf_data f))"
  (is "?parse \<longleftrightarrow> ?grammar")
proof
  assume ?parse
  then obtain v1 v2 where v: "quic_var_int data = Some v1" "quic_var_int (drop (vi_encoded_len v1) data) = Some v2"
    by (rule crypto_frame_parse_Ok_var_ints)
  obtain bo r1 where 1: "data = bo @ r1" "var_int_bytes (vi_value v1) bo" "length bo = vi_encoded_len v1"
    using v(1) by (rule var_int_bytes_split)
  obtain bl r2 where 2: "r1 = bl @ r2" "var_int_bytes (vi_value v2) bl" "length bl = vi_encoded_len v2"
    by (rule var_int_bytes_split [of r1 v2]) (use v(2) 1(1,3) in auto)
  have f: "\<not> 2 ^ usize_bits \<le> vi_value v1" "vi_value v2 \<le> length r2"
      "f = \<lparr>cf_stream_offset = vi_value v1, cf_data = take (vi_value v2) r2,
            cf_encoded_len = length bo + length bl + vi_value v2\<rparr>"
    using \<open>?parse\<close> unfolding crypto_frame_parse_eq [OF v assms]
    by (auto simp: Let_def 1 2 simp flip: 1(3) 2(3) split: if_splits)
  then have "data = bo @ bl @ cf_data f @ drop (vi_value v2) r2" by (simp add: 1(1) 2(1))
  moreover have "length (cf_data f) = vi_value v2" using f by simp
  ultimately show ?grammar using f(1,3) 1(2) 2(2)
    by (intro conjI exI [of _ bo] exI [of _ bl] exI [of _ "drop (vi_value v2) r2"]) simp_all
next
  assume ?grammar
  then obtain bo bl rest where g: "data = bo @ bl @ cf_data f @ rest" "var_int_bytes (cf_stream_offset f) bo"
      "var_int_bytes (length (cf_data f)) bl" "cf_encoded_len f = length (bo @ bl @ cf_data f)"
      "cf_stream_offset f < 2 ^ usize_bits"
    by blast
  have v: "quic_var_int data = Some \<lparr>vi_value = cf_stream_offset f, vi_encoded_len = length bo\<rparr>"
      "quic_var_int (drop (vi_encoded_len \<lparr>vi_value = cf_stream_offset f, vi_encoded_len = length bo\<rparr>) data) =
        Some \<lparr>vi_value = length (cf_data f), vi_encoded_len = length bl\<rparr>"
    using var_int_bytes_parse [OF g(2)] var_int_bytes_parse [OF g(3)] by (simp_all add: g(1))
  show ?parse unfolding crypto_frame_parse_eq [OF v assms] using g(4,5)
    by (cases f) (auto simp: g(1) Let_def)
qed

lemma crypto_frame_not_Panic:
  assumes "length data < 2 ^ 63"
  shows "crypto_frame_parse usize_bits data \<noteq> Panic"
proof (cases "quic_var_int data")
  case (Some v1)
  then have le: "vi_encoded_len v1 \<le> length data" using quic_vi.dec_consumes by blast
  show ?thesis
  proof (cases "quic_var_int (drop (vi_encoded_len v1) data)")
    case None
    then show ?thesis using Some le by (simp add: crypto_frame_parse_def Let_def)
  next
    case v2: (Some v2)
    show ?thesis unfolding crypto_frame_parse_eq [OF Some v2 assms] by (simp add: Let_def)
  qed
qed (simp add: crypto_frame_parse_def)

lemma crypto_frame_bounds:
  "crypto_frame_parse usize_bits data = Ok f \<Longrightarrow> length data < 2 ^ 63 \<Longrightarrow>
    0 < cf_encoded_len f \<and> cf_encoded_len f \<le> length data"
  unfolding crypto_frame_Ok_iff by (auto dest: var_int_bytes_value)

lemma crypto_frame_framed:
  assumes "crypto_frame_parse usize_bits (p @ s) = Ok f" and "cf_encoded_len f \<le> length p"
    and "length (p @ s) < 2 ^ 63" and "length (p @ s') < 2 ^ 63"
  shows "crypto_frame_parse usize_bits (p @ s') = Ok f"
proof -
  obtain bo bl rest where g: "p @ s = bo @ bl @ cf_data f @ rest" "var_int_bytes (cf_stream_offset f) bo"
      "var_int_bytes (length (cf_data f)) bl" "cf_encoded_len f = length (bo @ bl @ cf_data f)"
      "cf_stream_offset f < 2 ^ usize_bits"
    using assms(1) unfolding crypto_frame_Ok_iff [OF assms(3)] by blast
  obtain u where "p = (bo @ bl @ cf_data f) @ u"
    by (rule append_eq_prefixE [of p s "bo @ bl @ cf_data f" rest]) (use assms(2) g in auto)
  then show ?thesis using g unfolding crypto_frame_Ok_iff [OF assms(4)] by auto
qed

section \<open>The frame loop\<close>

text \<open>One turn of the loop up to the delivery of a CRYPTO frame: the frame, if it is one, and the next offset.\<close>

definition consume_frame :: "nat \<Rightarrow> bytes \<Rightarrow> nat \<Rightarrow> (frame_parse_error, crypto_frame option \<times> nat) rs" where
  "consume_frame usize_bits payload offset =
     bnd (read_var_int payload offset) (\<lambda>(frame_type, offset).
     if vi_value frame_type = 0x00 then Ok (None, offset)
     else if vi_value frame_type = 0x01 then Ok (None, offset)
     else if vi_value frame_type = 0x02 then
       bnd (slice_from payload offset) (\<lambda>left.
       bnd (ack_frame_parse left False) (\<lambda>ack. Ok (None, offset + af_encoded_len ack)))
     else if vi_value frame_type = 0x03 then
       bnd (slice_from payload offset) (\<lambda>left.
       bnd (ack_frame_parse left True) (\<lambda>ack. Ok (None, offset + af_encoded_len ack)))
     else if vi_value frame_type = 0x06 then
       bnd (slice_from payload offset) (\<lambda>left.
       bnd (crypto_frame_parse usize_bits left) (\<lambda>crypto. Ok (Some crypto, offset + cf_encoded_len crypto)))
     else Err (FpInvalidFrameType (vi_value frame_type)))"

lemma consume_frame_advance:
  assumes "consume_frame usize_bits payload offset = Ok (c, offset')"
  shows "offset < offset'"
  using assms
  by (auto simp: consume_frame_def bnd_Ok_iff dest!: read_var_int_advance split: prod.splits if_splits)

text \<open>The consumer is any implementation of \<open>FrameConsume\<close>: its state and its \<open>recv_crypto\<close>.\<close>

function consume_frames_loop ::
    "nat \<Rightarrow> ('s \<Rightarrow> crypto_frame \<Rightarrow> 's \<times> (frame_parse_error, unit) rs) \<Rightarrow> 's \<Rightarrow> bytes \<Rightarrow> nat \<Rightarrow>
     's \<times> (frame_parse_error, unit) rs" where
  "consume_frames_loop usize_bits recv_crypto st payload offset =
     (if offset < length payload then
        (case consume_frame usize_bits payload offset of
           Ok (None, offset') \<Rightarrow> consume_frames_loop usize_bits recv_crypto st payload offset'
         | Ok (Some crypto, offset') \<Rightarrow>
             (case recv_crypto st crypto of
                (st', Ok _) \<Rightarrow> consume_frames_loop usize_bits recv_crypto st' payload offset'
              | (st', Err e) \<Rightarrow> (st', Err e)
              | (st', Panic) \<Rightarrow> (st', Panic))
         | Err e \<Rightarrow> (st, Err e)
         | Panic \<Rightarrow> (st, Panic))
      else (st, Ok ()))"
  by pat_completeness auto
termination
  by (relation "measure (\<lambda>(ub, recv, st, payload, offset). length payload - offset)")
    (auto dest!: consume_frame_advance)

declare consume_frames_loop.simps [simp del]

definition consume_frames where
  "consume_frames usize_bits recv_crypto st payload =
     consume_frames_loop usize_bits recv_crypto st payload 0"

text \<open>The grammar of a payload: PADDING, PING, ACK and CRYPTO frames in any order.\<close>

inductive quic_frame :: "nat \<Rightarrow> bytes \<Rightarrow> crypto_frame option \<Rightarrow> bool" for usize_bits where
  padding: "var_int_bytes 0x00 t \<Longrightarrow> quic_frame usize_bits t None"
| ping: "var_int_bytes 0x01 t \<Longrightarrow> quic_frame usize_bits t None"
| ack: "var_int_bytes 0x02 t \<Longrightarrow> ack_frame_parse b False = Ok a \<Longrightarrow> af_encoded_len a = length b \<Longrightarrow>
    quic_frame usize_bits (t @ b) None"
| ack_ecn: "var_int_bytes 0x03 t \<Longrightarrow> ack_frame_parse b True = Ok a \<Longrightarrow> af_encoded_len a = length b \<Longrightarrow>
    quic_frame usize_bits (t @ b) None"
| crypto: "var_int_bytes 0x06 t \<Longrightarrow> crypto_frame_parse usize_bits b = Ok f \<Longrightarrow> cf_encoded_len f = length b \<Longrightarrow>
    quic_frame usize_bits (t @ b) (Some f)"

inductive quic_frames :: "nat \<Rightarrow> bytes \<Rightarrow> crypto_frame list \<Rightarrow> bool" for usize_bits where
  nil: "quic_frames usize_bits [] []"
| cons: "quic_frame usize_bits b c \<Longrightarrow> quic_frames usize_bits rest fs \<Longrightarrow>
    quic_frames usize_bits (b @ rest) (case c of None \<Rightarrow> fs | Some f \<Rightarrow> f # fs)"

fun recv_all :: "('s \<Rightarrow> 'f \<Rightarrow> 's \<times> ('e, unit) rs) \<Rightarrow> 's \<Rightarrow> 'f list \<Rightarrow> 's \<times> ('e, unit) rs" where
  "recv_all recv st [] = (st, Ok ())"
| "recv_all recv st (f # fs) =
     (case recv st f of (st', Ok _) \<Rightarrow> recv_all recv st' fs
      | (st', Err e) \<Rightarrow> (st', Err e) | (st', Panic) \<Rightarrow> (st', Panic))"

text \<open>A success of a prefix decoder behind a frame type consumes exactly the bytes of the frame.\<close>

lemma drop_split_at: "n \<le> length xs \<Longrightarrow> xs = take n xs @ drop n xs \<and> length (take n xs) = n"
  by simp

lemma ack_frame_whole:
  assumes "ack_frame_parse data ecn = Ok a"
  shows "ack_frame_parse (take (af_encoded_len a) data) ecn = Ok a"
  using ack_frm.dec_local [of data ecn a] assms by simp

lemma crypto_frame_whole:
  assumes "crypto_frame_parse usize_bits data = Ok f" and "length data < 2 ^ 63"
  shows "crypto_frame_parse usize_bits (take (cf_encoded_len f) data) = Ok f"
  using crypto_frame_framed [of usize_bits "take (cf_encoded_len f) data" "drop (cf_encoded_len f) data" f "[]"]
    crypto_frame_bounds [OF assms] assms by simp

lemma consume_frame_sound:
  assumes "consume_frame usize_bits payload off = Ok (c, off')" and "length payload < 2 ^ 63"
  obtains b where "quic_frame usize_bits b c" and "drop off payload = b @ drop off' payload"
    and "off' = off + length b" and "off' \<le> length payload"
proof -
  note that_frame = that
  obtain ft o1 where ft: "read_var_int payload off = Ok (ft, o1)"
    using assms(1) by (auto simp: consume_frame_def bnd_Ok_iff)
  then have off: "off \<le> length payload" "quic_var_int (drop off payload) = Some ft" "o1 = off + vi_encoded_len ft"
    by (auto simp: rs_iff)
  obtain t r where t: "drop off payload = t @ r" "var_int_bytes (vi_value ft) t" "length t = vi_encoded_len ft"
    using off(2) by (rule var_int_bytes_split)
  have "drop (length t) (drop off payload) = r" by (subst t(1)) simp
  then have o1: "o1 \<le> length payload" "r = drop o1 payload"
    using read_var_int_advance [OF ft] t(3) off(3) by (simp_all add: add.commute)
  have finish: thesis if "quic_frame usize_bits (t @ take n r) c" "off' = o1 + n" "n \<le> length r" for n
  proof (rule that_frame)
    show "quic_frame usize_bits (t @ take n r) c" by (rule that)
    show "drop off payload = (t @ take n r) @ drop off' payload"
      using append_take_drop_id [of n "drop o1 payload"] by (simp add: t(1) o1(2) that(2) add.commute)
    show "off' = off + length (t @ take n r)" using that(2,3) t(3) off(3) by simp
    show "off' \<le> length payload" using that(2,3) o1 by simp
  qed
  have lr: "length r < 2 ^ 63" using assms(2) o1 by simp
  have "(vi_value ft = 0 \<or> vi_value ft = 1) \<and> c = None \<and> off' = o1 \<or>
    (\<exists>a. (vi_value ft = 2 \<or> vi_value ft = 3) \<and> ack_frame_parse r (vi_value ft = 3) = Ok a \<and> c = None \<and>
      off' = o1 + af_encoded_len a) \<or>
    (\<exists>f. vi_value ft = 6 \<and> crypto_frame_parse usize_bits r = Ok f \<and> c = Some f \<and> off' = o1 + cf_encoded_len f)"
    using assms(1) ft o1 by (simp add: consume_frame_def bnd_Ok_iff split: if_split_asm; blast)
  then consider (skip) "vi_value ft = 0 \<or> vi_value ft = 1" "c = None" "off' = o1"
    | (ack) a where "vi_value ft = 2 \<or> vi_value ft = 3" "ack_frame_parse r (vi_value ft = 3) = Ok a" "c = None"
        "off' = o1 + af_encoded_len a"
    | (crypto) f where "vi_value ft = 6" "crypto_frame_parse usize_bits r = Ok f" "c = Some f"
        "off' = o1 + cf_encoded_len f"
    by blast
  then show thesis
  proof cases
    case skip
    then have "quic_frame usize_bits t c" using t(2) quic_frame.padding quic_frame.ping by metis
    then show thesis using finish [of 0] skip(3) by simp
  next
    case (ack a)
    have b: "length (take (af_encoded_len a) r) = af_encoded_len a" using ack_frame_bounds(2) [OF ack(2)] by simp
    have "quic_frame usize_bits (t @ take (af_encoded_len a) r) c"
      using t(2) ack(1,3) ack_frame_whole [OF ack(2)] quic_frame.ack [of t _ a] quic_frame.ack_ecn [of t _ a] b
      by (cases "vi_value ft = 3") simp_all
    then show thesis using finish ack(4) ack_frame_bounds(2) [OF ack(2)] by blast
  next
    case (crypto f)
    have "quic_frame usize_bits (t @ take (cf_encoded_len f) r) c"
      using t(2) crypto crypto_frame_whole [OF crypto(2) lr] crypto_frame_bounds [OF crypto(2) lr]
      by (auto intro!: quic_frame.crypto)
    then show thesis using finish crypto(4) crypto_frame_bounds [OF crypto(2) lr] by blast
  qed
qed

lemma consume_frame_complete:
  assumes "quic_frame usize_bits b c" and "drop off payload = b @ rest" and "length payload < 2 ^ 63"
    and "off \<le> length payload"
  shows "consume_frame usize_bits payload off = Ok (c, off + length b)"
proof -
  have read: "read_var_int payload off = Ok (\<lparr>vi_value = v, vi_encoded_len = length t\<rparr>, off + length t)"
    if "var_int_bytes v t" "drop off payload = t @ r" for v t r
    using that assms(4) var_int_bytes_parse [OF that(1), of r] by (simp add: read_var_int_Ok_iff)
  have next_left: "drop (off + length t) payload = r" if "drop off payload = t @ r" for t r
    using that by (metis add.commute append_eq_conv_conj drop_drop)
  have le: "off + length t \<le> length payload" if "drop off payload = t @ r" for t r
    using that assms(4) by (metis diff_le_mono2 drop_drop le_diff_conv2 length_append length_drop le_add1 add.commute)
  show ?thesis using assms(1)
  proof cases
    case padding
    then show ?thesis using read [of 0 b rest] assms(2) by (simp add: consume_frame_def)
  next
    case ping
    then show ?thesis using read [of 1 b rest] assms(2) by (simp add: consume_frame_def)
  next
    case (ack t b' a)
    then show ?thesis
      using read [of 2 t "b' @ rest"] next_left [of t "b' @ rest"] le [of t "b' @ rest"] assms(2)
        ack_frm.dec_prefix [of b' False a rest] by (simp add: consume_frame_def)
  next
    case (ack_ecn t b' a)
    then show ?thesis
      using read [of 3 t "b' @ rest"] next_left [of t "b' @ rest"] le [of t "b' @ rest"] assms(2)
        ack_frm.dec_prefix [of b' True a rest] by (simp add: consume_frame_def)
  next
    case (crypto t b' f)
    have d: "drop off payload = t @ b' @ rest" using assms(2) crypto by simp
    then have "length (b' @ rest) < 2 ^ 63" using assms(3) le [OF d] next_left [OF d] by (metis le_less_trans length_drop diff_le_self)
    then have "crypto_frame_parse usize_bits (b' @ rest) = Ok f"
      using crypto_frame_framed [of usize_bits b' "[]" f rest] crypto by simp
    then show ?thesis using crypto read [OF crypto(3) d] next_left [OF d] le [OF d] by (simp add: consume_frame_def)
  qed
qed

lemma quic_frame_nonempty: "quic_frame usize_bits b c \<Longrightarrow> b \<noteq> []"
  by (induction rule: quic_frame.induct) (auto dest: var_int_bytes_value)

lemma consume_frames_loop_complete:
  assumes "quic_frames usize_bits rest fs" and "drop off payload = rest" and "length payload < 2 ^ 63"
    and "off \<le> length payload"
  shows "consume_frames_loop usize_bits recv st payload off = recv_all recv st fs"
  using assms
proof (induction arbitrary: off st rule: quic_frames.induct)
  case nil
  then show ?case by (subst consume_frames_loop.simps) simp
next
  case (cons b c rest fs)
  have step: "consume_frame usize_bits payload off = Ok (c, off + length b)"
    using consume_frame_complete [OF cons(1)] cons.prems by auto
  have len: "length b + length rest = length payload - off"
    using arg_cong [OF cons.prems(1), of length] by simp
  then have off: "off < length payload" "off + length b \<le> length payload"
    using quic_frame_nonempty [OF cons(1)] by (cases b; simp)+
  have "drop (length b) (drop off payload) = rest" by (subst cons.prems(1)) simp
  then have rest: "drop (off + length b) payload = rest" by (simp add: add.commute)
  show ?case
    using cons.IH [OF rest cons.prems(2) off(2)] off(1)
    by (subst consume_frames_loop.simps) (auto simp: step split: option.splits prod.splits rs.splits)
qed

lemma consume_frames_loop_sound:
  "consume_frames_loop usize_bits recv st payload off = (st', Ok u) \<Longrightarrow> length payload < 2 ^ 63 \<Longrightarrow>
    off \<le> length payload \<Longrightarrow> \<exists>fs. quic_frames usize_bits (drop off payload) fs"
proof (induction "length payload - off" arbitrary: st off rule: less_induct)
  case less
  show ?case
  proof (cases "off < length payload")
    case False
    then show ?thesis using less.prems(3) quic_frames.nil by auto
  next
    case True
    obtain c off' where step: "consume_frame usize_bits payload off = Ok (c, off')"
      using less.prems(1) True by (subst (asm) consume_frames_loop.simps) (auto split: rs.splits)
    obtain b where b: "quic_frame usize_bits b c" "drop off payload = b @ drop off' payload" "off' \<le> length payload"
      using consume_frame_sound [OF step less.prems(2)] by metis
    obtain st1 where "consume_frames_loop usize_bits recv st1 payload off' = (st', Ok u)"
      using less.prems(1) True step
      by (subst (asm) consume_frames_loop.simps) (auto split: option.splits prod.splits rs.splits)
    then obtain fs where "quic_frames usize_bits (drop off' payload) fs"
      using less.hyps [of off'] consume_frame_advance [OF step] b(3) less.prems(2) True by fastforce
    then show ?thesis using quic_frames.cons [OF b(1)] b(2) by metis
  qed
qed

lemma consume_frame_not_Panic:
  assumes "length payload < 2 ^ 63" and "off \<le> length payload"
  shows "consume_frame usize_bits payload off \<noteq> Panic"
  using assms crypto_frame_not_Panic
  by (auto simp: consume_frame_def bnd_Panic_iff read_var_int_Panic_iff slice_from_Panic_iff
    dest!: read_var_int_advance split: if_splits)

text \<open>
  The contract of a frame consumer (the trait \<open>FrameConsume\<close>): an invariant of its state that every
  frame keeps, under which it does not panic. The frame loop passes the contract on.
\<close>

locale frame_consumer =
  fixes recv :: "'s \<Rightarrow> crypto_frame \<Rightarrow> 's \<times> (frame_parse_error, unit) rs"
    and good :: "'s \<Rightarrow> bool"
  assumes recv_good: "good st \<Longrightarrow> good (fst (recv st f)) \<and> snd (recv st f) \<noteq> Panic"
begin

lemma recv_good_cases: "good st \<Longrightarrow> recv st f = (st', r) \<Longrightarrow> good st' \<and> r \<noteq> Panic"
  using recv_good [of st f] by simp

lemma recv_all_good:
  "good st \<Longrightarrow> good (fst (recv_all recv st fs)) \<and> snd (recv_all recv st fs) \<noteq> Panic"
  by (induction fs arbitrary: st) (auto split: prod.splits rs.splits dest: recv_good_cases)

lemma consume_frames_loop_good:
  "good st \<Longrightarrow> length payload < 2 ^ 63 \<Longrightarrow>
    good (fst (consume_frames_loop usize_bits recv st payload off)) \<and>
    snd (consume_frames_loop usize_bits recv st payload off) \<noteq> Panic"
proof (induction "length payload - off" arbitrary: st off rule: less_induct)
  case less
  let ?ok = "\<lambda>st off. good (fst (consume_frames_loop usize_bits recv st payload off)) \<and>
    snd (consume_frames_loop usize_bits recv st payload off) \<noteq> Panic"
  have IH: "?ok st' off'"
    if "consume_frame usize_bits payload off = Ok (c, off')" "off < length payload" "good st'" for st' c off'
    using less consume_frame_advance [OF that(1)] that(2,3) by simp
  then show ?case
    using consume_frame_not_Panic [OF less.prems(2), of off usize_bits] less.prems(1)
    by (subst (1 2) consume_frames_loop.simps)
      (auto split: option.splits prod.splits rs.splits dest: recv_good_cases)
qed

lemma consume_frames_good:
  "good st \<Longrightarrow> length payload < 2 ^ 63 \<Longrightarrow>
    good (fst (consume_frames usize_bits recv st payload)) \<and>
    snd (consume_frames usize_bits recv st payload) \<noteq> Panic"
  unfolding consume_frames_def by (rule consume_frames_loop_good)

end



end
