(* ===== verification/Codec_Tls.thy ===== *)
theory Codec_Tls
  imports Vey_Prelude
begin

text \<open>
  TLS records, handshake messages and the ClientHello: \<open>lib/vey-codec/src/tls/\<close>. The record parser
  is a prefix decoder, the \<open>HandshakeCoalescer\<close> reassembles a message independently of how it is cut
  into fragments, and the ClientHello and extension parsers accept exactly the RFC 8446 layout.
\<close>

section \<open>Versions and records\<close>

record raw_version =
  rv_major :: u8
  rv_minor :: u8

definition raw_version_is_tlcp :: "raw_version \<Rightarrow> bool" where
  "raw_version_is_tlcp v \<longleftrightarrow> rv_major v = 1 \<and> rv_minor v = 1"

datatype content_type =
  CtInvalid | CtChangeCipherSpec | CtAlert | CtHandshake | CtApplicationData | CtHeartbeat

fun content_type_code :: "content_type \<Rightarrow> u8" where
  "content_type_code CtInvalid = 0"
| "content_type_code CtChangeCipherSpec = 20"
| "content_type_code CtAlert = 21"
| "content_type_code CtHandshake = 22"
| "content_type_code CtApplicationData = 23"
| "content_type_code CtHeartbeat = 24"

definition content_type_try_from :: "u8 \<Rightarrow> content_type option" where
  "content_type_try_from v =
     (if v = 20 then Some CtChangeCipherSpec
      else if v = 21 then Some CtAlert
      else if v = 22 then Some CtHandshake
      else if v = 23 then Some CtApplicationData
      else if v = 24 then Some CtHeartbeat
      else None)"

text \<open>The versions accepted in a record header and in a ClientHello.\<close>

definition supported_version :: "u8 \<Rightarrow> u8 \<Rightarrow> bool" where
  "supported_version major minor \<longleftrightarrow>
     (major, minor) \<in> {(1, 1), (3, 0), (3, 1), (3, 2), (3, 3)}"

datatype record_parse_error =
    RecNeedMoreData nat
  | RecUnsupportedVersion raw_version
  | RecInvalidContentType u8
  | RecFragmentLengthExceeded
  | RecEmptyHandshakeFragment

record record_header =
  rh_version :: raw_version
  rh_content_type :: content_type
  rh_fragment_size :: nat

definition record_header_parse :: "bytes \<Rightarrow> (record_parse_error, record_header) rs" where
  "record_header_parse data =
     bnd (idx data 0) (\<lambda>b0.
     bnd (ok_or (RecInvalidContentType b0) (content_type_try_from b0)) (\<lambda>content_type.
     bnd (idx data 1) (\<lambda>b1.
     bnd (idx data 2) (\<lambda>b2.
     let version = \<lparr>rv_major = b1, rv_minor = b2\<rparr> in
     if \<not> supported_version b1 b2 then Err (RecUnsupportedVersion version)
     else
       bnd (idx data 3) (\<lambda>b3.
       bnd (idx data 4) (\<lambda>b4.
       Ok \<lparr>rh_version = version, rh_content_type = content_type, rh_fragment_size = be_nat [b3, b4]\<rparr>))))))"

record tls_record =
  rec_header :: record_header
  rec_fragment :: bytes
  rec_consume_offset :: nat

definition record_parse :: "bytes \<Rightarrow> (record_parse_error, tls_record) rs" where
  "record_parse data =
     (if length data < 5 then Err (RecNeedMoreData (5 - length data))
      else
        bnd (record_header_parse data) (\<lambda>header.
        if 2 ^ 14 < rh_fragment_size header then Err RecFragmentLengthExceeded
        else if rh_content_type header = CtHandshake \<and> rh_fragment_size header = 0 then
          Err RecEmptyHandshakeFragment
        else
          let end = 5 + rh_fragment_size header in
          if length data < end then Err (RecNeedMoreData (end - length data))
          else
            bnd (slice data 5 end) (\<lambda>fragment.
            Ok \<lparr>rec_header = header, rec_fragment = fragment, rec_consume_offset = 0\<rparr>)))"

definition record_encoded_len :: "tls_record \<Rightarrow> nat" where
  "record_encoded_len r = 5 + length (rec_fragment r)"

definition record_consume_done :: "tls_record \<Rightarrow> bool" where
  "record_consume_done r \<longleftrightarrow> length (rec_fragment r) \<le> rec_consume_offset r"

section \<open>Handshake messages\<close>

record handshake_header =
  hh_msg_type :: u8
  hh_msg_length :: nat

definition handshake_header_try_parse :: "bytes \<Rightarrow> handshake_header option" where
  "handshake_header_try_parse data =
     (case data of
        t # a # b # c # _ \<Rightarrow> Some \<lparr>hh_msg_type = t, hh_msg_length = be_nat [0, a, b, c]\<rparr>
      | _ \<Rightarrow> None)"

definition handshake_header_encoded_len :: "handshake_header \<Rightarrow> nat" where
  "handshake_header_encoded_len h = 4 + hh_msg_length h"

record handshake_message =
  hm_header :: handshake_header
  hm_msg_data :: bytes

definition handshake_try_parse_fragment :: "bytes \<Rightarrow> handshake_message option" where
  "handshake_try_parse_fragment data =
     (case handshake_header_try_parse data of None \<Rightarrow> None
      | Some header \<Rightarrow>
          let encoded_len = handshake_header_encoded_len header in
          if encoded_len \<le> length data
          then Some \<lparr>hm_header = header, hm_msg_data = take encoded_len data\<rparr>
          else None)"

definition handshake_message_encoded_len :: "handshake_message \<Rightarrow> nat" where
  "handshake_message_encoded_len m = length (hm_msg_data m)"

section \<open>The handshake coalescer\<close>

datatype handshake_coalesce_error =
    HcInvalidContentType u8
  | HcTooLargeMessageSize nat

record handshake_coalescer =
  hc_max_message_size :: nat
  hc_header :: "handshake_header option"
  hc_buf :: bytes

definition handshake_coalescer_new :: "nat \<Rightarrow> handshake_coalescer" where
  "handshake_coalescer_new max_message_size =
     \<lparr>hc_max_message_size = max_message_size, hc_header = None, hc_buf = []\<rparr>"

definition handshake_coalescer_default :: handshake_coalescer where
  "handshake_coalescer_default = handshake_coalescer_new (2 ^ 14)"

definition handshake_coalescer_is_empty :: "handshake_coalescer \<Rightarrow> bool" where
  "handshake_coalescer_is_empty c \<longleftrightarrow> hc_buf c = []"

text \<open>
  The methods take the coalescer by mutable reference, so they return it updated beside their
  result, on the error paths too.
\<close>

definition add_first_fragment ::
    "handshake_coalescer \<Rightarrow> bytes \<Rightarrow> handshake_coalescer \<times> (handshake_coalesce_error, nat) rs" where
  "add_first_fragment c data =
     (case handshake_header_try_parse data of
        Some hdr \<Rightarrow>
          if hc_max_message_size c < hh_msg_length hdr
          then (c, Err (HcTooLargeMessageSize (hh_msg_length hdr)))
          else
            let encoded_len = handshake_header_encoded_len hdr; c = c\<lparr>hc_header := Some hdr\<rparr> in
            if length data \<le> encoded_len
            then (c\<lparr>hc_buf := hc_buf c @ data\<rparr>, Ok (length data))
            else (c\<lparr>hc_buf := hc_buf c @ take encoded_len data\<rparr>, Ok encoded_len)
      | None \<Rightarrow> (c\<lparr>hc_buf := hc_buf c @ data\<rparr>, Ok (length data)))"

definition coalesce_fragment ::
    "handshake_coalescer \<Rightarrow> bytes \<Rightarrow> handshake_coalescer \<times> (handshake_coalesce_error, nat) rs" where
  "coalesce_fragment c data =
     (if hc_buf c = [] then add_first_fragment c data
      else case hc_header c of
        Some hdr \<Rightarrow>
          if handshake_header_encoded_len hdr < length (hc_buf c) then (c, Panic)
          else
            let needed = handshake_header_encoded_len hdr - length (hc_buf c) in
            if length data \<le> needed
            then (c\<lparr>hc_buf := hc_buf c @ data\<rparr>, Ok (length data))
            else (c\<lparr>hc_buf := hc_buf c @ take needed data\<rparr>, Ok needed)
      | None \<Rightarrow>
          let c = c\<lparr>hc_buf := hc_buf c @ data\<rparr> in
          case handshake_header_try_parse (hc_buf c) of
            Some hdr \<Rightarrow>
              if hc_max_message_size c < hh_msg_length hdr
              then (c, Err (HcTooLargeMessageSize (hh_msg_length hdr)))
              else
                let encoded_len = handshake_header_encoded_len hdr; c = c\<lparr>hc_header := Some hdr\<rparr> in
                if length (hc_buf c) < encoded_len then (c, Ok (length data))
                else
                  (c\<lparr>hc_buf := take encoded_len (hc_buf c)\<rparr>,
                   usub (length data) (length (hc_buf c) - encoded_len))
          | None \<Rightarrow> (c, Ok (length data)))"

text \<open>
  The reference: what a coalescer holds after the handshake bytes \<open>s\<close>, as a function of the bytes
  alone.
\<close>

definition coalesced :: "nat \<Rightarrow> bytes \<Rightarrow> (handshake_coalesce_error, handshake_coalescer) rs" where
  "coalesced max_size s =
     (case handshake_header_try_parse s of
        None \<Rightarrow> Ok \<lparr>hc_max_message_size = max_size, hc_header = None, hc_buf = s\<rparr>
      | Some h \<Rightarrow>
          if max_size < hh_msg_length h then Err (HcTooLargeMessageSize (hh_msg_length h))
          else Ok \<lparr>hc_max_message_size = max_size, hc_header = Some h,
                    hc_buf = take (handshake_header_encoded_len h) s\<rparr>)"

fun coalesce_all ::
    "handshake_coalescer \<Rightarrow> bytes list \<Rightarrow> (handshake_coalesce_error, handshake_coalescer) rs" where
  "coalesce_all c [] = Ok c"
| "coalesce_all c (f # fs) =
     (case coalesce_fragment c f of
        (c', Ok n) \<Rightarrow> coalesce_all c' fs
      | (c', Err e) \<Rightarrow> Err e
      | (c', Panic) \<Rightarrow> Panic)"

lemma handshake_header_None_iff: "handshake_header_try_parse s = None \<longleftrightarrow> length s < 4"
  by (auto simp: handshake_header_try_parse_def split: list.splits)

lemma handshake_header_append:
  "handshake_header_try_parse s = Some h \<Longrightarrow> handshake_header_try_parse (s @ t) = Some h"
  by (auto simp: handshake_header_try_parse_def split: list.splits)

lemma handshake_header_take:
  "handshake_header_try_parse s = Some h \<Longrightarrow> 4 \<le> n \<Longrightarrow> handshake_header_try_parse (take n s) = Some h"
  by (auto simp: handshake_header_try_parse_def take_Cons' split: list.splits)

lemma coalesced_Err_append: "coalesced m s = Err e \<Longrightarrow> coalesced m (s @ f) = Err e"
  by (auto simp: coalesced_def handshake_header_append split: option.splits if_splits)

lemma coalesced_not_Panic [simp]: "coalesced m s \<noteq> Panic"
  by (simp add: coalesced_def split: option.splits)

lemma coalesced_Nil: "coalesced m [] = Ok (handshake_coalescer_new m)"
  by (simp add: coalesced_def handshake_coalescer_new_def handshake_header_try_parse_def)

lemma coalesce_step_header:
  assumes "coalesced m s = Ok c" and "handshake_header_try_parse s = Some h"
  shows "\<exists>c'. coalesced m (s @ f) = Ok c' \<and>
    coalesce_fragment c f = (c', Ok (length (hc_buf c') - length (hc_buf c)))"
proof -
  have c: "c = \<lparr>hc_max_message_size = m, hc_header = Some h, hc_buf = take (handshake_header_encoded_len h) s\<rparr>"
    and m: "\<not> m < hh_msg_length h"
    using assms by (auto simp: coalesced_def split: if_splits)
  have "4 \<le> length s" using assms(2) handshake_header_None_iff [of s] by simp
  moreover from this have "s \<noteq> []" by auto
  ultimately show ?thesis
    using m handshake_header_append [OF assms(2), of f]
    by (auto simp: c coalesced_def coalesce_fragment_def Let_def handshake_header_encoded_len_def min_def)
qed

lemma coalesce_step_no_header:
  assumes "coalesced m s = Ok c" and "handshake_header_try_parse s = None"
  shows "(\<exists>c'. coalesced m (s @ f) = Ok c' \<and>
      coalesce_fragment c f = (c', Ok (length (hc_buf c') - length (hc_buf c)))) \<or>
    (\<exists>c' e. coalesced m (s @ f) = Err e \<and> coalesce_fragment c f = (c', Err e))"
proof -
  have c: "c = \<lparr>hc_max_message_size = m, hc_header = None, hc_buf = s\<rparr>" and s: "length s < 4"
    using assms by (auto simp: coalesced_def handshake_header_None_iff split: if_splits)
  show ?thesis
  proof (cases "handshake_header_try_parse (s @ f)")
    case None
    then show ?thesis
      by (auto simp: c coalesced_def coalesce_fragment_def add_first_fragment_def)
  next
    case (Some h)
    then show ?thesis using s
      by (auto simp: c coalesced_def coalesce_fragment_def add_first_fragment_def Let_def
        handshake_header_encoded_len_def)
  qed
qed

lemma coalesce_step:
  assumes "coalesced m s = Ok c"
  shows "(\<exists>c'. coalesced m (s @ f) = Ok c' \<and>
      coalesce_fragment c f = (c', Ok (length (hc_buf c') - length (hc_buf c)))) \<or>
    (\<exists>c' e. coalesced m (s @ f) = Err e \<and> coalesce_fragment c f = (c', Err e))"
  using coalesce_step_header [OF assms] coalesce_step_no_header [OF assms]
  by (cases "handshake_header_try_parse s") auto

lemma coalesce_all_coalesced:
  "coalesced m s = Ok c \<Longrightarrow> coalesce_all c fs = coalesced m (s @ concat fs)"
proof (induction fs arbitrary: s c)
  case (Cons f fs)
  show ?case
  proof (cases "coalesced m (s @ f)")
    case (Ok c')
    then show ?thesis using Cons.IH [OF Ok] coalesce_step [OF Cons.prems, of f] by auto
  next
    case (Err e)
    then show ?thesis
      using coalesced_Err_append [OF Err, of "concat fs"] coalesce_step [OF Cons.prems, of f] by auto
  qed simp
qed simp

text \<open>
  C10: the \<open>HandshakeCoalescer\<close> reassembles a handshake message independently of fragmentation. After
  any sequence of fragments (empty ones included) its state is the one fixed by the concatenation of
  the fragments: the bytes received, up to the end of the message the header announces, and never
  more. A message above the size limit is refused at the fragment that completes its header. The
  subtractions \<open>encoded_len - buf.len()\<close> and \<open>data.len() - (buf.len() - encoded_len)\<close> never underflow.
\<close>

theorem coalescer_fragmentation_independent:
  "coalesce_all (handshake_coalescer_new max_size) fragments = coalesced max_size (concat fragments)"
  using coalesce_all_coalesced [OF coalesced_Nil, of max_size fragments] by simp

section \<open>Consuming the fragment of a record\<close>

definition consume_handshake ::
    "tls_record \<Rightarrow> handshake_coalescer \<Rightarrow>
     tls_record \<times> handshake_coalescer \<times> (handshake_coalesce_error, handshake_message option) rs" where
  "consume_handshake r c =
     (if rh_content_type (rec_header r) \<noteq> CtHandshake then
        (r, c, Err (HcInvalidContentType (content_type_code (rh_content_type (rec_header r)))))
      else if record_consume_done r then (r, c, Ok None)
      else
        let fragment = drop (rec_consume_offset r) (rec_fragment r) in
        case (if handshake_coalescer_is_empty c then handshake_try_parse_fragment fragment else None) of
          Some msg \<Rightarrow>
            (r\<lparr>rec_consume_offset := rec_consume_offset r + handshake_message_encoded_len msg\<rparr>, c, Ok (Some msg))
        | None \<Rightarrow>
            (case coalesce_fragment c fragment of
               (c, Ok n) \<Rightarrow> (r\<lparr>rec_consume_offset := rec_consume_offset r + n\<rparr>, c, Ok None)
             | (c, Err e) \<Rightarrow> (r, c, Err e)
             | (c, Panic) \<Rightarrow> (r, c, Panic)))"

text \<open>A coalescer that some handshake bytes led to.\<close>

definition coalescer_inv :: "handshake_coalescer \<Rightarrow> bool" where
  "coalescer_inv c \<longleftrightarrow>
     hc_header c = handshake_header_try_parse (hc_buf c) \<and>
     (case hc_header c of None \<Rightarrow> True
      | Some h \<Rightarrow> hh_msg_length h \<le> hc_max_message_size c \<and>
          length (hc_buf c) \<le> handshake_header_encoded_len h)"

definition coalescer_complete :: "handshake_coalescer \<Rightarrow> bool" where
  "coalescer_complete c \<longleftrightarrow>
     (case hc_header c of None \<Rightarrow> False
      | Some h \<Rightarrow> length (hc_buf c) = handshake_header_encoded_len h)"

lemma coalescer_inv_iff: "coalescer_inv c \<longleftrightarrow> coalesced (hc_max_message_size c) (hc_buf c) = Ok c"
  by (cases c) (auto simp: coalescer_inv_def coalesced_def split: option.splits)

lemma coalesced_inv:
  assumes "coalesced m s = Ok c"
  shows "coalescer_inv c" and "hc_max_message_size c = m"
  using assms handshake_header_take
  by (auto simp: coalescer_inv_def coalesced_def handshake_header_encoded_len_def split: option.splits if_splits)

lemma coalesce_fragment_cases:
  assumes "coalescer_inv c"
  obtains (Ok) c' n where "coalesce_fragment c f = (c', Ok n)" and "coalescer_inv c'"
      and "hc_buf c' = hc_buf c @ take n f" and "n \<le> length f"
      and "n = length f \<or> coalescer_complete c'"
    | (Err) c' e where "coalesce_fragment c f = (c', Err e)"
proof -
  have inv: "coalesced (hc_max_message_size c) (hc_buf c) = Ok c" using assms coalescer_inv_iff by blast
  from coalesce_step [OF this, of f] show thesis
  proof (elim disjE exE conjE)
    fix c' assume c': "coalesced (hc_max_message_size c) (hc_buf c @ f) = Ok c'"
      and step: "coalesce_fragment c f = (c', Ok (length (hc_buf c') - length (hc_buf c)))"
    let ?n = "length (hc_buf c') - length (hc_buf c)"
    have "hc_buf c' = hc_buf c @ take ?n f \<and> ?n \<le> length f \<and> (?n = length f \<or> coalescer_complete c')"
    proof (cases "handshake_header_try_parse (hc_buf c @ f)")
      case None
      then show ?thesis using c' by (auto simp: coalesced_def)
    next
      case (Some h)
      have "length (hc_buf c) \<le> handshake_header_encoded_len h"
      proof (cases "handshake_header_try_parse (hc_buf c)")
        case None
        then show ?thesis by (simp add: handshake_header_None_iff handshake_header_encoded_len_def)
      next
        case (Some h')
        moreover have "h' = h" using handshake_header_append [OF Some, of f] \<open>handshake_header_try_parse (hc_buf c @ f) = _\<close> by simp
        ultimately show ?thesis using assms by (auto simp: coalescer_inv_def)
      qed
      then show ?thesis using c' Some
        by (auto simp: coalesced_def coalescer_complete_def min_def split: if_splits)
    qed
    then show thesis using Ok [OF step] coalesced_inv(1) [OF c'] by blast
  qed (rule Err)
qed

text \<open>
  C19: \<open>Record::consume_handshake\<close> keeps the coalescer invariant and stays inside the fragment; it
  never panics. A success either leaves nothing of the record unread, or completes a message, in the
  fragment itself or in the coalescer: the callers' loops cannot spin without progress.
\<close>

theorem consume_handshake_progress:
  assumes "coalescer_inv c" and "rec_consume_offset r \<le> length (rec_fragment r)"
    and "consume_handshake r c = (r', c', res)"
  shows "res \<noteq> Panic \<and> rec_fragment r' = rec_fragment r \<and>
    rec_consume_offset r \<le> rec_consume_offset r' \<and> rec_consume_offset r' \<le> length (rec_fragment r) \<and>
    (\<forall>m. res = Ok m \<longrightarrow> coalescer_inv c' \<and>
      (record_consume_done r' \<or> m \<noteq> None \<or> coalescer_complete c'))"
proof (cases "rh_content_type (rec_header r) = CtHandshake \<and> \<not> record_consume_done r")
  case False
  then show ?thesis using assms by (auto simp: consume_handshake_def split: if_splits)
next
  case True
  let ?f = "drop (rec_consume_offset r) (rec_fragment r)"
  show ?thesis
  proof (cases "if handshake_coalescer_is_empty c then handshake_try_parse_fragment ?f else None")
    case (Some msg)
    then have "length (hm_msg_data msg) \<le> length ?f"
      by (auto simp: handshake_try_parse_fragment_def Let_def split: if_splits option.splits)
    then show ?thesis using assms True Some
      by (auto simp: consume_handshake_def handshake_message_encoded_len_def)
  next
    case None
    from assms(1) show ?thesis
      by (rule coalesce_fragment_cases [of c ?f])
        (use assms True None in \<open>auto simp: consume_handshake_def record_consume_done_def\<close>)
  qed
qed

theorem consume_handshake_progress_witness:
  "\<exists>r' c' m. consume_handshake \<lparr>rec_header = \<lparr>rh_version = \<lparr>rv_major = 3, rv_minor = 1\<rparr>,
      rh_content_type = CtHandshake, rh_fragment_size = 3\<rparr>, rec_fragment = [1, 0, 0], rec_consume_offset = 0\<rparr>
      (handshake_coalescer_new 100) = (r', c', Ok m) \<and> coalescer_inv c' \<and>
    (record_consume_done r' \<or> m \<noteq> None \<or> coalescer_complete c')"
proof -
  let ?r = "\<lparr>rec_header = \<lparr>rh_version = \<lparr>rv_major = 3, rv_minor = 1\<rparr>,
      rh_content_type = CtHandshake, rh_fragment_size = 3\<rparr>, rec_fragment = [1, 0, 0], rec_consume_offset = 0\<rparr>"
  have "coalescer_inv (handshake_coalescer_new 100)"
    by (simp add: coalescer_inv_def handshake_coalescer_new_def handshake_header_try_parse_def)
  moreover have "\<exists>r' c'. consume_handshake ?r (handshake_coalescer_new 100) = (r', c', Ok None)"
    by (simp add: consume_handshake_def record_consume_done_def handshake_coalescer_is_empty_def
      handshake_coalescer_new_def handshake_try_parse_fragment_def handshake_header_try_parse_def
      coalesce_fragment_def add_first_fragment_def Let_def)
  ultimately show ?thesis using consume_handshake_progress [of "handshake_coalescer_new 100" ?r] by fastforce
qed

section \<open>Record framing\<close>

lemma record_header_parse_eq:
  assumes "data = t # a # b # x # y # rest"
  shows "record_header_parse data =
    (case content_type_try_from t of None \<Rightarrow> Err (RecInvalidContentType t)
     | Some ct \<Rightarrow>
         if supported_version a b
         then Ok \<lparr>rh_version = \<lparr>rv_major = a, rv_minor = b\<rparr>, rh_content_type = ct,
                  rh_fragment_size = be_nat [x, y]\<rparr>
         else Err (RecUnsupportedVersion \<lparr>rv_major = a, rv_minor = b\<rparr>))"
  by (simp add: record_header_parse_def assms Let_def split: option.splits)

lemma list_of_length_5:
  assumes "\<not> length data < 5"
  obtains t a b x y rest where "data = t # a # b # x # y # rest"
proof -
  have "Suc (Suc (Suc (Suc (Suc 0)))) \<le> length data" using assms by simp
  then show thesis using that unfolding Suc_le_length_iff by blast
qed

lemma be_nat_pair [simp]: "be_nat [x, y] = unat x * 256 + unat y"
  by simp

lemma record_parse_not_Panic: "record_parse data \<noteq> Panic"
proof (cases "length data < 5")
  case False
  then obtain t a b x y rest where data: "data = t # a # b # x # y # rest" by (rule list_of_length_5)
  show ?thesis
    unfolding record_parse_def record_header_parse_eq [OF data]
    by (auto simp: data Let_def split: option.splits)
qed (simp add: record_parse_def)

text \<open>The bytes of a record with a given content type, version and fragment.\<close>

definition record_bytes :: "u8 \<Rightarrow> raw_version \<Rightarrow> bytes \<Rightarrow> bytes" where
  "record_bytes t v fragment =
     [t, rv_major v, rv_minor v] @ be_bytes 2 (length fragment) @ fragment"

lemma record_parse_Ok_iff:
  "record_parse data = Ok r \<longleftrightarrow>
    (\<exists>t rest. data = record_bytes t (rh_version (rec_header r)) (rec_fragment r) @ rest \<and>
      content_type_try_from t = Some (rh_content_type (rec_header r)) \<and>
      supported_version (rv_major (rh_version (rec_header r))) (rv_minor (rh_version (rec_header r))) \<and>
      rh_fragment_size (rec_header r) = length (rec_fragment r) \<and> length (rec_fragment r) \<le> 2 ^ 14 \<and>
      \<not> (rh_content_type (rec_header r) = CtHandshake \<and> rec_fragment r = []) \<and> rec_consume_offset r = 0)"
  (is "?parse \<longleftrightarrow> ?grammar")
proof
  assume ?parse
  then have "\<not> length data < 5" by (auto simp: record_parse_def)
  then obtain t a b x y rest where data: "data = t # a # b # x # y # rest" by (rule list_of_length_5)
  let ?n = "be_nat [x, y]"
  from \<open>?parse\<close> obtain ct where ct: "content_type_try_from t = Some ct" "supported_version a b"
      "?n \<le> 2 ^ 14" "\<not> (ct = CtHandshake \<and> ?n = 0)" "?n \<le> length rest"
    and r: "r = \<lparr>rec_header = \<lparr>rh_version = \<lparr>rv_major = a, rv_minor = b\<rparr>, rh_content_type = ct,
        rh_fragment_size = ?n\<rparr>, rec_fragment = take ?n rest, rec_consume_offset = 0\<rparr>"
    unfolding record_parse_def record_header_parse_eq [OF data]
    by (auto simp: data Let_def split: option.splits if_splits simp del: be_nat_pair be_nat_Cons)
  have "be_bytes 2 ?n = [x, y]" using be_bytes_be_nat [of "[x, y]"] by (simp only: list.size numeral_2_eq_2 One_nat_def) simp
  then have "data = record_bytes t (rh_version (rec_header r)) (rec_fragment r) @ drop ?n rest"
    using ct(5) by (simp add: record_bytes_def r data min_def del: be_nat_pair be_nat_Cons)
  then show ?grammar using ct r by fastforce
next
  assume ?grammar
  then obtain t rest where data: "data = record_bytes t (rh_version (rec_header r)) (rec_fragment r) @ rest"
    and g: "content_type_try_from t = Some (rh_content_type (rec_header r))"
      "supported_version (rv_major (rh_version (rec_header r))) (rv_minor (rh_version (rec_header r)))"
      "rh_fragment_size (rec_header r) = length (rec_fragment r)" "length (rec_fragment r) \<le> 2 ^ 14"
      "\<not> (rh_content_type (rec_header r) = CtHandshake \<and> rec_fragment r = [])" "rec_consume_offset r = 0"
    by blast
  let ?n = "length (rec_fragment r)"
  have n: "be_nat [of_nat (?n div 256), of_nat ?n] = ?n"
    using be_nat_be_bytes [of 2 ?n] g(4) by (simp add: be_bytes_pair)
  have data': "data = t # rv_major (rh_version (rec_header r)) # rv_minor (rh_version (rec_header r)) #
      of_nat (?n div 256) # of_nat ?n # (rec_fragment r @ rest)"
    by (simp add: data record_bytes_def be_bytes_pair)
  show ?parse using g
    unfolding record_parse_def record_header_parse_eq [OF data'] n
    by (cases r) (auto simp: data')
qed

lemma length_record_bytes: "length (record_bytes t v f) = 5 + length f"
  by (simp add: record_bytes_def)

lemma record_parse_bounds:
  "record_parse data = Ok r \<Longrightarrow> 0 < record_encoded_len r \<and> record_encoded_len r \<le> length data"
  by (auto simp: record_parse_Ok_iff record_encoded_len_def length_record_bytes)

lemma record_parse_framed:
  assumes "record_parse (p @ s) = Ok r" and "record_encoded_len r \<le> length p"
  shows "record_parse (p @ s') = Ok r"
proof -
  obtain t rest where g: "p @ s = record_bytes t (rh_version (rec_header r)) (rec_fragment r) @ rest"
      "content_type_try_from t = Some (rh_content_type (rec_header r))"
    using assms(1) unfolding record_parse_Ok_iff by blast
  obtain u where "p = record_bytes t (rh_version (rec_header r)) (rec_fragment r) @ u"
    by (rule append_eq_prefixE [OF g(1)]) (use assms(2) in \<open>auto simp: record_encoded_len_def length_record_bytes\<close>)
  then show ?thesis using assms(1) g unfolding record_parse_Ok_iff by auto
qed

interpretation tls_rec: prefix_decoder "\<lambda>data. ok_opt (record_parse data)" record_encoded_len
  by unfold_locales (auto dest: record_parse_bounds record_parse_framed)

text \<open>
  C29: \<open>Record::parse\<close> accepts exactly a TLS record at the front of the buffer: a known content type,
  an SSL 3.0 to TLS 1.3 or TLCP version, and a fragment of at most \<open>2^14\<close> bytes that is not an empty
  handshake fragment; it never panics.
\<close>

theorem record_parse_grammar:
  "record_parse data \<noteq> Panic \<and>
   (record_parse data = Ok r \<longleftrightarrow>
    (\<exists>t rest. data = record_bytes t (rh_version (rec_header r)) (rec_fragment r) @ rest \<and>
      content_type_try_from t = Some (rh_content_type (rec_header r)) \<and>
      supported_version (rv_major (rh_version (rec_header r))) (rv_minor (rh_version (rec_header r))) \<and>
      rh_fragment_size (rec_header r) = length (rec_fragment r) \<and> length (rec_fragment r) \<le> 2 ^ 14 \<and>
      \<not> (rh_content_type (rec_header r) = CtHandshake \<and> rec_fragment r = []) \<and> rec_consume_offset r = 0))"
  using record_parse_not_Panic record_parse_Ok_iff by blast

lemma record_parse_need_more_bound:
  assumes "record_parse data = Err (RecNeedMoreData n)"
  shows "0 < n" and "record_parse (data @ ext) = Ok r \<Longrightarrow> n \<le> length ext"
proof -
  have "0 < n \<and> (record_parse (data @ ext) = Ok r \<longrightarrow> n \<le> length ext)"
  proof (cases "length data < 5")
    case True
    then show ?thesis using assms record_parse_bounds [of "data @ ext" r]
      by (auto simp: record_parse_def record_encoded_len_def split: if_splits)
  next
    case False
    then obtain t a b x y rest where data: "data = t # a # b # x # y # rest" by (rule list_of_length_5)
    then have data': "data @ ext = t # a # b # x # y # (rest @ ext)" by simp
    show ?thesis using assms
      unfolding record_parse_def record_header_parse_eq [OF data] record_header_parse_eq [OF data']
      by (auto simp: data Let_def split: option.splits if_splits simp del: be_nat_pair be_nat_Cons)
  qed
  then show "0 < n" and "record_parse (data @ ext) = Ok r \<Longrightarrow> n \<le> length ext" by auto
qed

text \<open>
  When \<open>Record::parse\<close> asks for \<open>n\<close> more bytes, \<open>n\<close> is positive and no shorter continuation
  completes the record.
\<close>

theorem record_parse_need_more:
  assumes "record_parse data = Err (RecNeedMoreData n)"
  shows "0 < n \<and> (\<forall>ext r. record_parse (data @ ext) = Ok r \<longrightarrow> n \<le> length ext)"
  using record_parse_need_more_bound [OF assms] by blast

theorem record_parse_need_more_witness:
  "record_parse [0x17, 3, 1] = Err (RecNeedMoreData 2) \<and>
   (\<exists>r. record_parse ([0x17, 3, 1] @ [0, 1, 5]) = Ok r) \<and> 2 \<le> length [0, 1, 5 :: u8]"
proof -
  have "record_parse [0x17, 3, 1] = Err (RecNeedMoreData 2)" by (simp add: record_parse_def)
  moreover have "\<exists>r. record_parse ([0x17, 3, 1] @ [0, 1, 5]) = Ok r"
    by (simp add: record_parse_def record_header_parse_def content_type_try_from_def supported_version_def)
  ultimately show ?thesis using record_parse_need_more [of "[0x17, 3, 1]" 2] by blast
qed

end
