(* ===== verification/Codec_Hello.thy ===== *)
theory Codec_Hello
  imports Codec_Tls
begin

text \<open>
  The ClientHello message and its extensions: \<open>lib/vey-codec/src/tls/handshake/client_hello.rs\<close> and
  \<open>lib/vey-codec/src/tls/extension.rs\<close>. The parser of each length-prefixed field is compared with
  the bytes of that field, so that the whole message is characterised by its layout.
\<close>

section \<open>The ClientHello parser\<close>

datatype client_hello_parse_error =
    ChInvalidContentType u8
  | ChInvalidFragmentLength
  | ChInvalidMessageType u8
  | ChInvalidMessageLength
  | ChInvalidCipherSuitesLength
  | ChUnsupportedVersion raw_version

record client_hello =
  ch_legacy_version :: raw_version
  ch_cipher_suites :: bytes
  ch_compression_methods :: "bytes option"
  ch_extensions :: "bytes option"

text \<open>The \<open>ensure_min!\<close> macro, and one definition for each field of the message in order.\<close>

definition ensure_min :: "bytes \<Rightarrow> nat \<Rightarrow> (client_hello_parse_error, unit) rs" where
  "ensure_min buf m = (if length buf < m then Err ChInvalidMessageLength else Ok ())"

definition ch_parse_version :: "bytes \<Rightarrow> (client_hello_parse_error, raw_version) rs" where
  "ch_parse_version data =
     bnd (ensure_min data 2) (\<lambda>_.
     bnd (idx data 0) (\<lambda>b0.
     bnd (idx data 1) (\<lambda>b1.
     let legacy_version = \<lparr>rv_major = b0, rv_minor = b1\<rparr> in
     if supported_version b0 b1 then Ok legacy_version
     else Err (ChUnsupportedVersion legacy_version))))"

definition ch_parse_random :: "bytes \<Rightarrow> nat \<Rightarrow> (client_hello_parse_error, nat) rs" where
  "ch_parse_random data offset =
     bnd (slice_from data offset) (\<lambda>left.
     bnd (ensure_min left 32) (\<lambda>_. Ok (offset + 32)))"

definition ch_parse_session_id :: "bytes \<Rightarrow> nat \<Rightarrow> (client_hello_parse_error, nat) rs" where
  "ch_parse_session_id data offset =
     bnd (slice_from data offset) (\<lambda>left.
     if left = [] then Err ChInvalidMessageLength
     else
       bnd (idx left 0) (\<lambda>b.
       let session_id_len = unat b in
       bnd (ensure_min left (1 + session_id_len)) (\<lambda>_. Ok (offset + (1 + session_id_len)))))"

definition ch_parse_cipher_suites :: "bytes \<Rightarrow> nat \<Rightarrow> (client_hello_parse_error, bytes \<times> nat) rs" where
  "ch_parse_cipher_suites data offset =
     bnd (slice_from data offset) (\<lambda>left.
     bnd (ensure_min left 2) (\<lambda>_.
     bnd (idx left 0) (\<lambda>b0.
     bnd (idx left 1) (\<lambda>b1.
     let cipher_suites_len = be_nat [b0, b1] in
     if cipher_suites_len = 0 \<or> cipher_suites_len AND 1 \<noteq> 0 then Err ChInvalidCipherSuitesLength
     else
       bnd (ensure_min left (2 + cipher_suites_len)) (\<lambda>_.
       let start = offset + 2; stop = start + cipher_suites_len in
       bnd (slice data start stop) (\<lambda>cipher_suites. Ok (cipher_suites, stop)))))))"

definition ch_parse_compression_methods ::
    "bytes \<Rightarrow> nat \<Rightarrow> (client_hello_parse_error, bytes option \<times> nat) rs" where
  "ch_parse_compression_methods data offset =
     bnd (slice_from data offset) (\<lambda>left.
     if left = [] then Err ChInvalidMessageLength
     else
       bnd (idx left 0) (\<lambda>b.
       let compression_methods_len = unat b in
       if 0 < compression_methods_len then
         bnd (ensure_min left (1 + compression_methods_len)) (\<lambda>_.
         let start = offset + 1; stop = start + compression_methods_len in
         bnd (slice data start stop) (\<lambda>methods. Ok (Some methods, stop)))
       else Ok (None, offset + 1)))"

definition ch_parse_extensions :: "bytes \<Rightarrow> nat \<Rightarrow> (client_hello_parse_error, bytes option) rs" where
  "ch_parse_extensions data offset =
     (if length data \<le> offset then Ok None
      else
        bnd (slice_from data offset) (\<lambda>left.
        bnd (ensure_min left 2) (\<lambda>_.
        bnd (idx left 0) (\<lambda>b0.
        bnd (idx left 1) (\<lambda>b1.
        let extensions_len = be_nat [b0, b1] in
        bnd (if 0 < extensions_len then
               bnd (ensure_min left (2 + extensions_len)) (\<lambda>_.
               let start = offset + 2; stop = start + extensions_len in
               bnd (slice data start stop) (\<lambda>extensions. Ok (Some extensions, stop)))
             else Ok (None, offset + 2)) (\<lambda>(extensions, offset).
        if offset < length data then Err ChInvalidMessageLength else Ok extensions))))))"

definition client_hello_parse_msg_data :: "bytes \<Rightarrow> (client_hello_parse_error, client_hello) rs" where
  "client_hello_parse_msg_data data =
     bnd (ch_parse_version data) (\<lambda>legacy_version.
     bnd (ch_parse_random data 2) (\<lambda>offset.
     bnd (ch_parse_session_id data offset) (\<lambda>offset.
     bnd (ch_parse_cipher_suites data offset) (\<lambda>(cipher_suites, offset).
     bnd (ch_parse_compression_methods data offset) (\<lambda>(compression_methods, offset).
     bnd (ch_parse_extensions data offset) (\<lambda>extensions.
     Ok \<lparr>ch_legacy_version = legacy_version, ch_cipher_suites = cipher_suites,
         ch_compression_methods = compression_methods, ch_extensions = extensions\<rparr>))))))"

definition client_hello_parse_fragment ::
    "handshake_header \<Rightarrow> bytes \<Rightarrow> (client_hello_parse_error, client_hello) rs" where
  "client_hello_parse_fragment header data =
     (if hh_msg_type header \<noteq> 1 then Err (ChInvalidMessageType (hh_msg_type header))
      else
        let encoded_len = handshake_header_encoded_len header in
        if length data < encoded_len then Err ChInvalidMessageLength
        else bnd (slice data 4 encoded_len) client_hello_parse_msg_data)"

definition handshake_parse_client_hello ::
    "handshake_message \<Rightarrow> (client_hello_parse_error, client_hello) rs" where
  "handshake_parse_client_hello m = client_hello_parse_fragment (hm_header m) (hm_msg_data m)"

definition coalescer_parse_client_hello ::
    "handshake_coalescer \<Rightarrow> (client_hello_parse_error, client_hello option) rs" where
  "coalescer_parse_client_hello c =
     (case hc_header c of None \<Rightarrow> Ok None
      | Some hdr \<Rightarrow>
          if hh_msg_type hdr \<noteq> 1 then Err (ChInvalidMessageType (hh_msg_type hdr))
          else if handshake_header_encoded_len hdr = length (hc_buf c) then
            bnd (slice_from (hc_buf c) 4) (\<lambda>msg.
            bnd (client_hello_parse_msg_data msg) (\<lambda>ch. Ok (Some ch)))
          else Ok None)"

section \<open>The layout of a ClientHello\<close>

text \<open>Vectors with a one-byte and a two-byte length, and what the parser keeps of a possibly empty one.\<close>

definition vec8 :: "bytes \<Rightarrow> bytes" where
  "vec8 x = of_nat (length x) # x"

definition vec16 :: "bytes \<Rightarrow> bytes" where
  "vec16 x = be_bytes 2 (length x) @ x"

definition nonempty :: "bytes \<Rightarrow> bytes option" where
  "nonempty x = (if x = [] then None else Some x)"

definition client_hello_bytes ::
    "raw_version \<Rightarrow> bytes \<Rightarrow> bytes \<Rightarrow> bytes \<Rightarrow> bytes \<Rightarrow> bytes option \<Rightarrow> bytes" where
  "client_hello_bytes v random sid suites methods exts =
     [rv_major v, rv_minor v] @ random @ vec8 sid @ vec16 suites @ vec8 methods @
     (case exts of None \<Rightarrow> [] | Some e \<Rightarrow> vec16 e)"

lemma vec8_length [simp]: "length (vec8 x) = 1 + length x" "vec8 x \<noteq> []"
  by (simp_all add: vec8_def)

lemma vec16_length [simp]: "length (vec16 x) = 2 + length x" "vec16 x \<noteq> []"
  by (auto simp: vec16_def numeral_2_eq_2)

lemma vec8_nth: "length x < 256 \<Longrightarrow> unat ((vec8 x @ r) ! 0) = length x"
  by (simp add: vec8_def unsigned_of_nat take_bit_eq_mod)

lemma vec16_bytesE:
  assumes "length x < 2 ^ 16"
  obtains a b where "vec16 x = a # b # x" and "unat a * 256 + unat b = length x"
    and "x = [] \<longleftrightarrow> unat a = 0 \<and> unat b = 0"
proof -
  obtain a b where ab: "be_bytes 2 (length x) = [a, b]" by (simp add: be_bytes_pair)
  then have n: "unat a * 256 + unat b = length x" using be_nat_be_bytes [of 2 "length x"] assms by simp
  then have "x = [] \<longleftrightarrow> unat a = 0 \<and> unat b = 0" by (auto simp flip: length_0_conv)
  then show thesis using that ab n by (simp add: vec16_def)
qed

lemma vec_drop [simp]: "drop (Suc 0) (vec8 x) = x" "drop 2 (vec16 x) = x"
  by (simp_all add: vec8_def vec16_def)

lemma vec8_ofE:
  assumes "l \<noteq> []" and "1 + unat (l ! 0) \<le> length l"
  obtains x r where "l = vec8 x @ r" and "length x < 256" and "unat (l ! 0) = length x"
proof -
  obtain b t where l: "l = b # t" using assms(1) by (cases l) auto
  then show thesis using that [of "take (unat b) t" "drop (unat b) t"] assms(2)
    by (simp add: vec8_def)
qed

lemma vec16_ofE:
  assumes "2 + be_nat [l ! 0, l ! 1] \<le> length l"
  obtains x r where "l = vec16 x @ r" and "length x < 2 ^ 16" and "be_nat [l ! 0, l ! 1] = length x"
proof -
  have "Suc (Suc 0) \<le> length l" using assms by simp
  then obtain a b t where l: "l = a # b # t" unfolding Suc_le_length_iff by blast
  let ?n = "be_nat [a, b]"
  have "be_bytes 2 ?n = [a, b]" using be_bytes_be_nat [of "[a, b]"] by (simp only: list.size numeral_2_eq_2 One_nat_def) simp
  moreover have "?n < 2 ^ 16" using be_nat_bound [of "[a, b]"] by simp
  ultimately show thesis using that [of "take ?n t" "drop ?n t"] assms
    by (simp add: vec16_def l min_def del: be_nat_pair be_nat_Cons)
qed

lemma ensure_min_Ok_iff [rs_iff]: "ensure_min buf m = Ok u \<longleftrightarrow> m \<le> length buf"
  by (auto simp: ensure_min_def)

lemma ensure_min_not_Panic [simp]: "ensure_min buf m \<noteq> Panic"
  by (simp add: ensure_min_def)

lemma ch_parse_session_id_Ok_iff:
  "ch_parse_session_id (pre @ l) (length pre) = Ok off \<longleftrightarrow>
    (\<exists>x r. l = vec8 x @ r \<and> length x < 256 \<and> off = length (pre @ vec8 x))" (is "?parse \<longleftrightarrow> ?layout")
proof
  assume ?parse
  then have "l \<noteq> []" "1 + unat (l ! 0) \<le> length l" "off = length pre + (1 + unat (l ! 0))"
    by (auto simp: ch_parse_session_id_def Let_def rs_iff split: if_splits)
  then show ?layout by (metis vec8_ofE length_append vec8_length(1))
next
  assume ?layout
  then show ?parse by (auto simp: ch_parse_session_id_def vec8_nth ensure_min_def)
qed

lemma ch_parse_cipher_suites_Ok_iff:
  "ch_parse_cipher_suites (pre @ l) (length pre) = Ok (x, off) \<longleftrightarrow>
    (\<exists>r. l = vec16 x @ r \<and> length x < 2 ^ 16 \<and> x \<noteq> [] \<and> even (length x) \<and> off = length (pre @ vec16 x))"
  (is "?parse \<longleftrightarrow> ?layout")
proof
  assume ?parse
  then have l: "2 + be_nat [l ! 0, l ! 1] \<le> length l" "be_nat [l ! 0, l ! 1] \<noteq> 0"
      "even (be_nat [l ! 0, l ! 1])" "off = length pre + 2 + be_nat [l ! 0, l ! 1]"
      "x = take (be_nat [l ! 0, l ! 1]) (drop 2 l)"
    by (auto simp: ch_parse_cipher_suites_def Let_def rs_iff and_one_eq even_iff_mod_2_eq_zero
      split: if_splits simp del: be_nat_pair be_nat_Cons)
  obtain y r where y: "l = vec16 y @ r" "length y < 2 ^ 16" "be_nat [l ! 0, l ! 1] = length y"
    using l(1) by (rule vec16_ofE)
  have "x = y" using l(5) unfolding y(3) by (simp add: y(1))
  then show ?layout using l(2,3,4) y(1,2) unfolding y(3) by auto
next
  assume ?layout
  then obtain r where l: "l = vec16 x @ r" and x: "length x < 2 ^ 16" "x \<noteq> []" "even (length x)"
    and off: "off = length (pre @ vec16 x)" by blast
  obtain a b where ab: "vec16 x = a # b # x" "unat a * 256 + unat b = length x"
      "x = [] \<longleftrightarrow> unat a = 0 \<and> unat b = 0"
    using x(1) by (rule vec16_bytesE)
  have "length x AND 1 = 0" using x(3) by (simp only: and_one_eq even_iff_mod_2_eq_zero)
  then show ?parse
    using x(2) off ab(3) by (auto simp: ch_parse_cipher_suites_def ensure_min_def l ab(1,2) Let_def)
qed

lemma ch_parse_compression_methods_Ok_iff:
  "ch_parse_compression_methods (pre @ l) (length pre) = Ok (m, off) \<longleftrightarrow>
    (\<exists>x r. l = vec8 x @ r \<and> length x < 256 \<and> m = nonempty x \<and> off = length (pre @ vec8 x))"
  (is "?parse \<longleftrightarrow> ?layout")
proof
  assume ?parse
  then have l: "l \<noteq> []" "1 + unat (l ! 0) \<le> length l" "off = length pre + (1 + unat (l ! 0))"
      "m = nonempty (take (unat (l ! 0)) (drop 1 l))"
    by (auto simp: ch_parse_compression_methods_def Let_def rs_iff nonempty_def Suc_le_eq split: if_splits)
  obtain x r where x: "l = vec8 x @ r" "length x < 256" "unat (l ! 0) = length x"
    using l(1,2) by (rule vec8_ofE)
  have "m = nonempty x" using l(4) unfolding x(3) by (simp add: x(1))
  then show ?layout using l(3) x(1,2) unfolding x(3) by auto
next
  assume ?layout
  then show ?parse
    by (auto simp: ch_parse_compression_methods_def Let_def vec8_nth ensure_min_def nonempty_def)
qed

lemma ch_parse_extensions_Ok_iff:
  "ch_parse_extensions (pre @ l) (length pre) = Ok m \<longleftrightarrow>
    l = [] \<and> m = None \<or> (\<exists>x. l = vec16 x \<and> length x < 2 ^ 16 \<and> m = nonempty x)"
  (is "?parse \<longleftrightarrow> ?layout")
proof
  assume parse: ?parse
  show ?layout
  proof (cases "l = []")
    case True
    then show ?thesis using parse by (simp add: ch_parse_extensions_def)
  next
    case False
    let ?n = "be_nat [l ! 0, l ! 1]"
    have l: "2 + ?n = length l" "m = nonempty (take ?n (drop 2 l))"
      using parse False
      by (auto simp: ch_parse_extensions_def Let_def rs_iff nonempty_def split: if_splits
        simp del: be_nat_pair be_nat_Cons)
    obtain x r where x: "l = vec16 x @ r" "length x < 2 ^ 16" "?n = length x"
      by (rule vec16_ofE [of l]) (use l(1) in simp_all)
    have "r = []" using l(1) unfolding x(3) by (simp add: x(1))
    moreover have "m = nonempty x" using l(2) unfolding x(3) by (simp add: x(1))
    ultimately show ?thesis using x(1,2) by auto
  qed
next
  assume ?layout
  then show ?parse
  proof (elim disjE exE conjE)
    fix x assume x: "l = vec16 x" "length x < 2 ^ 16" "m = nonempty x"
    obtain a b where "vec16 x = a # b # x" "unat a * 256 + unat b = length x"
        "x = [] \<longleftrightarrow> unat a = 0 \<and> unat b = 0"
      using x(2) by (rule vec16_bytesE)
    then show ?parse using x
      by (auto simp: ch_parse_extensions_def ensure_min_def nonempty_def)
  qed (simp add: ch_parse_extensions_def)
qed

lemma ch_parse_version_Ok_iff:
  "ch_parse_version data = Ok v \<longleftrightarrow>
    (\<exists>r. data = [rv_major v, rv_minor v] @ r \<and> supported_version (rv_major v) (rv_minor v))"
proof -
  have "data = a # b # r \<Longrightarrow> ?thesis" for a b r
    by (cases v) (auto simp: ch_parse_version_def ensure_min_def Let_def)
  moreover have "length data < 2 \<Longrightarrow> ?thesis"
    by (auto simp: ch_parse_version_def ensure_min_def)
  ultimately show ?thesis by (metis One_nat_def Suc_1 Suc_leI Suc_le_length_iff not_less)
qed

lemma ch_parse_random_Ok_iff:
  "ch_parse_random (pre @ l) (length pre) = Ok off \<longleftrightarrow>
    (\<exists>x r. l = x @ r \<and> length x = 32 \<and> off = length (pre @ x))"
proof -
  have "32 \<le> length l \<longleftrightarrow> (\<exists>x r. l = x @ r \<and> length x = 32)"
    by (metis append_take_drop_id length_append length_take le_add1 min_absorb2)
  then show ?thesis by (auto simp: ch_parse_random_def ensure_min_def)
qed

definition client_hello_layout :: "bytes \<Rightarrow> client_hello \<Rightarrow> bool" where
  "client_hello_layout data ch \<longleftrightarrow>
     (\<exists>random sid methods exts.
        data = client_hello_bytes (ch_legacy_version ch) random sid (ch_cipher_suites ch) methods exts \<and>
        supported_version (rv_major (ch_legacy_version ch)) (rv_minor (ch_legacy_version ch)) \<and>
        length random = 32 \<and> length sid < 256 \<and>
        length (ch_cipher_suites ch) < 2 ^ 16 \<and> ch_cipher_suites ch \<noteq> [] \<and> even (length (ch_cipher_suites ch)) \<and>
        length methods < 256 \<and> ch_compression_methods ch = nonempty methods \<and>
        (case exts of None \<Rightarrow> ch_extensions ch = None
         | Some e \<Rightarrow> length e < 2 ^ 16 \<and> ch_extensions ch = nonempty e))"

lemma client_hello_parse_layout:
  assumes "client_hello_parse_msg_data data = Ok ch"
  shows "client_hello_layout data ch"
proof -
  obtain o1 o2 o3 o4 where steps: "ch_parse_version data = Ok (ch_legacy_version ch)"
      "ch_parse_random data 2 = Ok o1" "ch_parse_session_id data o1 = Ok o2"
      "ch_parse_cipher_suites data o2 = Ok (ch_cipher_suites ch, o3)"
      "ch_parse_compression_methods data o3 = Ok (ch_compression_methods ch, o4)"
      "ch_parse_extensions data o4 = Ok (ch_extensions ch)"
    using assms by (auto simp: client_hello_parse_msg_data_def rs_iff split: prod.splits)
  define v where "v = [rv_major (ch_legacy_version ch), rv_minor (ch_legacy_version ch)]"
  have two: "(2 :: nat) = length v" by (simp add: v_def)
  obtain l0 where 0: "data = v @ l0" and v: "supported_version (rv_major (ch_legacy_version ch)) (rv_minor (ch_legacy_version ch))"
    using steps(1) unfolding ch_parse_version_Ok_iff v_def by blast
  obtain random l1 where 1: "l0 = random @ l1" "length random = 32" "o1 = length (v @ random)"
    using steps(2) unfolding 0 two ch_parse_random_Ok_iff by blast
  have d1: "data = (v @ random) @ l1" by (simp add: 0 1)
  obtain sid l2 where 2: "l1 = vec8 sid @ l2" "length sid < 256" "o2 = length ((v @ random) @ vec8 sid)"
    using steps(3) unfolding d1 1(3) ch_parse_session_id_Ok_iff by blast
  have d2: "data = ((v @ random) @ vec8 sid) @ l2" by (simp add: d1 2)
  obtain l3 where 3: "l2 = vec16 (ch_cipher_suites ch) @ l3" "length (ch_cipher_suites ch) < 2 ^ 16"
      "ch_cipher_suites ch \<noteq> []" "even (length (ch_cipher_suites ch))"
      "o3 = length (((v @ random) @ vec8 sid) @ vec16 (ch_cipher_suites ch))"
    using steps(4) unfolding d2 2(3) ch_parse_cipher_suites_Ok_iff by blast
  have d3: "data = (((v @ random) @ vec8 sid) @ vec16 (ch_cipher_suites ch)) @ l3" by (simp add: d2 3)
  obtain methods l4 where 4: "l3 = vec8 methods @ l4" "length methods < 256"
      "ch_compression_methods ch = nonempty methods"
      "o4 = length ((((v @ random) @ vec8 sid) @ vec16 (ch_cipher_suites ch)) @ vec8 methods)"
    using steps(5) unfolding d3 3(5) ch_parse_compression_methods_Ok_iff by blast
  have d4: "data = ((((v @ random) @ vec8 sid) @ vec16 (ch_cipher_suites ch)) @ vec8 methods) @ l4"
    by (simp add: d3 4)
  have layout: "client_hello_layout data ch"
    if "l4 = (case exts of None \<Rightarrow> [] | Some e \<Rightarrow> vec16 e)"
      "case exts of None \<Rightarrow> ch_extensions ch = None | Some e \<Rightarrow> length e < 2 ^ 16 \<and> ch_extensions ch = nonempty e"
    for exts
    unfolding client_hello_layout_def client_hello_bytes_def
    by (intro exI [of _ random] exI [of _ sid] exI [of _ methods] exI [of _ exts] conjI)
      (use v 1(2) 2(2) 3(2-4) 4(2,3) d4 that in \<open>simp_all add: v_def\<close>)
  have "l4 = [] \<and> ch_extensions ch = None \<or>
      (\<exists>e. l4 = vec16 e \<and> length e < 2 ^ 16 \<and> ch_extensions ch = nonempty e)"
    using steps(6) unfolding d4 4(4) ch_parse_extensions_Ok_iff .
  then show ?thesis using layout [of None] layout [of "Some _"] by fastforce
qed

lemma client_hello_layout_parse:
  assumes "client_hello_layout data ch"
  shows "client_hello_parse_msg_data data = Ok ch"
proof -
  obtain random sid methods exts where data: "data = client_hello_bytes (ch_legacy_version ch) random sid
        (ch_cipher_suites ch) methods exts"
    and p: "supported_version (rv_major (ch_legacy_version ch)) (rv_minor (ch_legacy_version ch))"
      "length random = 32" "length sid < 256" "length (ch_cipher_suites ch) < 2 ^ 16"
      "ch_cipher_suites ch \<noteq> []" "even (length (ch_cipher_suites ch))" "length methods < 256"
      "ch_compression_methods ch = nonempty methods"
      "case exts of None \<Rightarrow> ch_extensions ch = None | Some e \<Rightarrow> length e < 2 ^ 16 \<and> ch_extensions ch = nonempty e"
    using assms unfolding client_hello_layout_def by blast
  define v where "v = [rv_major (ch_legacy_version ch), rv_minor (ch_legacy_version ch)]"
  define tl where "tl = (case exts of None \<Rightarrow> [] | Some e \<Rightarrow> vec16 e)"
  let ?s = "vec8 sid" and ?c = "vec16 (ch_cipher_suites ch)" and ?m = "vec8 methods"
  have two: "(2 :: nat) = length v" by (simp add: v_def)
  have d0: "data = v @ (random @ ?s @ ?c @ ?m @ tl)" by (simp add: data client_hello_bytes_def v_def tl_def)
  have d1: "data = (v @ random) @ (?s @ ?c @ ?m @ tl)" by (simp add: d0)
  have d2: "data = ((v @ random) @ ?s) @ (?c @ ?m @ tl)" by (simp add: d0)
  have d3: "data = (((v @ random) @ ?s) @ ?c) @ (?m @ tl)" by (simp add: d0)
  have d4: "data = ((((v @ random) @ ?s) @ ?c) @ ?m) @ tl" by (simp add: d0)
  have "ch_parse_version data = Ok (ch_legacy_version ch)"
    unfolding ch_parse_version_Ok_iff using d0 p(1) by (simp add: v_def)
  moreover have "ch_parse_random data 2 = Ok (length (v @ random))"
    unfolding d0 two ch_parse_random_Ok_iff using p(2) by blast
  moreover have "ch_parse_session_id data (length (v @ random)) = Ok (length ((v @ random) @ ?s))"
    unfolding d1 ch_parse_session_id_Ok_iff using p(3) by blast
  moreover have "ch_parse_cipher_suites data (length ((v @ random) @ ?s)) =
      Ok (ch_cipher_suites ch, length (((v @ random) @ ?s) @ ?c))"
    unfolding d2 ch_parse_cipher_suites_Ok_iff using p(4,5,6) by blast
  moreover have "ch_parse_compression_methods data (length (((v @ random) @ ?s) @ ?c)) =
      Ok (ch_compression_methods ch, length ((((v @ random) @ ?s) @ ?c) @ ?m))"
    unfolding d3 ch_parse_compression_methods_Ok_iff using p(7,8) by blast
  moreover have "ch_parse_extensions data (length ((((v @ random) @ ?s) @ ?c) @ ?m)) = Ok (ch_extensions ch)"
    unfolding d4 ch_parse_extensions_Ok_iff using p(9) by (auto simp: tl_def split: option.splits)
  ultimately show ?thesis by (simp add: client_hello_parse_msg_data_def del: length_append)
qed

lemmas ch_field_defs = ch_parse_version_def ch_parse_random_def ch_parse_session_id_def
  ch_parse_cipher_suites_def ch_parse_compression_methods_def ch_parse_extensions_def

lemma ch_fields_no_panic:
  "ch_parse_version data \<noteq> Panic"
  "off \<le> length data \<Longrightarrow> ch_parse_random data off \<noteq> Panic"
  "off \<le> length data \<Longrightarrow> ch_parse_session_id data off \<noteq> Panic"
  "off \<le> length data \<Longrightarrow> ch_parse_cipher_suites data off \<noteq> Panic"
  "off \<le> length data \<Longrightarrow> ch_parse_compression_methods data off \<noteq> Panic"
  "off \<le> length data \<Longrightarrow> ch_parse_extensions data off \<noteq> Panic"
  by (auto simp: ch_field_defs Let_def rs_iff split: if_splits simp del: be_nat_pair be_nat_Cons)

lemma ch_fields_offset:
  "ch_parse_random data off = Ok off' \<Longrightarrow> off' \<le> length data"
  "ch_parse_session_id data off = Ok off' \<Longrightarrow> off' \<le> length data"
  "ch_parse_cipher_suites data off = Ok (x, off') \<Longrightarrow> off' \<le> length data"
  "ch_parse_compression_methods data off = Ok (y, off') \<Longrightarrow> off' \<le> length data"
  by (auto simp: ch_field_defs Let_def rs_iff split: if_splits simp del: be_nat_pair be_nat_Cons)

lemma client_hello_parse_no_panic: "client_hello_parse_msg_data data \<noteq> Panic"
proof
  assume "client_hello_parse_msg_data data = Panic"
  moreover have "2 \<le> length data" if "ch_parse_version data = Ok v" for v
    using that by (auto simp: ch_parse_version_def rs_iff)
  ultimately show False
    unfolding client_hello_parse_msg_data_def
    by (auto simp: bnd_Panic_iff ch_fields_no_panic dest: ch_fields_offset split: prod.splits)
qed


section \<open>Whole and fragmented ClientHello messages\<close>

lemma handshake_header_length:
  "handshake_header_try_parse s = Some h \<Longrightarrow> 4 \<le> length s"
  using handshake_header_None_iff [of s] by simp

lemma parse_whole_eq_coalesced:
  assumes "handshake_try_parse_fragment s = Some msg" and "hh_msg_length (hm_header msg) \<le> m"
    and "coalesced m s = Ok c"
  shows "coalescer_parse_client_hello c = map_ok Some (handshake_parse_client_hello msg)"
proof -
  obtain h where h: "handshake_header_try_parse s = Some h" "handshake_header_encoded_len h \<le> length s"
    and msg: "msg = \<lparr>hm_header = h, hm_msg_data = take (handshake_header_encoded_len h) s\<rparr>"
    using assms(1) by (auto simp: handshake_try_parse_fragment_def Let_def split: option.splits if_splits)
  let ?e = "handshake_header_encoded_len h"
  have c: "hc_header c = Some h" "hc_buf c = take ?e s"
    using assms(2,3) h by (auto simp: coalesced_def msg)
  have e: "4 \<le> ?e" by (simp add: handshake_header_encoded_len_def)
  have mo: "bnd m (\<lambda>x. Ok (Some x)) = map_ok Some m" for m :: "(client_hello_parse_error, client_hello) rs"
    by (cases m) auto
  show ?thesis using h(2) e
    by (simp add: coalescer_parse_client_hello_def handshake_parse_client_hello_def msg c mo
      client_hello_parse_fragment_def take_drop min_def)
qed



section \<open>Extensions\<close>

datatype extension_type =
    ExServerName | ExMaxFragmentLength | ExStatusRequest | ExSupportedGroups | ExSignatureAlgorithms
  | ExUseSrtp | ExHeartbeat | ExApplicationLayerProtocolNegotiation | ExSignedCertificateTimestamp
  | ExClientCertificateType | ExServerCertificateType | ExPadding | ExPreSharedKey | ExEarlyData
  | ExSupportedVersions | ExCookie | ExPskKeyExchangeModes | ExCertificateAuthorities | ExOidFilters
  | ExPostHandshakeAuth | ExSignatureAlgorithmsCert | ExKeyShare | ExUnknown nat

definition extension_type_from :: "nat \<Rightarrow> extension_type" where
  "extension_type_from value =
     (if value = 0 then ExServerName
      else if value = 1 then ExMaxFragmentLength
      else if value = 5 then ExStatusRequest
      else if value = 10 then ExSupportedGroups
      else if value = 13 then ExSignatureAlgorithms
      else if value = 14 then ExUseSrtp
      else if value = 15 then ExHeartbeat
      else if value = 16 then ExApplicationLayerProtocolNegotiation
      else if value = 18 then ExSignedCertificateTimestamp
      else if value = 19 then ExClientCertificateType
      else if value = 20 then ExServerCertificateType
      else if value = 21 then ExPadding
      else if value = 41 then ExPreSharedKey
      else if value = 42 then ExEarlyData
      else if value = 43 then ExSupportedVersions
      else if value = 44 then ExCookie
      else if value = 45 then ExPskKeyExchangeModes
      else if value = 47 then ExCertificateAuthorities
      else if value = 48 then ExOidFilters
      else if value = 49 then ExPostHandshakeAuth
      else if value = 50 then ExSignatureAlgorithmsCert
      else if value = 51 then ExKeyShare
      else ExUnknown value)"

datatype extension_parse_error = ExpNotEnoughData | ExpInvalidLength

record extension =
  ext_type :: extension_type
  ext_len :: nat
  ext_data :: "bytes option"

definition extension_parse :: "bytes \<Rightarrow> (extension_parse_error, extension) rs" where
  "extension_parse data =
     (if length data < 4 then Err ExpNotEnoughData
      else
        bnd (idx data 0) (\<lambda>b0. bnd (idx data 1) (\<lambda>b1.
        bnd (idx data 2) (\<lambda>b2. bnd (idx data 3) (\<lambda>b3.
        let ty = be_nat [b0, b1]; len = be_nat [b2, b3] in
        if len = 0 then
          Ok \<lparr>ext_type = extension_type_from ty, ext_len = len, ext_data = None\<rparr>
        else
          let start = 4; stop = start + len in
          if length data < stop then Err ExpInvalidLength
          else
            bnd (slice data start stop) (\<lambda>d.
            Ok \<lparr>ext_type = extension_type_from ty, ext_len = len, ext_data = Some d\<rparr>))))))"

lemma extension_parse_fits:
  "extension_parse data = Ok ext \<Longrightarrow> 4 + ext_len ext \<le> length data"
  by (auto simp: extension_parse_def Let_def rs_iff split: if_splits simp del: be_nat_pair be_nat_Cons)

lemma extension_parse_not_Panic [simp]: "extension_parse data \<noteq> Panic"
  by (auto simp: extension_parse_def Let_def rs_iff split: if_splits simp del: be_nat_pair be_nat_Cons)

function get_ext_loop :: "bytes \<Rightarrow> extension_type \<Rightarrow> nat \<Rightarrow> (extension_parse_error, bytes option) rs" where
  "get_ext_loop full_data ty offset =
     (if offset < length full_data then
        bnd (slice_from full_data offset) (\<lambda>left.
        bnd (extension_parse left) (\<lambda>ext.
        if ext_type ext = ty then Ok (ext_data ext)
        else get_ext_loop full_data ty (offset + (4 + ext_len ext))))
      else Ok None)"
  by pat_completeness auto
termination
  by (relation "measure (\<lambda>(data, ty, offset). length data - offset)") auto

declare get_ext_loop.simps [simp del]

definition extension_list_get_ext :: "bytes \<Rightarrow> extension_type \<Rightarrow> (extension_parse_error, bytes option) rs" where
  "extension_list_get_ext full_data ty = get_ext_loop full_data ty 0"

definition client_hello_get_ext ::
    "client_hello \<Rightarrow> extension_type \<Rightarrow> (extension_parse_error, bytes option) rs" where
  "client_hello_get_ext ch ty =
     (case ch_extensions ch of None \<Rightarrow> Ok None | Some data \<Rightarrow> extension_list_get_ext data ty)"

record extension_iter =
  ei_data :: bytes
  ei_offset :: nat

definition extension_iter_new :: "bytes \<Rightarrow> extension_iter" where
  "extension_iter_new data = \<lparr>ei_data = data, ei_offset = 0\<rparr>"

definition client_hello_ext_iter :: "client_hello \<Rightarrow> extension_iter" where
  "client_hello_ext_iter ch =
     (case ch_extensions ch of Some data \<Rightarrow> extension_iter_new data | None \<Rightarrow> extension_iter_new [])"

definition extension_iter_next ::
    "extension_iter \<Rightarrow> extension_iter \<times> (extension_parse_error, extension) rs option" where
  "extension_iter_next it =
     (if ei_offset it < length (ei_data it) then
        (case extension_parse (drop (ei_offset it) (ei_data it)) of
           Ok ext \<Rightarrow> (it\<lparr>ei_offset := ei_offset it + (4 + ext_len ext)\<rparr>, Some (Ok ext))
         | Err e \<Rightarrow> (it\<lparr>ei_offset := length (ei_data it)\<rparr>, Some (Err e))
         | Panic \<Rightarrow> (it, Some Panic))
      else (it, None))"

text \<open>What a \<open>for\<close> loop or a \<open>collect()\<close> over the iterator sees.\<close>

function extension_iter_collect :: "extension_iter \<Rightarrow> (extension_parse_error, extension) rs list" where
  "extension_iter_collect it =
     (case extension_iter_next it of
        (it', Some x) \<Rightarrow> x # extension_iter_collect it'
      | (it', None) \<Rightarrow> [])"
  by pat_completeness auto
termination
  by (relation "measure (\<lambda>it. length (ei_data it) - ei_offset it)")
    (auto simp: extension_iter_next_def split: if_splits rs.splits)

declare extension_iter_collect.simps [simp del]

text \<open>The extensions at the front of a block, and the error behind them if the block is malformed.\<close>

function ext_items :: "bytes \<Rightarrow> extension list \<times> extension_parse_error option" where
  "ext_items data =
     (if data = [] then ([], None)
      else case extension_parse data of
        Ok ext \<Rightarrow> (case ext_items (drop (4 + ext_len ext) data) of (xs, e) \<Rightarrow> (ext # xs, e))
      | Err e \<Rightarrow> ([], Some e)
      | Panic \<Rightarrow> ([], None))"
  by pat_completeness auto
termination
  by (relation "measure length") auto

declare ext_items.simps [simp del]

lemma ext_items_Nil [simp]: "ext_items [] = ([], None)"
  by (simp add: ext_items.simps)

lemma ext_items_Ok:
  "extension_parse data = Ok ext \<Longrightarrow>
    ext_items data = (ext # fst (ext_items (drop (4 + ext_len ext) data)), snd (ext_items (drop (4 + ext_len ext) data)))"
  using extension_parse_fits [of data ext] by (subst ext_items.simps) (auto split: prod.splits)

lemma ext_items_Err: "data \<noteq> [] \<Longrightarrow> extension_parse data = Err e \<Longrightarrow> ext_items data = ([], Some e)"
  by (subst ext_items.simps) simp

lemma get_ext_loop_items:
  "get_ext_loop data ty off =
    (case find (\<lambda>x. ext_type x = ty) (fst (ext_items (drop off data))) of
       Some x \<Rightarrow> Ok (ext_data x)
     | None \<Rightarrow> (case snd (ext_items (drop off data)) of None \<Rightarrow> Ok None | Some e \<Rightarrow> Err e))"
proof (induction "length data - off" arbitrary: off rule: less_induct)
  case less
  show ?case
  proof (cases "off < length data")
    case True
    show ?thesis
    proof (cases "extension_parse (drop off data)")
      case (Ok ext)
      then show ?thesis using True less [of "off + (4 + ext_len ext)"]
        by (subst get_ext_loop.simps) (simp add: ext_items_Ok add.commute add.left_commute cong: option.case_cong)
    next
      case (Err e)
      then show ?thesis using True by (subst get_ext_loop.simps) (simp add: ext_items_Err)
    qed simp
  qed (simp add: get_ext_loop.simps)
qed

lemma extension_iter_collect_items:
  "extension_iter_collect \<lparr>ei_data = data, ei_offset = off\<rparr> =
    map Ok (fst (ext_items (drop off data))) @
    (case snd (ext_items (drop off data)) of None \<Rightarrow> [] | Some e \<Rightarrow> [Err e])"
proof (induction "length data - off" arbitrary: off rule: less_induct)
  case less
  show ?case
  proof (cases "off < length data")
    case True
    show ?thesis
    proof (cases "extension_parse (drop off data)")
      case (Ok ext)
      then show ?thesis using True less [of "off + (4 + ext_len ext)"]
        by (subst extension_iter_collect.simps)
          (simp add: extension_iter_next_def ext_items_Ok add.commute add.left_commute)
    next
      case (Err e)
      then show ?thesis using True
        by (subst extension_iter_collect.simps, subst extension_iter_collect.simps)
          (simp add: extension_iter_next_def ext_items_Err)
    qed simp
  qed (subst extension_iter_collect.simps, simp add: extension_iter_next_def)
qed

text \<open>The bytes of an extension block.\<close>

definition extension_bytes :: "nat \<times> bytes \<Rightarrow> bytes" where
  "extension_bytes x = be_bytes 2 (fst x) @ vec16 (snd x)"

definition extension_of :: "nat \<times> bytes \<Rightarrow> extension" where
  "extension_of x =
     \<lparr>ext_type = extension_type_from (fst x), ext_len = length (snd x), ext_data = nonempty (snd x)\<rparr>"

lemma extension_parse_bytes:
  assumes "fst x < 2 ^ 16" and "length (snd x) < 2 ^ 16"
  shows "extension_parse (extension_bytes x @ rest) = Ok (extension_of x)"
proof -
  obtain a b where ab: "be_bytes 2 (fst x) = [a, b]" "unat a * 256 + unat b = fst x"
    using be_nat_be_bytes [of 2 "fst x"] assms(1) by (simp add: be_bytes_pair)
  obtain c d where cd: "vec16 (snd x) = c # d # snd x" "unat c * 256 + unat d = length (snd x)"
      "snd x = [] \<longleftrightarrow> unat c = 0 \<and> unat d = 0"
    using assms(2) by (rule vec16_bytesE)
  show ?thesis using ab(2) cd(2,3)
    by (auto simp: extension_parse_def extension_bytes_def extension_of_def ab(1) cd(1) Let_def nonempty_def)
qed

lemma ext_items_bytes:
  assumes "\<And>x. x \<in> set xs \<Longrightarrow> fst x < 2 ^ 16 \<and> length (snd x) < 2 ^ 16"
  shows "ext_items (concat (map extension_bytes xs)) = (map extension_of xs, None)"
  using assms
proof (induction xs)
  case (Cons x xs)
  have "extension_parse (extension_bytes x @ concat (map extension_bytes xs)) = Ok (extension_of x)"
    using Cons.prems [of x] by (intro extension_parse_bytes) auto
  moreover have "drop (4 + ext_len (extension_of x)) (extension_bytes x @ concat (map extension_bytes xs)) =
      concat (map extension_bytes xs)"
    by (simp add: extension_bytes_def extension_of_def)
  ultimately show ?case using Cons by (simp add: ext_items_Ok)
qed simp

text \<open>
  C21: the extensions of a hello are found. On a well-formed extension block the iterator yields every
  extension in order and ends, and \<open>get_ext\<close> returns the data of the first extension of the type asked
  for (\<open>None\<close> for an empty one). On any block at all, both terminate without panic, the iterator ends
  after its first error, and \<open>get_ext\<close> agrees with a search of what the iterator yields.
\<close>

theorem extension_block_lookup:
  "(\<exists>items err. extension_iter_collect (extension_iter_new data) =
      map Ok items @ (case err of None \<Rightarrow> [] | Some e \<Rightarrow> [Err e]) \<and>
    extension_list_get_ext data ty =
      (case find (\<lambda>x. ext_type x = ty) items of Some x \<Rightarrow> Ok (ext_data x)
       | None \<Rightarrow> (case err of None \<Rightarrow> Ok None | Some e \<Rightarrow> Err e))) \<and>
   ((\<forall>x \<in> set xs. fst x < 2 ^ 16 \<and> length (snd x) < 2 ^ 16) \<longrightarrow>
    extension_iter_collect (extension_iter_new (concat (map extension_bytes xs))) = map (Ok \<circ> extension_of) xs \<and>
    extension_list_get_ext (concat (map extension_bytes xs)) ty =
      Ok (case find (\<lambda>x. extension_type_from (fst x) = ty) xs of None \<Rightarrow> None | Some x \<Rightarrow> nonempty (snd x)))"
proof (intro conjI impI)
  note defs = extension_iter_new_def extension_iter_collect_items extension_list_get_ext_def get_ext_loop_items
  show "\<exists>items err. extension_iter_collect (extension_iter_new data) =
      map Ok items @ (case err of None \<Rightarrow> [] | Some e \<Rightarrow> [Err e]) \<and>
    extension_list_get_ext data ty =
      (case find (\<lambda>x. ext_type x = ty) items of Some x \<Rightarrow> Ok (ext_data x)
       | None \<Rightarrow> (case err of None \<Rightarrow> Ok None | Some e \<Rightarrow> Err e))"
    by (rule exI [of _ "fst (ext_items data)"], rule exI [of _ "snd (ext_items data)"])
      (simp add: defs cong: option.case_cong)
  assume "\<forall>x \<in> set xs. fst x < 2 ^ 16 \<and> length (snd x) < 2 ^ 16"
  then have items: "ext_items (concat (map extension_bytes xs)) = (map extension_of xs, None)"
    by (intro ext_items_bytes) auto
  have "find (\<lambda>x. ext_type x = ty) (map extension_of xs) =
      map_option extension_of (find (\<lambda>x. extension_type_from (fst x) = ty) xs)"
    by (induction xs) (auto simp: extension_of_def)
  then show "extension_list_get_ext (concat (map extension_bytes xs)) ty =
      Ok (case find (\<lambda>x. extension_type_from (fst x) = ty) xs of None \<Rightarrow> None | Some x \<Rightarrow> nonempty (snd x))"
    by (auto simp: defs items extension_of_def split: option.splits)
  show "extension_iter_collect (extension_iter_new (concat (map extension_bytes xs))) = map (Ok \<circ> extension_of) xs"
    by (simp add: defs items)
qed

theorem extension_block_lookup_witness:
  "extension_list_get_ext (concat (map extension_bytes [(10, [1]), (0, [7, 8]), (0, [9])])) ExServerName =
    Ok (Some [7, 8])"
  using extension_block_lookup [of "[]" ExServerName "[(10, [1]), (0, [7, 8]), (0, [9])]"]
  by (simp add: extension_type_from_def nonempty_def)

end
