(* ===== verification/Quic_Coalescer.thy ===== *)
theory Quic_Coalescer
  imports Quic_Frame Codec_Hello
begin

text \<open>
  Reassembly of the TLS handshake from QUIC CRYPTO frames:
  \<open>lib/vey-codec/src/quic/message/handshake.rs\<close>. The coalescer is shown to rebuild the message from
  frames in any order, repeated or overlapping, against the set of stream positions received.
\<close>

section \<open>The coalescer\<close>

datatype fragment = Fragment (fr_offset: nat) (fr_length: nat)

text \<open>The \<open>Ord\<close> of \<open>Fragment\<close>: by offset, then by length.\<close>

instantiation fragment :: linorder
begin

definition less_eq_fragment :: "fragment \<Rightarrow> fragment \<Rightarrow> bool" where
  "less_eq_fragment f g \<longleftrightarrow>
     fr_offset f < fr_offset g \<or> fr_offset f = fr_offset g \<and> fr_length f \<le> fr_length g"

definition less_fragment :: "fragment \<Rightarrow> fragment \<Rightarrow> bool" where
  "less_fragment f g \<longleftrightarrow>
     fr_offset f < fr_offset g \<or> fr_offset f = fr_offset g \<and> fr_length f < fr_length g"

instance
  by standard (auto simp: less_eq_fragment_def less_fragment_def fragment.expand)

end

text \<open>The \<open>BTreeSet\<close> of fragments is its sorted list of elements.\<close>

record quic_coalescer =
  qc_max_message_size :: nat
  qc_header :: "handshake_header option"
  qc_buf :: bytes
  qc_unfilled_offset :: nat
  qc_expected_length :: nat
  qc_fragment_set :: "fragment list"

definition quic_coalescer_new :: "nat \<Rightarrow> quic_coalescer" where
  "quic_coalescer_new max_message_size =
     \<lparr>qc_max_message_size = max_message_size, qc_header = None, qc_buf = [],
      qc_unfilled_offset = 0, qc_expected_length = 0, qc_fragment_set = []\<rparr>"

definition quic_coalescer_finished :: "quic_coalescer \<Rightarrow> bool" where
  "quic_coalescer_finished c \<longleftrightarrow>
     0 < qc_expected_length c \<and> qc_expected_length c = qc_unfilled_offset c"

text \<open>\<open>BTreeSet::retain\<close> visits the fragments in ascending order; its closure moves \<open>unfilled_offset\<close>.\<close>

fun retain_fragments :: "nat \<Rightarrow> fragment list \<Rightarrow> nat \<times> fragment list" where
  "retain_fragments unfilled [] = (unfilled, [])"
| "retain_fragments unfilled (f # fs) =
     (if unfilled < fr_offset f then
        (case retain_fragments unfilled fs of (u, kept) \<Rightarrow> (u, f # kept))
      else
        let fragment_end = fr_offset f + fr_length f in
        retain_fragments (if unfilled < fragment_end then fragment_end else unfilled) fs)"

definition advance_unfilled :: "quic_coalescer \<Rightarrow> nat \<Rightarrow> quic_coalescer" where
  "advance_unfilled c stop =
     (if stop \<le> qc_unfilled_offset c then c
      else case retain_fragments stop (qc_fragment_set c) of
        (unfilled, kept) \<Rightarrow> c\<lparr>qc_unfilled_offset := unfilled, qc_fragment_set := kept\<rparr>)"

text \<open>\<open>Vec::resize(n, 0)\<close>.\<close>

definition resize :: "bytes \<Rightarrow> nat \<Rightarrow> bytes" where
  "resize xs n = take n xs @ replicate (n - length xs) 0"

definition capture_header :: "quic_coalescer \<Rightarrow> quic_coalescer \<times> (frame_parse_error, unit) rs" where
  "capture_header c =
     (if 0 < qc_expected_length c then (c, Ok ())
      else case slice (qc_buf c) 0 (qc_unfilled_offset c) of
        Ok filled \<Rightarrow>
          (case handshake_header_try_parse filled of
             None \<Rightarrow> (c, Ok ())
           | Some header \<Rightarrow>
               if qc_max_message_size c < hh_msg_length header
               then (c, Err (FpMalformedFrame ''too large message length for TLS handshake''))
               else
                 let msg_len = handshake_header_encoded_len header;
                     c = c\<lparr>qc_expected_length := msg_len, qc_header := Some header\<rparr>;
                     c = (if msg_len < qc_unfilled_offset c then c\<lparr>qc_unfilled_offset := msg_len\<rparr> else c)
                 in (c\<lparr>qc_buf := resize (qc_buf c) msg_len\<rparr>, Ok ()))
      | Err e \<Rightarrow> (c, Err e)
      | Panic \<Rightarrow> (c, Panic))"

definition recv_crypto :: "quic_coalescer \<Rightarrow> crypto_frame \<Rightarrow> quic_coalescer \<times> (frame_parse_error, unit) rs" where
  "recv_crypto c frame =
     (if 0 < qc_expected_length c \<and> qc_expected_length c < cf_stream_offset frame
      then (c, Err (FpMalformedFrame ''too big stream offset value in crypto frame''))
      else
        let taken = (if 0 < qc_expected_length c
                     then min (length (cf_data frame)) (qc_expected_length c - cf_stream_offset frame)
                     else length (cf_data frame)) in
        if taken = 0 then
          if qc_expected_length c = 0 \<and> qc_unfilled_offset c < cf_stream_offset frame
          then (c, Err (FpOutOfOrderFrame ''handshake header missing when receiving from crypto frame''))
          else (c, Ok ())
        else
          let offset = cf_stream_offset frame; data = take taken (cf_data frame); stop = offset + taken in
          if offset \<le> qc_unfilled_offset c then
            (case (if stop < length (qc_buf c) then copy_at (qc_buf c) offset data
                   else Ok (resize (qc_buf c) offset @ data)) of
               Ok buf \<Rightarrow> capture_header (advance_unfilled (c\<lparr>qc_buf := buf\<rparr>) stop)
             | Err e \<Rightarrow> (c, Err e)
             | Panic \<Rightarrow> (c, Panic))
          else if qc_expected_length c = 0
          then (c, Err (FpOutOfOrderFrame ''handshake header missing when receiving from crypto frame''))
          else
            (case copy_at (qc_buf c) offset data of
               Ok buf \<Rightarrow>
                 (c\<lparr>qc_buf := buf,
                    qc_fragment_set := insort_insert (Fragment offset taken) (qc_fragment_set c)\<rparr>, Ok ())
             | Err e \<Rightarrow> (c, Err e)
             | Panic \<Rightarrow> (c, Panic)))"

definition quic_parse_client_hello ::
    "quic_coalescer \<Rightarrow> (client_hello_parse_error, client_hello option) rs" where
  "quic_parse_client_hello c =
     (case qc_header c of None \<Rightarrow> Ok None
      | Some hdr \<Rightarrow>
          if hh_msg_type hdr \<noteq> 1 then Err (ChInvalidMessageType (hh_msg_type hdr))
          else if quic_coalescer_finished c then
            bnd (slice_from (qc_buf c) 4) (\<lambda>msg.
            bnd (client_hello_parse_msg_data msg) (\<lambda>ch. Ok (Some ch)))
          else Ok None)"

section \<open>The retain loop\<close>

definition covers :: "fragment list \<Rightarrow> nat set" where
  "covers fs = (\<Union>f \<in> set fs. {fr_offset f ..< fr_offset f + fr_length f})"

lemma covers_simps [simp]: "covers [] = {}"
    "covers (f # fs) = {fr_offset f ..< fr_offset f + fr_length f} \<union> covers fs"
  by (simp_all add: covers_def)

lemma retain_fragments_all: "\<forall>f \<in> set fs. u < fr_offset f \<Longrightarrow> retain_fragments u fs = (u, fs)"
  by (induction fs) auto

lemma sorted_offset: "sorted (f # fs) \<Longrightarrow> g \<in> set fs \<Longrightarrow> fr_offset f \<le> fr_offset g"
  by (auto simp: less_eq_fragment_def)

lemma retain_fragments_spec:
  assumes "retain_fragments u fs = (u', fs')" and "sorted fs"
  shows "u \<le> u'" and "sorted fs'" and "set fs' \<subseteq> set fs" and "\<forall>f \<in> set fs'. u' < fr_offset f"
    and "{0..<u} \<union> covers fs = {0..<u'} \<union> covers fs'"
    and "\<And>m. u \<le> m \<Longrightarrow> \<forall>f \<in> set fs. fr_offset f + fr_length f \<le> m \<Longrightarrow> u' \<le> m"
proof -
  have "u \<le> u' \<and> sorted fs' \<and> set fs' \<subseteq> set fs \<and> (\<forall>f \<in> set fs'. u' < fr_offset f) \<and>
      {0..<u} \<union> covers fs = {0..<u'} \<union> covers fs' \<and>
      (\<forall>m. u \<le> m \<longrightarrow> (\<forall>f \<in> set fs. fr_offset f + fr_length f \<le> m) \<longrightarrow> u' \<le> m)"
    using assms
  proof (induction u fs rule: retain_fragments.induct)
    case (1 u)
    then show ?case by simp
  next
    case (2 u f fs)
    show ?case
    proof (cases "u < fr_offset f")
      case True
      then have "\<forall>g \<in> set (f # fs). u < fr_offset g" using sorted_offset [OF 2(4)] by fastforce
      then show ?thesis using 2(3,4) retain_fragments_all [of "f # fs" u] by auto
    next
      case False
      let ?e = "fr_offset f + fr_length f"
      have mx: "(if u < ?e then ?e else u) = max u ?e" by auto
      have r: "retain_fragments (max u ?e) fs = (u', fs')" using 2(3) False by (simp add: Let_def mx)
      have IH: "max u ?e \<le> u'" "sorted fs'" "set fs' \<subseteq> set fs" "\<forall>f \<in> set fs'. u' < fr_offset f"
          "{0..<max u ?e} \<union> covers fs = {0..<u'} \<union> covers fs'"
          "\<forall>m. max u ?e \<le> m \<longrightarrow> (\<forall>f \<in> set fs. fr_offset f + fr_length f \<le> m) \<longrightarrow> u' \<le> m"
        using 2(2) [OF False refl, unfolded mx, OF r] 2(4) by simp_all
      have "{0..<u} \<union> {fr_offset f..<?e} = {0..<max u ?e}" using False by auto
      then have "{0..<u} \<union> covers (f # fs) = {0..<u'} \<union> covers fs'"
        using IH(5) by (simp add: Un_assoc [symmetric])
      then show ?thesis using IH by auto
    qed
  qed
  then show "u \<le> u'" and "sorted fs'" and "set fs' \<subseteq> set fs" and "\<forall>f \<in> set fs'. u' < fr_offset f"
    and "{0..<u} \<union> covers fs = {0..<u'} \<union> covers fs'"
    and "\<And>m. u \<le> m \<Longrightarrow> \<forall>f \<in> set fs. fr_offset f + fr_length f \<le> m \<Longrightarrow> u' \<le> m"
    by blast+
qed

section \<open>The shape of the state\<close>

text \<open>
  Before the header is known the buffer is the contiguous prefix of the stream; afterwards it has the
  length of the message and the fragments wait strictly behind the filled prefix.
\<close>

definition qc_inv :: "quic_coalescer \<Rightarrow> bool" where
  "qc_inv c \<longleftrightarrow>
     (if qc_expected_length c = 0
      then qc_header c = None \<and> length (qc_buf c) = qc_unfilled_offset c \<and> qc_fragment_set c = []
      else
        (\<exists>h. qc_header c = Some h \<and> qc_expected_length c = handshake_header_encoded_len h) \<and>
        length (qc_buf c) = qc_expected_length c \<and> qc_unfilled_offset c \<le> qc_expected_length c \<and>
        sorted (qc_fragment_set c) \<and>
        (\<forall>f \<in> set (qc_fragment_set c).
           qc_unfilled_offset c < fr_offset f \<and> fr_offset f + fr_length f \<le> qc_expected_length c))"

text \<open>The stream positions whose bytes the coalescer holds.\<close>

definition qc_filled :: "quic_coalescer \<Rightarrow> nat set" where
  "qc_filled c = {0..<qc_unfilled_offset c} \<union> covers (qc_fragment_set c)"

lemma qc_inv_new: "qc_inv (quic_coalescer_new m)" "qc_filled (quic_coalescer_new m) = {}"
  by (simp_all add: qc_inv_def qc_filled_def quic_coalescer_new_def)

definition write_at :: "bytes \<Rightarrow> nat \<Rightarrow> bytes \<Rightarrow> bytes" where
  "write_at buf off d = take off buf @ d @ drop (off + length d) buf"

lemma length_write_at: "off \<le> length buf \<Longrightarrow> length (write_at buf off d) = max (length buf) (off + length d)"
  by (auto simp: write_at_def)

lemma nth_write_at:
  assumes "off \<le> length buf" and "i < max (length buf) (off + length d)"
  shows "write_at buf off d ! i = (if i \<in> {off..<off + length d} then d ! (i - off) else buf ! i)"
  using assms by (auto simp: write_at_def nth_append min_def)

lemma advance_unfilled_known:
  assumes "qc_inv c" and "0 < qc_expected_length c" and "stop \<le> qc_expected_length c"
    and "off \<le> qc_unfilled_offset c" and "off \<le> stop"
  shows "qc_inv (advance_unfilled c stop)"
    and "qc_filled (advance_unfilled c stop) = qc_filled c \<union> {off..<stop}"
    and "qc_buf (advance_unfilled c stop) = qc_buf c"
    and "qc_expected_length (advance_unfilled c stop) = qc_expected_length c"
    and "qc_header (advance_unfilled c stop) = qc_header c"
proof -
  let ?c = "advance_unfilled c stop"
  have "qc_inv ?c \<and> qc_filled ?c = qc_filled c \<union> {off..<stop} \<and> qc_buf ?c = qc_buf c \<and>
      qc_expected_length ?c = qc_expected_length c \<and> qc_header ?c = qc_header c"
  proof (cases "stop \<le> qc_unfilled_offset c")
    case True
    then show ?thesis using assms by (auto simp: advance_unfilled_def qc_filled_def)
  next
    case False
    obtain u fs where r: "retain_fragments stop (qc_fragment_set c) = (u, fs)" by force
    have "sorted (qc_fragment_set c)" using assms by (simp add: qc_inv_def)
    note spec = retain_fragments_spec [OF r this]
    have "{0..<qc_unfilled_offset c} \<union> {off..<stop} = {0..<stop}" using False assms(4) by auto
    then have "qc_filled c \<union> {off..<stop} = {0..<stop} \<union> covers (qc_fragment_set c)"
      by (auto simp: qc_filled_def)
    moreover have "u \<le> qc_expected_length c" using spec(6) assms by (auto simp: qc_inv_def)
    ultimately show ?thesis using False r spec(2-5) assms
      by (auto simp: advance_unfilled_def qc_inv_def qc_filled_def)
  qed
  then show "qc_inv ?c" and "qc_filled ?c = qc_filled c \<union> {off..<stop}" and "qc_buf ?c = qc_buf c"
    and "qc_expected_length ?c = qc_expected_length c" and "qc_header ?c = qc_header c" by auto
qed

text \<open>The five ways \<open>recv_crypto\<close> can go, over a write at an offset of the buffer.\<close>

lemma write_filled:
  assumes "off \<le> length buf"
  shows "(if off + length d < length buf then copy_at buf off d else Ok (resize buf off @ d)) =
    Ok (write_at buf off d)"
  using assms by (auto simp: write_at_def resize_def)

definition frame_span :: "crypto_frame \<Rightarrow> nat set" where
  "frame_span f = {cf_stream_offset f ..< cf_stream_offset f + length (cf_data f)}"

lemma set_insort_insert_fragment: "covers (insort_insert f fs) = covers (f # fs)"
  by (auto simp: covers_def set_insort_insert)

lemma write_at_Nil: "write_at buf off [] = buf"
  by (simp add: write_at_def)

lemma copy_at_write: "off + length d \<le> length buf \<Longrightarrow> copy_at buf off d = Ok (write_at buf off d)"
  by (simp add: write_at_def)

text \<open>With the header known, a frame that starts inside the message is written and accounted for.\<close>

lemma recv_crypto_known:
  assumes inv: "qc_inv c" and E: "0 < qc_expected_length c" and off: "cf_stream_offset f \<le> qc_expected_length c"
  obtains c' where "recv_crypto c f = (c', Ok ())" and "qc_inv c'"
    and "qc_expected_length c' = qc_expected_length c" and "qc_header c' = qc_header c"
    and "qc_filled c' = qc_filled c \<union> (frame_span f \<inter> {0..<qc_expected_length c})"
    and "qc_buf c' = write_at (qc_buf c) (cf_stream_offset f)
      (take (qc_expected_length c - cf_stream_offset f) (cf_data f))"
proof -
  define n where "n = min (length (cf_data f)) (qc_expected_length c - cf_stream_offset f)"
  define d where "d = take n (cf_data f)"
  have d: "take (qc_expected_length c - cf_stream_offset f) (cf_data f) = d" "length d = n"
    by (auto simp: d_def n_def min_def)
  have stop: "cf_stream_offset f + n \<le> qc_expected_length c" using off by (simp add: n_def)
  have span: "frame_span f \<inter> {0..<qc_expected_length c} = {cf_stream_offset f ..< cf_stream_offset f + n}"
    using off by (auto simp: frame_span_def n_def)
  have len: "length (qc_buf c) = qc_expected_length c" using inv E by (simp add: qc_inv_def)
  note step = recv_crypto_def Let_def n_def [symmetric] d_def [symmetric]
  consider (none) "n = 0" | (fill) "0 < n" "cf_stream_offset f \<le> qc_unfilled_offset c"
    | (wait) "0 < n" "qc_unfilled_offset c < cf_stream_offset f" by linarith
  then show thesis
  proof cases
    case none
    then show thesis using that [of c] inv E off span d by (simp add: step write_at_Nil)
  next
    case fill
    let ?b = "write_at (qc_buf c) (cf_stream_offset f) d"
    let ?c = "c\<lparr>qc_buf := ?b\<rparr>"
    have "length ?b = qc_expected_length c"
      using len stop off d by (subst length_write_at) auto
    then have inv': "qc_inv ?c" using inv E by (simp add: qc_inv_def)
    note adv = advance_unfilled_known [of ?c "cf_stream_offset f + n" "cf_stream_offset f"]
    have "recv_crypto c f = capture_header (advance_unfilled ?c (cf_stream_offset f + n))"
      using fill E off write_filled [of "cf_stream_offset f" "qc_buf c" d, where ?'a = frame_parse_error] len d
      by (simp add: step)
    also have "\<dots> = (advance_unfilled ?c (cf_stream_offset f + n), Ok ())"
      using adv(4) inv' E stop fill by (simp add: capture_header_def)
    finally show thesis
      using that [of "advance_unfilled ?c (cf_stream_offset f + n)"] adv inv' E stop fill(2) span d
      by (simp add: qc_filled_def)
  next
    case wait
    let ?b = "write_at (qc_buf c) (cf_stream_offset f) d"
    let ?c = "c\<lparr>qc_buf := ?b, qc_fragment_set := insort_insert (Fragment (cf_stream_offset f) n) (qc_fragment_set c)\<rparr>"
    have "length ?b = qc_expected_length c"
      using len stop off d by (subst length_write_at) auto
    then have "qc_inv ?c" using inv E stop wait by (auto simp: qc_inv_def set_insort_insert sorted_insort_insert)
    moreover have "recv_crypto c f = (?c, Ok ())"
      using wait E off stop len d copy_at_write [of "cf_stream_offset f" d "qc_buf c", where ?'a = frame_parse_error]
      by (simp add: step)
    moreover have "qc_filled ?c = qc_filled c \<union> (frame_span f \<inter> {0..<qc_expected_length c})"
      unfolding span by (auto simp: qc_filled_def set_insort_insert_fragment)
    ultimately show thesis using that [of ?c] d by simp
  qed
qed

text \<open>Before the header is known, a frame extends the contiguous prefix or is refused.\<close>

lemma recv_crypto_unknown:
  assumes inv: "qc_inv c" and E: "qc_expected_length c = 0"
  shows "recv_crypto c f =
    (if qc_unfilled_offset c < cf_stream_offset f
     then (c, Err (FpOutOfOrderFrame ''handshake header missing when receiving from crypto frame''))
     else if cf_data f = [] then (c, Ok ())
     else capture_header (c\<lparr>qc_buf := write_at (qc_buf c) (cf_stream_offset f) (cf_data f),
       qc_unfilled_offset := max (qc_unfilled_offset c) (cf_stream_offset f + length (cf_data f))\<rparr>))"
proof -
  have adv: "advance_unfilled (c\<lparr>qc_buf := b\<rparr>) n = c\<lparr>qc_buf := b, qc_unfilled_offset := max (qc_unfilled_offset c) n\<rparr>"
    for b n using inv E by (auto simp: advance_unfilled_def qc_inv_def max_def)
  have "length (qc_buf c) = qc_unfilled_offset c" using inv E by (simp add: qc_inv_def)
  then show ?thesis
    using E write_filled [of "cf_stream_offset f" "qc_buf c" "cf_data f", where ?'a = frame_parse_error]
    by (auto simp: recv_crypto_def Let_def adv)
qed

lemma capture_header_unknown:
  assumes "qc_expected_length c = 0" and "length (qc_buf c) = qc_unfilled_offset c"
  shows "capture_header c =
    (case handshake_header_try_parse (qc_buf c) of
       None \<Rightarrow> (c, Ok ())
     | Some h \<Rightarrow>
         if qc_max_message_size c < hh_msg_length h
         then (c, Err (FpMalformedFrame ''too large message length for TLS handshake''))
         else (c\<lparr>qc_expected_length := handshake_header_encoded_len h, qc_header := Some h,
           qc_unfilled_offset := min (qc_unfilled_offset c) (handshake_header_encoded_len h),
           qc_buf := resize (qc_buf c) (handshake_header_encoded_len h)\<rparr>, Ok ()))"
  using assms by (auto simp: capture_header_def Let_def min_def split: option.splits)

lemma qc_inv_extended:
  assumes "qc_inv c" and "qc_expected_length c = 0" and "cf_stream_offset f \<le> qc_unfilled_offset c"
  shows "qc_inv (c\<lparr>qc_buf := write_at (qc_buf c) (cf_stream_offset f) (cf_data f),
    qc_unfilled_offset := max (qc_unfilled_offset c) (cf_stream_offset f + length (cf_data f))\<rparr>)"
  using assms by (simp add: qc_inv_def length_write_at)

lemma capture_header_inv:
  assumes "qc_inv c" and "qc_expected_length c = 0"
  shows "qc_inv (fst (capture_header c)) \<and> snd (capture_header c) \<noteq> Panic"
proof -
  have "0 < handshake_header_encoded_len h" for h by (simp add: handshake_header_encoded_len_def)
  then show ?thesis using assms
    by (subst (1 2) capture_header_unknown)
      (auto simp: qc_inv_def resize_def split: option.splits)
qed

interpretation qc: frame_consumer recv_crypto qc_inv
proof
  fix c f
  assume inv: "qc_inv c"
  show "qc_inv (fst (recv_crypto c f)) \<and> snd (recv_crypto c f) \<noteq> Panic"
  proof (cases "qc_expected_length c = 0")
    case True
    then show ?thesis
      using inv capture_header_inv [OF qc_inv_extended [OF inv True, of f]]
      by (auto simp: recv_crypto_unknown not_less)
  next
    case False
    then show ?thesis
    proof (cases "cf_stream_offset f \<le> qc_expected_length c")
      case True
      then show ?thesis using recv_crypto_known [OF inv _ True] False by (metis bot_nat_0.not_eq_extremum fst_conv rs.distinct(3) snd_conv)
    next
      case False
      then show ?thesis using inv \<open>qc_expected_length c \<noteq> 0\<close> by (simp add: recv_crypto_def)
    qed
  qed
qed

section \<open>Reassembly of a stream\<close>

text \<open>A frame carries a piece of the stream at its offset.\<close>

definition piece_of :: "bytes \<Rightarrow> crypto_frame \<Rightarrow> bool" where
  "piece_of S f \<longleftrightarrow> cf_stream_offset f + length (cf_data f) \<le> length S \<and>
     cf_data f = take (length (cf_data f)) (drop (cf_stream_offset f) S)"

text \<open>The coalescer holds the bytes of the stream at the received positions of the first message.\<close>

definition qc_holds :: "bytes \<Rightarrow> nat set \<Rightarrow> quic_coalescer \<Rightarrow> bool" where
  "qc_holds S R c \<longleftrightarrow> qc_inv c \<and>
     (\<forall>i \<in> qc_filled c. i < length (qc_buf c) \<and> i < length S \<and> qc_buf c ! i = S ! i) \<and>
     (if qc_expected_length c = 0 then qc_filled c = R \<and> qc_unfilled_offset c < 4
      else qc_header c = handshake_header_try_parse S \<and> qc_filled c = R \<inter> {0..<qc_expected_length c})"

lemma write_at_agrees:
  assumes "\<forall>i \<in> A. i < length buf \<and> i < length S \<and> buf ! i = S ! i" and "off \<le> length buf"
    and "off + length d \<le> length S" and "d = take (length d) (drop off S)"
  shows "\<forall>i \<in> A \<union> {off..<off + length d}.
    i < length (write_at buf off d) \<and> i < length S \<and> write_at buf off d ! i = S ! i"
proof
  fix i assume i: "i \<in> A \<union> {off..<off + length d}"
  have "d ! (i - off) = S ! i" if "i \<in> {off..<off + length d}"
  proof -
    have "take (length d) (drop off S) ! (i - off) = S ! i" using that assms(3) by auto
    then show ?thesis using assms(4) by simp
  qed
  moreover have "i < max (length buf) (off + length d)" using i assms(1) by auto
  ultimately show "i < length (write_at buf off d) \<and> i < length S \<and> write_at buf off d ! i = S ! i"
    using i assms by (auto simp: nth_write_at length_write_at)
qed

lemma piece_of_take:
  assumes "piece_of S f" and "d = take n (cf_data f)"
  shows "cf_stream_offset f + length d \<le> length S" and "d = take (length d) (drop (cf_stream_offset f) S)"
proof -
  let ?n = "length (cf_data f)" and ?D = "drop (cf_stream_offset f) S"
  show "cf_stream_offset f + length d \<le> length S" using assms by (simp add: piece_of_def min_def)
  have "cf_data f = take ?n ?D" using assms(1) by (simp add: piece_of_def)
  then have "d = take (min n ?n) ?D" using assms(2) by (metis take_take)
  moreover have "length d = min n ?n" using assms(2) by (simp add: min.commute)
  ultimately show "d = take (length d) ?D" by metis
qed

lemma qc_holds_known:
  assumes "qc_holds S R c" and "0 < qc_expected_length c" and "piece_of S f"
    and "recv_crypto c f = (c', Ok ())"
  shows "qc_holds S (R \<union> frame_span f) c'"
proof -
  have inv: "qc_inv c" using assms(1) by (simp add: qc_holds_def)
  have off: "cf_stream_offset f \<le> qc_expected_length c"
    using assms(2,4) by (auto simp: recv_crypto_def split: if_splits)
  let ?d = "take (qc_expected_length c - cf_stream_offset f) (cf_data f)"
  have c': "qc_inv c'" "qc_expected_length c' = qc_expected_length c" "qc_header c' = qc_header c"
    "qc_filled c' = qc_filled c \<union> (frame_span f \<inter> {0..<qc_expected_length c})"
    "qc_buf c' = write_at (qc_buf c) (cf_stream_offset f) ?d"
    using recv_crypto_known [OF inv assms(2) off] assms(4) by auto
  have span: "frame_span f \<inter> {0..<qc_expected_length c} = {cf_stream_offset f..<cf_stream_offset f + length ?d}"
    using off by (auto simp: frame_span_def min_def)
  have "cf_stream_offset f \<le> length (qc_buf c)" using inv assms(2) off by (simp add: qc_inv_def)
  moreover have "\<forall>i \<in> qc_filled c. i < length (qc_buf c) \<and> i < length S \<and> qc_buf c ! i = S ! i"
    using assms(1) by (simp add: qc_holds_def)
  ultimately have "\<forall>i \<in> qc_filled c'. i < length (qc_buf c') \<and> i < length S \<and> qc_buf c' ! i = S ! i"
    unfolding c'(4,5) span by (intro write_at_agrees piece_of_take [OF assms(3) refl])
  then show ?thesis using assms(1,2) c' by (auto simp: qc_holds_def)
qed

lemma agrees_take:
  "\<forall>i \<in> {0..<length b}. i < length b \<and> i < length S \<and> b ! i = S ! i \<Longrightarrow> b = take (length b) S"
  by (cases b) (force intro!: nth_equalityI)+

lemma handshake_header_of_take:
  "handshake_header_try_parse b = Some h \<Longrightarrow> b = take (length b) S \<Longrightarrow> handshake_header_try_parse S = Some h"
  by (metis append_take_drop_id handshake_header_append)

lemma qc_holds_capture:
  assumes "qc_inv c" and E: "qc_expected_length c = 0" and agrees: "qc_buf c = take (length (qc_buf c)) S"
    and "length (qc_buf c) \<le> length S" and "capture_header c = (c', Ok ())"
  shows "qc_holds S {0..<qc_unfilled_offset c} c'"
proof -
  have len: "length (qc_buf c) = qc_unfilled_offset c" and fs: "qc_fragment_set c = []"
    using assms(1) E by (auto simp: qc_inv_def)
  have inv': "qc_inv c'" using capture_header_inv [OF assms(1) E] assms(5) by simp
  have nth: "qc_buf c ! i = S ! i" if "i < length (qc_buf c)" for i
    using that by (subst agrees) simp
  show ?thesis
  proof (cases "handshake_header_try_parse (qc_buf c)")
    case None
    then have "c' = c" using assms(5) by (simp add: capture_header_unknown [OF E len])
    moreover have "qc_unfilled_offset c < 4" using None by (simp add: handshake_header_None_iff len)
    ultimately show ?thesis using assms nth len E fs by (auto simp: qc_holds_def qc_filled_def)
  next
    case (Some h)
    let ?e = "handshake_header_encoded_len h"
    have "c' = c\<lparr>qc_expected_length := ?e, qc_header := Some h,
        qc_unfilled_offset := min (qc_unfilled_offset c) ?e, qc_buf := resize (qc_buf c) ?e\<rparr>"
      using assms(5) Some by (auto simp: capture_header_unknown [OF E len] split: if_splits)
    moreover have "handshake_header_try_parse S = Some h" by (rule handshake_header_of_take [OF Some agrees])
    ultimately show ?thesis using inv' assms(4) nth len fs
      by (auto simp: qc_holds_def qc_filled_def resize_def nth_append handshake_header_encoded_len_def)
  qed
qed

lemma qc_holds_unknown:
  assumes "qc_holds S R c" and E: "qc_expected_length c = 0" and "piece_of S f"
    and "recv_crypto c f = (c', Ok ())"
  shows "qc_holds S (R \<union> frame_span f) c'"
proof -
  have inv: "qc_inv c" and R: "R = {0..<qc_unfilled_offset c}" and len: "length (qc_buf c) = qc_unfilled_offset c"
    and ag: "\<forall>i \<in> {0..<qc_unfilled_offset c}. i < length (qc_buf c) \<and> i < length S \<and> qc_buf c ! i = S ! i"
    using assms(1) E by (auto simp: qc_holds_def qc_inv_def qc_filled_def)
  have off: "cf_stream_offset f \<le> qc_unfilled_offset c"
    using assms(4) by (auto simp: recv_crypto_unknown [OF inv E] split: if_splits)
  show ?thesis
  proof (cases "cf_data f = []")
    case True
    then have "c' = c" using assms(4) off by (simp add: recv_crypto_unknown [OF inv E])
    then show ?thesis using assms(1) True by (simp add: frame_span_def)
  next
    case False
    let ?b = "write_at (qc_buf c) (cf_stream_offset f) (cf_data f)"
    let ?c = "c\<lparr>qc_buf := ?b,
      qc_unfilled_offset := max (qc_unfilled_offset c) (cf_stream_offset f + length (cf_data f))\<rparr>"
    have cap: "capture_header ?c = (c', Ok ())"
      using assms(4) off False by (simp add: recv_crypto_unknown [OF inv E])
    have lb: "length ?b = max (qc_unfilled_offset c) (cf_stream_offset f + length (cf_data f))"
      using off len by (simp add: length_write_at)
    have span: "{0..<length ?b} = {0..<qc_unfilled_offset c} \<union> frame_span f"
      using off by (auto simp: lb frame_span_def)
    have "\<forall>i \<in> {0..<length ?b}. i < length ?b \<and> i < length S \<and> ?b ! i = S ! i"
      unfolding span frame_span_def
      using ag off len assms(3) by (intro write_at_agrees) (auto simp: piece_of_def)
    moreover from this have "length ?b \<le> length S" by (cases "length ?b") auto
    ultimately have "qc_holds S {0..<qc_unfilled_offset ?c} c'"
      using cap by (intro qc_holds_capture [OF qc_inv_extended [OF inv E off]]) (auto simp: E intro: agrees_take)
    then show ?thesis using span by (simp add: R lb)
  qed
qed

lemma qc_holds_recv_all:
  assumes "qc_holds S R c" and "\<forall>f \<in> set fs. piece_of S f" and "recv_all recv_crypto c fs = (c', Ok ())"
  shows "qc_holds S (R \<union> (\<Union>f \<in> set fs. frame_span f)) c'"
  using assms
proof (induction fs arbitrary: R c)
  case (Cons f fs)
  then obtain c1 where 1: "recv_crypto c f = (c1, Ok ())" "recv_all recv_crypto c1 fs = (c', Ok ())"
    by (auto split: prod.splits rs.splits)
  have "qc_holds S (R \<union> frame_span f) c1"
    using qc_holds_known [OF Cons.prems(1) _ _ 1(1)] qc_holds_unknown [OF Cons.prems(1) _ _ 1(1)] Cons.prems(2)
    by (cases "qc_expected_length c = 0") auto
  from Cons.IH [OF this _ 1(2)] Cons.prems(2) show ?case by (simp add: Un_assoc)
qed simp

lemma qc_holds_new: "qc_holds S {} (quic_coalescer_new m)"
  using qc_inv_new [of m] by (simp add: qc_holds_def) (simp add: quic_coalescer_new_def)

lemma finished_iff_filled:
  assumes "qc_inv c" and "0 < qc_expected_length c"
  shows "quic_coalescer_finished c \<longleftrightarrow> {0..<qc_expected_length c} \<subseteq> qc_filled c"
proof -
  have "qc_unfilled_offset c \<notin> covers (qc_fragment_set c)" "qc_unfilled_offset c \<le> qc_expected_length c"
    using assms by (fastforce simp: qc_inv_def covers_def)+
  then have "qc_unfilled_offset c \<in> {0..<qc_expected_length c} - qc_filled c"
    if "qc_unfilled_offset c \<noteq> qc_expected_length c"
    using that by (simp add: qc_filled_def)
  then show ?thesis
    using assms(2) unfolding quic_coalescer_finished_def qc_filled_def
    by (metis DiffD1 DiffD2 Un_upper1 subsetD)
qed

lemma qc_holds_finished:
  assumes "qc_holds S R c" and "handshake_try_parse_fragment S = Some msg"
  shows "quic_coalescer_finished c \<longleftrightarrow> {0..<length (hm_msg_data msg)} \<subseteq> R"
    and "quic_coalescer_finished c \<Longrightarrow> qc_header c = Some (hm_header msg) \<and> qc_buf c = hm_msg_data msg"
proof -
  obtain h where h: "handshake_header_try_parse S = Some h" "handshake_header_encoded_len h \<le> length S"
    and msg: "msg = \<lparr>hm_header = h, hm_msg_data = take (handshake_header_encoded_len h) S\<rparr>"
    using assms(2) by (auto simp: handshake_try_parse_fragment_def Let_def split: option.splits if_splits)
  let ?e = "handshake_header_encoded_len h"
  have len: "length (hm_msg_data msg) = ?e" "4 \<le> ?e"
    using h(2) by (simp_all add: msg handshake_header_encoded_len_def)
  have inv: "qc_inv c" using assms(1) by (simp add: qc_holds_def)
  have known: "qc_header c = Some h \<and> qc_expected_length c = ?e \<and> qc_filled c = R \<inter> {0..<?e} \<and>
      length (qc_buf c) = ?e" if "0 < qc_expected_length c"
    using assms(1) that h(1) by (auto simp: qc_holds_def qc_inv_def)
  show "quic_coalescer_finished c \<longleftrightarrow> {0..<length (hm_msg_data msg)} \<subseteq> R"
  proof (cases "qc_expected_length c = 0")
    case True
    then have "R = {0..<qc_unfilled_offset c}" "qc_unfilled_offset c < 4"
      using assms(1) by (auto simp: qc_holds_def qc_inv_def qc_filled_def)
    then have "3 \<notin> R" "3 \<in> {0..<?e}" using len(2) by auto
    then show ?thesis using True by (metis len(1) less_not_refl quic_coalescer_finished_def subsetD)
  next
    case False
    then show ?thesis using finished_iff_filled [OF inv] known len by auto
  qed
  assume fin: "quic_coalescer_finished c"
  then have pos: "0 < qc_expected_length c" by (simp add: quic_coalescer_finished_def)
  have "\<forall>i < ?e. qc_buf c ! i = S ! i"
    using fin finished_iff_filled [OF inv pos] assms(1) known [OF pos] by (auto simp: qc_holds_def)
  then have "qc_buf c = take ?e S" using known [OF pos] h(2) by (intro nth_equalityI) auto
  then show "qc_header c = Some (hm_header msg) \<and> qc_buf c = hm_msg_data msg"
    using known [OF pos] by (simp add: msg)
qed

lemma handshake_try_parse_fragment_length:
  "handshake_try_parse_fragment S = Some msg \<Longrightarrow>
    length (hm_msg_data msg) = handshake_header_encoded_len (hm_header msg)"
  by (auto simp: handshake_try_parse_fragment_def Let_def split: option.splits if_splits)

lemma quic_parse_finished:
  assumes "quic_coalescer_finished c" and "qc_header c = Some (hm_header msg)" and "qc_buf c = hm_msg_data msg"
    and len: "length (hm_msg_data msg) = handshake_header_encoded_len (hm_header msg)"
  shows "quic_parse_client_hello c = map_ok Some (handshake_parse_client_hello msg)"
proof -
  have mo: "bnd m (\<lambda>x. Ok (Some x)) = map_ok Some m" for m :: "(client_hello_parse_error, client_hello) rs"
    by (cases m) auto
  have "4 \<le> handshake_header_encoded_len (hm_header msg)" by (simp add: handshake_header_encoded_len_def)
  then show ?thesis using assms
    by (simp add: quic_parse_client_hello_def handshake_parse_client_hello_def client_hello_parse_fragment_def mo)
qed

text \<open>
  C4: for CRYPTO frames that carry pieces of a stream beginning with a handshake message, received in
  any order, with any repetition and overlap, a run without errors finishes exactly when every position
  of the message was received; then the buffer is the message, and the ClientHello is parsed to the
  same outcome as when the message arrives in one piece.
\<close>

theorem quic_reassembly:
  assumes "\<forall>f \<in> set fs. piece_of S f" and "handshake_try_parse_fragment S = Some msg"
    and "recv_all recv_crypto (quic_coalescer_new max_size) fs = (c, Ok ())"
  shows "(quic_coalescer_finished c \<longleftrightarrow> {0..<length (hm_msg_data msg)} \<subseteq> (\<Union>f \<in> set fs. frame_span f)) \<and>
    (quic_coalescer_finished c \<longrightarrow> qc_buf c = hm_msg_data msg \<and>
      quic_parse_client_hello c = map_ok Some (handshake_parse_client_hello msg))"
proof -
  have holds: "qc_holds S (\<Union>f \<in> set fs. frame_span f) c"
    using qc_holds_recv_all [OF qc_holds_new assms(1,3)] by simp
  show ?thesis
    using qc_holds_finished [OF holds assms(2)] quic_parse_finished [of c msg]
      handshake_try_parse_fragment_length [OF assms(2)] by blast
qed

theorem quic_reassembly_witness:
  "\<exists>c. recv_all recv_crypto (quic_coalescer_new 100)
      [crypto_frame_new 0 [1, 0, 0, 3, 9], crypto_frame_new 6 [7], crypto_frame_new 4 [9, 8, 7]] = (c, Ok ()) \<and>
    qc_buf c = [1, 0, 0, 3, 9, 8, 7]"
proof -
  let ?S = "[1, 0, 0, 3, 9, 8, 7] :: bytes"
  let ?fs = "[crypto_frame_new 0 [1, 0, 0, 3, 9], crypto_frame_new 6 [7], crypto_frame_new 4 [9, 8, 7]]"
  let ?msg = "\<lparr>hm_header = \<lparr>hh_msg_type = 1, hh_msg_length = 3\<rparr>, hm_msg_data = ?S\<rparr>"
  define c where "c = fst (recv_all recv_crypto (quic_coalescer_new 100) ?fs)"
  have run: "recv_all recv_crypto (quic_coalescer_new 100) ?fs = (c, Ok ())" unfolding c_def by code_simp
  have "\<forall>f \<in> set ?fs. piece_of ?S f" by (simp add: piece_of_def crypto_frame_new_def)
  moreover have "handshake_try_parse_fragment ?S = Some ?msg"
    by (simp add: handshake_try_parse_fragment_def handshake_header_try_parse_def handshake_header_encoded_len_def)
  moreover have "{0..<length ?S} \<subseteq> (\<Union>f \<in> set ?fs. frame_span f)"
    by (auto simp: frame_span_def crypto_frame_new_def)
  ultimately have "qc_buf c = ?S" using quic_reassembly [of ?fs ?S ?msg 100 c] run by simp
  then show ?thesis using run by blast
qed

lemma recv_all_known:
  assumes "qc_inv c" and "0 < qc_expected_length c" and "\<forall>f \<in> set fs. cf_stream_offset f \<le> qc_expected_length c"
  shows "snd (recv_all recv_crypto c fs) = Ok ()"
  using assms
proof (induction fs arbitrary: c)
  case (Cons f fs)
  obtain c' where "recv_crypto c f = (c', Ok ())" "qc_inv c'" "qc_expected_length c' = qc_expected_length c"
    using recv_crypto_known [OF Cons.prems(1,2), of f] Cons.prems(3) by (metis list.set_intros(1))
  then show ?case using Cons by simp
qed simp

lemma recv_crypto_first:
  assumes "piece_of S f" and "cf_stream_offset f = 0" and "4 \<le> length (cf_data f)"
    and "handshake_header_try_parse S = Some h" and "hh_msg_length h \<le> m"
  obtains c where "recv_crypto (quic_coalescer_new m) f = (c, Ok ())"
    and "qc_inv c" and "qc_expected_length c = handshake_header_encoded_len h"
proof -
  let ?n = "quic_coalescer_new m"
  let ?c = "?n\<lparr>qc_buf := cf_data f, qc_unfilled_offset := length (cf_data f)\<rparr>"
  note new = quic_coalescer_new_def
  have "cf_data f = take (length (cf_data f)) S" using assms(1,2) by (simp add: piece_of_def)
  then have "handshake_header_try_parse (cf_data f) = Some h"
    using handshake_header_take [OF assms(4,3)] by simp
  then have cap: "capture_header ?c = (?c\<lparr>qc_expected_length := handshake_header_encoded_len h, qc_header := Some h,
      qc_unfilled_offset := min (length (cf_data f)) (handshake_header_encoded_len h),
      qc_buf := resize (cf_data f) (handshake_header_encoded_len h)\<rparr>, Ok ())"
    using assms(5) by (subst capture_header_unknown) (simp_all add: new)
  have "recv_crypto ?n f = capture_header ?c"
    using assms(2,3) by (subst recv_crypto_unknown [OF qc_inv_new(1)]) (auto simp: new write_at_def)
  then show thesis using that qc.recv_good [OF qc_inv_new(1), of m f] cap by auto
qed

lemma reassembly_succeeds:
  assumes "\<forall>f \<in> set (f0 # fs). piece_of S f" and "handshake_try_parse_fragment S = Some msg"
    and "cf_stream_offset f0 = 0" and "4 \<le> length (cf_data f0)" and "hh_msg_length (hm_header msg) \<le> max_size"
    and "\<forall>f \<in> set fs. cf_stream_offset f \<le> length (hm_msg_data msg)"
    and "{0..<length (hm_msg_data msg)} \<subseteq> (\<Union>f \<in> set (f0 # fs). frame_span f)"
  shows "\<exists>c. recv_all recv_crypto (quic_coalescer_new max_size) (f0 # fs) = (c, Ok ()) \<and>
    quic_coalescer_finished c \<and> quic_parse_client_hello c = map_ok Some (handshake_parse_client_hello msg)"
proof -
  have len: "length (hm_msg_data msg) = handshake_header_encoded_len (hm_header msg)"
    by (rule handshake_try_parse_fragment_length [OF assms(2)])
  have "handshake_header_try_parse S = Some (hm_header msg)"
    using assms(2) by (auto simp: handshake_try_parse_fragment_def Let_def split: option.splits if_splits)
  then obtain c0 where c0: "recv_crypto (quic_coalescer_new max_size) f0 = (c0, Ok ())" "qc_inv c0"
    "qc_expected_length c0 = length (hm_msg_data msg)"
    using recv_crypto_first [of S f0 "hm_header msg" max_size] assms(1,3-5) len by auto
  have "snd (recv_all recv_crypto c0 fs) = Ok ()"
    using c0 len assms(6) by (intro recv_all_known) (auto simp: handshake_header_encoded_len_def)
  then obtain c where run: "recv_all recv_crypto (quic_coalescer_new max_size) (f0 # fs) = (c, Ok ())"
    using c0(1) by (cases "recv_all recv_crypto c0 fs") auto
  have holds: "qc_holds S (\<Union>f \<in> set (f0 # fs). frame_span f) c"
    using qc_holds_recv_all [OF qc_holds_new assms(1) run] by simp
  show ?thesis
    using run qc_holds_finished [OF holds assms(2)] assms(7) quic_parse_finished [OF _ _ _ len] by blast
qed

text \<open>
  C14: when the first frame brings the header of a message within the size limit and the frames that
  follow start inside the message and together cover it, in whatever order, reassembly succeeds: no
  frame is refused, the coalescer finishes, and the message it parses is the one sent.
\<close>

theorem quic_reassembly_succeeds:
  assumes "\<forall>f \<in> set (f0 # fs). piece_of S f" and "handshake_try_parse_fragment S = Some msg"
    and "cf_stream_offset f0 = 0" and "4 \<le> length (cf_data f0)" and "hh_msg_length (hm_header msg) \<le> max_size"
    and "\<forall>f \<in> set fs. cf_stream_offset f \<le> length (hm_msg_data msg)"
    and "{0..<length (hm_msg_data msg)} \<subseteq> (\<Union>f \<in> set (f0 # fs). frame_span f)"
  shows "\<exists>c. recv_all recv_crypto (quic_coalescer_new max_size) (f0 # fs) = (c, Ok ()) \<and>
    quic_coalescer_finished c \<and> quic_parse_client_hello c = map_ok Some (handshake_parse_client_hello msg)"
  using assms by (rule reassembly_succeeds)

theorem quic_reassembly_succeeds_witness:
  "\<exists>c. recv_all recv_crypto (quic_coalescer_new 100)
      [crypto_frame_new 0 [1, 0, 0, 3], crypto_frame_new 5 [8, 7], crypto_frame_new 4 [9, 8]] = (c, Ok ()) \<and>
    quic_coalescer_finished c \<and> quic_parse_client_hello c = map_ok Some (handshake_parse_client_hello
      \<lparr>hm_header = \<lparr>hh_msg_type = 1, hh_msg_length = 3\<rparr>, hm_msg_data = [1, 0, 0, 3, 9, 8, 7]\<rparr>)"
  by (rule quic_reassembly_succeeds [where S = "[1, 0, 0, 3, 9, 8, 7]"])
    (auto simp: piece_of_def crypto_frame_new_def frame_span_def handshake_try_parse_fragment_def
      handshake_header_try_parse_def handshake_header_encoded_len_def)

lemma quic_parse_client_hello_not_Panic: "qc_inv c \<Longrightarrow> quic_parse_client_hello c \<noteq> Panic"
  by (auto simp: quic_parse_client_hello_def quic_coalescer_finished_def qc_inv_def rs_iff
      handshake_header_encoded_len_def client_hello_parse_no_panic split: option.splits)



end
