(* ===== verification/Quic_Packet.thy ===== *)
theory Quic_Packet
  imports Quic_Coalescer
begin

text \<open>
  Client Initial packets of QUIC versions 1 and 2: \<open>lib/vey-codec/src/quic/packet/\<close>. The walk over the
  long header, the removal of header protection and the opening of the payload follow the code; the
  primitives of OpenSSL it calls (HKDF-SHA256, AES-128-ECB, AES-128-GCM) are the fields of a record
  \<open>quic_crypto\<close> and stay parameters. Sections at the end build a packet the way RFC 9001 protects it
  and show that parsing inverts it.
\<close>

section \<open>Header protection\<close>

datatype packet_parse_error =
    PpTooSmall
  | PpNotLongHeader
  | PpInvalidLongPacketType
  | PpUnknownVersion nat
  | PpInvalidConnectionIdLength u8
  | PpInvalidTokenLength nat
  | PpInvalidLengthValue nat
  | PpCryptoError
  | PpInvalidPacketNumberLength u8

record quic_header =
  qh_byte1 :: u8
  qh_packet_number_buf :: bytes
  qh_packet_number_len :: nat
  qh_packet_number :: nat

text \<open>The loop over the packet number bytes, \<open>k\<close> of them left.\<close>

fun decode_pn_loop :: "nat \<Rightarrow> nat \<Rightarrow> bytes \<Rightarrow> bytes \<Rightarrow> bytes \<Rightarrow> ('e, bytes) rs" where
  "decode_pn_loop 0 pn_len msk data buf = Ok buf"
| "decode_pn_loop (Suc k) pn_len msk data buf =
     (let i = pn_len - Suc k in
      bnd (idx msk (i + 1)) (\<lambda>m.
      bnd (idx data i) (\<lambda>d.
      bnd (upd buf (4 - pn_len + i) (m XOR d)) (\<lambda>buf.
      decode_pn_loop k pn_len msk data buf))))"

definition decode_long :: "u8 \<Rightarrow> bytes \<Rightarrow> bytes \<Rightarrow> (packet_parse_error, quic_header) rs" where
  "decode_long byte1 msk data =
     bnd (idx msk 0) (\<lambda>mask0.
     let byte1_low_bits = (byte1 XOR mask0) AND 0x0F;
         real_byte1 = byte1_low_bits OR (byte1 AND 0xF0);
         packet_number_len = (byte1_low_bits AND 0x03) + 1 in
     if 4 < unat packet_number_len then Err (PpInvalidPacketNumberLength packet_number_len)
     else
       bnd (decode_pn_loop (unat packet_number_len) (unat packet_number_len) msk data (replicate 4 0)) (\<lambda>buf.
       Ok \<lparr>qh_byte1 = real_byte1, qh_packet_number_buf = buf,
           qh_packet_number_len = unat packet_number_len, qh_packet_number = be_nat buf\<rparr>))"

definition packet_number_bytes :: "quic_header \<Rightarrow> ('e, bytes) rs" where
  "packet_number_bytes h =
     bnd (usub 4 (qh_packet_number_len h)) (slice_from (qh_packet_number_buf h))"

text \<open>\<open>iv[8 + i] ^= packet_number_buf[i]\<close> for the four bytes, on the fixed-size arrays.\<close>

definition xor_nonce :: "quic_header \<Rightarrow> bytes \<Rightarrow> bytes" where
  "xor_nonce h iv =
     (let b = qh_packet_number_buf h in
      iv[8 := iv ! 8 XOR b ! 0, 9 := iv ! 9 XOR b ! 1, 10 := iv ! 10 XOR b ! 2, 11 := iv ! 11 XOR b ! 3])"

section \<open>Keys\<close>

text \<open>
  The calls into OpenSSL: HKDF with SHA-256 in its two modes (salt, key, info and output length; key,
  info and output length), one AES-128-ECB update (key, input) and the opening of AES-128-GCM (key, iv,
  associated data, ciphertext, tag). \<open>None\<close> is an \<open>ErrorStack\<close>.
\<close>

record quic_crypto =
  qk_hkdf_extract_expand :: "bytes \<Rightarrow> bytes \<Rightarrow> bytes \<Rightarrow> nat \<Rightarrow> bytes option"
  qk_hkdf_expand :: "bytes \<Rightarrow> bytes \<Rightarrow> nat \<Rightarrow> bytes option"
  qk_aes_128_ecb :: "bytes \<Rightarrow> bytes \<Rightarrow> bytes option"
  qk_aes_128_gcm_open :: "bytes \<Rightarrow> bytes \<Rightarrow> bytes \<Rightarrow> bytes \<Rightarrow> bytes \<Rightarrow> bytes option"

text \<open>What a zeroed array of \<open>n\<close> bytes holds after \<open>out\<close> was written to its front.\<close>

definition fill :: "nat \<Rightarrow> bytes \<Rightarrow> bytes" where
  "fill n out = take n (out @ replicate n 0)"

definition build_info_from_label :: "bytes \<Rightarrow> nat \<Rightarrow> ('e, bytes) rs" where
  "build_info_from_label label output_len =
     (let label_len = 6 + length label mod 256 in
      if 256 \<le> label_len then Panic
      else
        bnd (slice label 0 (label_len - 6)) (\<lambda>l.
        Ok ([of_nat (output_len div 256), of_nat output_len] @ [of_nat label_len] @ ascii ''tls13 '' @ l @ [0])))"

definition quic_hkdf_extract_expand ::
    "quic_crypto \<Rightarrow> bytes \<Rightarrow> bytes \<Rightarrow> bytes \<Rightarrow> nat \<Rightarrow> (packet_parse_error, bytes) rs" where
  "quic_hkdf_extract_expand crypto salt ikm label output_len =
     bnd (build_info_from_label label (output_len mod 2 ^ 16)) (\<lambda>info.
     bnd (ok_or PpCryptoError (qk_hkdf_extract_expand crypto salt ikm info output_len)) (\<lambda>out.
     Ok (fill output_len out)))"

definition quic_hkdf_expand ::
    "quic_crypto \<Rightarrow> bytes \<Rightarrow> bytes \<Rightarrow> nat \<Rightarrow> (packet_parse_error, bytes) rs" where
  "quic_hkdf_expand crypto prk label output_len =
     bnd (build_info_from_label label (output_len mod 2 ^ 16)) (\<lambda>info.
     bnd (ok_or PpCryptoError (qk_hkdf_expand crypto prk info output_len)) (\<lambda>out.
     Ok (fill output_len out)))"

definition aes_ecb_mask :: "quic_crypto \<Rightarrow> bytes \<Rightarrow> bytes \<Rightarrow> (packet_parse_error, bytes) rs" where
  "aes_ecb_mask crypto key sample =
     bnd (ok_or PpCryptoError (qk_aes_128_ecb crypto key sample)) (\<lambda>out.
     slice (fill 32 out) 0 5)"

definition aes_gcm_decrypt ::
    "quic_crypto \<Rightarrow> bytes \<Rightarrow> bytes \<Rightarrow> bytes list \<Rightarrow> bytes \<Rightarrow> bytes \<Rightarrow> (packet_parse_error, bytes) rs" where
  "aes_gcm_decrypt crypto key iv aad_vec ciphertext tag =
     ok_or PpCryptoError (qk_aes_128_gcm_open crypto key iv (concat aad_vec) ciphertext tag)"

record client_secrets =
  cs_key :: bytes
  cs_iv :: bytes
  cs_hp :: bytes

definition initial_salt_v1 :: bytes where
  "initial_salt_v1 =
     [0x38, 0x76, 0x2c, 0xf7, 0xf5, 0x59, 0x34, 0xb3, 0x4d, 0x17, 0x9a, 0xe6, 0xa4, 0xc8, 0x0c, 0xad,
      0xcc, 0xbb, 0x7f, 0x0a]"

definition initial_salt_v2 :: bytes where
  "initial_salt_v2 =
     [0x0d, 0xed, 0xe3, 0xde, 0xf7, 0x00, 0xa6, 0xdb, 0x81, 0x93, 0x81, 0xbe, 0x6e, 0x26, 0x9d, 0xcb,
      0xf9, 0xbd, 0x2e, 0xd9]"

definition client_secrets_v1_new :: "quic_crypto \<Rightarrow> bytes \<Rightarrow> (packet_parse_error, client_secrets) rs" where
  "client_secrets_v1_new crypto cid =
     bnd (quic_hkdf_extract_expand crypto initial_salt_v1 cid (ascii ''client in'') 32) (\<lambda>client_initial_secret.
     bnd (quic_hkdf_expand crypto client_initial_secret (ascii ''quic key'') 16) (\<lambda>key.
     bnd (quic_hkdf_expand crypto client_initial_secret (ascii ''quic iv'') 12) (\<lambda>iv.
     bnd (quic_hkdf_expand crypto client_initial_secret (ascii ''quic hp'') 16) (\<lambda>hp.
     Ok \<lparr>cs_key = key, cs_iv = iv, cs_hp = hp\<rparr>))))"

definition client_secrets_v2_new :: "quic_crypto \<Rightarrow> bytes \<Rightarrow> (packet_parse_error, client_secrets) rs" where
  "client_secrets_v2_new crypto cid =
     bnd (quic_hkdf_extract_expand crypto initial_salt_v2 cid (ascii ''client in'') 32) (\<lambda>client_initial_secret.
     bnd (quic_hkdf_expand crypto client_initial_secret (ascii ''quicv2 key'') 16) (\<lambda>key.
     bnd (quic_hkdf_expand crypto client_initial_secret (ascii ''quicv2 iv'') 12) (\<lambda>iv.
     bnd (quic_hkdf_expand crypto client_initial_secret (ascii ''quicv2 hp'') 16) (\<lambda>hp.
     Ok \<lparr>cs_key = key, cs_iv = iv, cs_hp = hp\<rparr>))))"

section \<open>Initial packets\<close>

text \<open>The steps of \<open>parse_client\<close>, each from an offset of the datagram to the next.\<close>

definition parse_dst_cid :: "bytes \<Rightarrow> nat \<Rightarrow> (packet_parse_error, bytes \<times> nat) rs" where
  "parse_dst_cid data offset =
     bnd (slice_from data offset) (\<lambda>left.
     if left = [] then Err PpTooSmall
     else
       bnd (idx left 0) (\<lambda>l.
       if 20 < unat l then Err (PpInvalidConnectionIdLength l)
       else
         let start = offset + 1; stop = start + unat l in
         if length data < stop then Err PpTooSmall
         else bnd (slice data start stop) (\<lambda>dst_cid. Ok (dst_cid, stop))))"

definition parse_src_cid :: "bytes \<Rightarrow> nat \<Rightarrow> (packet_parse_error, nat) rs" where
  "parse_src_cid data offset =
     bnd (slice_from data offset) (\<lambda>left.
     if left = [] then Err PpTooSmall
     else
       bnd (idx left 0) (\<lambda>l.
       if 20 < unat l then Err (PpInvalidConnectionIdLength l)
       else
         let offset = offset + (1 + unat l) in
         if length data < offset then Err PpTooSmall else Ok offset))"

definition parse_token :: "bytes \<Rightarrow> nat \<Rightarrow> (packet_parse_error, nat) rs" where
  "parse_token data offset =
     bnd (slice_from data offset) (\<lambda>left.
     bnd (bnd (var_int_parse left) (ok_or PpTooSmall)) (\<lambda>token_len.
     let start = offset + vi_encoded_len token_len in
     bnd (uadd64 start (vi_value token_len)) (\<lambda>stop.
     if length data < stop then Err (PpInvalidTokenLength (vi_value token_len)) else Ok stop)))"

definition parse_length :: "bytes \<Rightarrow> nat \<Rightarrow> (packet_parse_error, nat) rs" where
  "parse_length data offset =
     bnd (slice_from data offset) (\<lambda>left.
     bnd (bnd (var_int_parse left) (ok_or PpTooSmall)) (\<lambda>len.
     let offset = offset + vi_encoded_len len in
     bnd (uadd64 offset (vi_value len)) (\<lambda>stop.
     if stop \<noteq> length data then Err (PpInvalidLengthValue (vi_value len))
     else
       bnd (slice_from data offset) (\<lambda>left.
       if length left < 20 then Err (PpInvalidLengthValue (vi_value len)) else Ok offset))))"

text \<open>
  The two versions share the code below up to the packet type bits and the secrets; the result is the
  packet number and the payload.
\<close>

definition open_payload ::
    "quic_crypto \<Rightarrow> (bytes \<Rightarrow> (packet_parse_error, client_secrets) rs) \<Rightarrow> bytes \<Rightarrow> u8 \<Rightarrow> bytes \<Rightarrow> nat \<Rightarrow>
      (packet_parse_error, nat \<times> bytes) rs" where
  "open_payload crypto secrets_new data byte1 dst_cid pn_offset =
     bnd (slice_from data pn_offset) (\<lambda>left.
     bnd (slice left 4 20) (\<lambda>sample.
     bnd (secrets_new dst_cid) (\<lambda>secrets.
     bnd (aes_ecb_mask crypto (cs_hp secrets) sample) (\<lambda>msk.
     bnd (decode_long byte1 msk left) (\<lambda>header.
     let iv = xor_nonce header (cs_iv secrets) in
     bnd (slice data 1 pn_offset) (\<lambda>middle.
     bnd (packet_number_bytes header) (\<lambda>pn_bytes.
     let aad_vec = [[qh_byte1 header], middle, pn_bytes] in
     bnd (usub (length left) 16) (\<lambda>tag_start.
     bnd (slice left (qh_packet_number_len header) tag_start) (\<lambda>ciphertext.
     bnd (slice_from left tag_start) (\<lambda>tag.
     bnd (aes_gcm_decrypt crypto (cs_key secrets) iv aad_vec ciphertext tag) (\<lambda>payload.
     Ok (qh_packet_number header, payload))))))))))))"

definition initial_parse_client ::
    "quic_crypto \<Rightarrow> u8 \<Rightarrow> (bytes \<Rightarrow> (packet_parse_error, client_secrets) rs) \<Rightarrow> bytes \<Rightarrow>
      (packet_parse_error, nat \<times> bytes) rs" where
  "initial_parse_client crypto type_bits secrets_new data =
     bnd (idx data 0) (\<lambda>byte1.
     if byte1 AND 0x30 \<noteq> type_bits then Err PpInvalidLongPacketType
     else
       bnd (parse_dst_cid data 5) (\<lambda>(dst_cid, offset).
       bnd (parse_src_cid data offset) (\<lambda>offset.
       bnd (parse_token data offset) (\<lambda>offset.
       bnd (parse_length data offset) (\<lambda>pn_offset.
       open_payload crypto secrets_new data byte1 dst_cid pn_offset)))))"

definition parse_client_v1 :: "quic_crypto \<Rightarrow> bytes \<Rightarrow> (packet_parse_error, nat \<times> bytes) rs" where
  "parse_client_v1 crypto = initial_parse_client crypto 0x00 (client_secrets_v1_new crypto)"

definition parse_client_v2 :: "quic_crypto \<Rightarrow> bytes \<Rightarrow> (packet_parse_error, nat \<times> bytes) rs" where
  "parse_client_v2 crypto = initial_parse_client crypto 0x10 (client_secrets_v2_new crypto)"

datatype initial_packet = InitialV1 nat bytes | InitialV2 nat bytes

definition initial_packet_parse_client :: "quic_crypto \<Rightarrow> bytes \<Rightarrow> (packet_parse_error, initial_packet) rs" where
  "initial_packet_parse_client crypto data =
     (if length data < 5 then Err PpTooSmall
      else
        bnd (idx data 0) (\<lambda>byte1.
        if byte1 AND 0xC0 \<noteq> 0xC0 then Err PpNotLongHeader
        else
          bnd (slice data 1 5) (\<lambda>v.
          let version = be_nat v in
          if version = 0x00000001 then map_ok (case_prod InitialV1) (parse_client_v1 crypto data)
          else if version = 0x6b3343cf then map_ok (case_prod InitialV2) (parse_client_v2 crypto data)
          else Err (PpUnknownVersion version))))"

fun initial_packet_number :: "initial_packet \<Rightarrow> nat" where
  "initial_packet_number (InitialV1 packet_number payload) = packet_number"
| "initial_packet_number (InitialV2 packet_number payload) = packet_number"

fun initial_payload :: "initial_packet \<Rightarrow> bytes" where
  "initial_payload (InitialV1 packet_number payload) = payload"
| "initial_payload (InitialV2 packet_number payload) = payload"

section \<open>What the steps do\<close>

lemma decode_pn_loop_eq:
  assumes "k \<le> n" and "n \<le> 4" and "length buf = 4" and "n < length msk" and "n \<le> length data"
  shows "decode_pn_loop k n msk data buf = (Ok (take (4 - k) buf @ map (\<lambda>i. msk ! Suc i XOR data ! i) [n - k..<n]) :: ('e, bytes) rs)"
  using assms
proof (induction k arbitrary: buf)
  case (Suc k)
  let ?j = "4 - Suc k" and ?v = "msk ! Suc (n - Suc k) XOR data ! (n - Suc k)"
  have j: "4 - n + (n - Suc k) = ?j" "4 - k = Suc ?j" "?j < length buf" using Suc.prems by auto
  have "take (4 - k) (buf[?j := ?v]) = take ?j buf @ [?v]"
    using j by (simp add: take_Suc_conv_app_nth)
  moreover have "[n - Suc k..<n] = (n - Suc k) # [n - k..<n]"
    using Suc.prems by (simp add: upt_rec Suc_diff_Suc)
  ultimately show ?case using Suc j by (simp add: Let_def)
qed simp

lemma low_bits_len: "unat (((a :: u8) AND 3) + 1) = unat (a AND 3) + 1" "unat (a AND 3) < 4"
proof -
  have "a AND 3 \<le> 3" by (rule word_and_le1)
  then show l: "unat (a AND 3) < 4" by (simp add: word_le_nat_alt)
  show "unat ((a AND 3) + 1) = unat (a AND 3) + 1"
    using l by (simp add: unat_word_ariths)
qed

text \<open>The packet number length that the unmasked first byte announces.\<close>

definition pn_len_of :: "u8 \<Rightarrow> nat" where
  "pn_len_of b = unat (b AND 3) + 1"

lemma pn_len_of_bounds: "1 \<le> pn_len_of b" "pn_len_of b \<le> 4"
  using low_bits_len(2) [of b] by (simp_all add: pn_len_of_def)

lemma decode_long_eq:
  assumes "length msk = 5" and "4 \<le> length data"
    and n: "n = pn_len_of ((byte1 XOR msk ! 0) AND 0x0F)"
    and pn: "pn = map (\<lambda>i. msk ! Suc i XOR data ! i) [0..<n]"
  shows "decode_long byte1 msk data =
    Ok \<lparr>qh_byte1 = ((byte1 XOR msk ! 0) AND 0x0F) OR (byte1 AND 0xF0),
        qh_packet_number_buf = replicate (4 - n) 0 @ pn, qh_packet_number_len = n, qh_packet_number = be_nat pn\<rparr>"
proof -
  have z: "be_nat (replicate m 0 @ xs) = be_nat xs" for m xs by (induction m) auto
  have n4: "n \<le> 4" unfolding n by (rule pn_len_of_bounds)
  then have "decode_pn_loop n n msk data (replicate 4 0) =
      (Ok (replicate (4 - n) 0 @ pn) :: (packet_parse_error, bytes) rs)"
    using decode_pn_loop_eq [of n n "replicate 4 0" msk data] assms(1,2) by (simp add: pn)
  moreover have "unat ((((byte1 XOR msk ! 0) AND 0x0F) AND 3) + 1) = n"
    unfolding n pn_len_of_def by (rule low_bits_len)
  ultimately show ?thesis using n4 assms(1) by (simp add: decode_long_def Let_def z)
qed

lemma fill_length [simp]: "length (fill n out) = n"
  by (simp add: fill_def)

lemma fill_id: "length out = n \<Longrightarrow> fill n out = out"
  by (simp add: fill_def)

lemma build_info_label:
  "length label \<le> 249 \<Longrightarrow>
    build_info_from_label label n = Ok ([of_nat (n div 256), of_nat n, of_nat (6 + length label)] @ ascii ''tls13 '' @ label @ [0])"
  by (simp add: build_info_from_label_def Let_def)

lemma client_secrets_lengths:
  "client_secrets_v1_new crypto cid = Ok s \<or> client_secrets_v2_new crypto cid = Ok s \<Longrightarrow> length (cs_iv s) = 12"
  by (auto simp: client_secrets_v1_new_def client_secrets_v2_new_def quic_hkdf_expand_def
      quic_hkdf_extract_expand_def build_info_label rs_iff)

lemma client_secrets_not_Panic:
  "client_secrets_v1_new crypto cid \<noteq> Panic" "client_secrets_v2_new crypto cid \<noteq> Panic"
  by (auto simp: client_secrets_v1_new_def client_secrets_v2_new_def quic_hkdf_expand_def
      quic_hkdf_extract_expand_def build_info_label rs_iff)

lemma parse_dst_cid_Ok:
  "parse_dst_cid data off = Ok (cid, off') \<Longrightarrow> off < off' \<and> off' \<le> length data"
  by (auto simp: parse_dst_cid_def rs_iff Let_def split: if_splits)

lemma parse_src_cid_Ok: "parse_src_cid data off = Ok off' \<Longrightarrow> off < off' \<and> off' \<le> length data"
  by (auto simp: parse_src_cid_def rs_iff Let_def split: if_splits)

lemma parse_token_Ok: "parse_token data off = Ok off' \<Longrightarrow> off \<le> off' \<and> off' \<le> length data"
  by (auto simp: parse_token_def rs_iff Let_def uadd64_def split: if_splits)

lemma parse_length_Ok: "parse_length data off = Ok off' \<Longrightarrow> off \<le> off' \<and> off' + 20 \<le> length data"
  by (auto simp: parse_length_def rs_iff Let_def uadd64_def split: if_splits)

lemma var_int_stop:
  assumes "off \<le> length data" and "length data < 2 ^ 63" and "quic_var_int (drop off data) = Some v"
  shows "off + vi_encoded_len v + vi_value v < 2 ^ 64"
  using quic_var_int_bounds [OF assms(3)] assms(1,2) by simp

lemma header_steps_not_Panic:
  assumes "off \<le> length data" and "length data < 2 ^ 63"
  shows "parse_dst_cid data off \<noteq> Panic" and "parse_src_cid data off \<noteq> Panic"
    and "parse_token data off \<noteq> Panic" and "parse_length data off \<noteq> Panic"
  using assms var_int_stop [OF assms] quic_vi.dec_advance [of off data] assms(1)
  by (auto simp: parse_dst_cid_def parse_src_cid_def parse_token_def parse_length_def Let_def rs_iff uadd64_def
      split: if_splits)

lemma open_payload_not_Panic:
  assumes "pn_offset + 20 \<le> length data" and "1 \<le> pn_offset" and "\<And>cid. secrets_new cid \<noteq> Panic"
  shows "open_payload crypto secrets_new data byte1 cid pn_offset \<noteq> Panic"
proof -
  have "length msk = 5" if "aes_ecb_mask crypto key sample = Ok msk" for key sample msk
    using that by (auto simp: aes_ecb_mask_def rs_iff)
  moreover have "aes_ecb_mask crypto key sample \<noteq> Panic" for key sample
    by (auto simp: aes_ecb_mask_def rs_iff)
  ultimately show ?thesis
    using assms pn_len_of_bounds decode_long_eq [of _ "drop pn_offset data" _ byte1, OF _ _ refl refl]
    by (auto simp: open_payload_def Let_def rs_iff packet_number_bytes_def usub_def aes_gcm_decrypt_def
        intro: le_trans [of _ 4])
qed

section \<open>Packets as a client protects them\<close>

text \<open>
  The sender's side, after RFC 9001 (section 5) and RFC 9369: a packet before protection, the AEAD over
  its header and payload, and the mask over the first byte and the packet number.
\<close>

datatype quic_version = QuicV1 | QuicV2

fun version_bytes :: "quic_version \<Rightarrow> bytes" where
  "version_bytes QuicV1 = [0, 0, 0, 1]"
| "version_bytes QuicV2 = [0x6b, 0x33, 0x43, 0xcf]"

fun initial_type_bits :: "quic_version \<Rightarrow> u8" where
  "initial_type_bits QuicV1 = 0x00"
| "initial_type_bits QuicV2 = 0x10"

fun client_secrets_of :: "quic_version \<Rightarrow> quic_crypto \<Rightarrow> bytes \<Rightarrow> (packet_parse_error, client_secrets) rs" where
  "client_secrets_of QuicV1 = client_secrets_v1_new"
| "client_secrets_of QuicV2 = client_secrets_v2_new"

fun initial_packet_of :: "quic_version \<Rightarrow> nat \<Rightarrow> bytes \<Rightarrow> initial_packet" where
  "initial_packet_of QuicV1 = InitialV1"
| "initial_packet_of QuicV2 = InitialV2"

record initial_plain =
  ip_byte1 :: u8
  ip_dcid :: bytes
  ip_scid :: bytes
  ip_token_len :: bytes
  ip_token :: bytes
  ip_length :: bytes
  ip_pn :: bytes
  ip_payload :: bytes

definition initial_wf :: "quic_version \<Rightarrow> initial_plain \<Rightarrow> bool" where
  "initial_wf v p \<longleftrightarrow>
     ip_byte1 p AND 0xC0 = 0xC0 \<and> ip_byte1 p AND 0x30 = initial_type_bits v \<and>
     length (ip_pn p) = pn_len_of (ip_byte1 p) \<and> length (ip_dcid p) \<le> 20 \<and> length (ip_scid p) \<le> 20 \<and>
     var_int_bytes (length (ip_token p)) (ip_token_len p) \<and>
     var_int_bytes (length (ip_pn p) + length (ip_payload p) + 16) (ip_length p) \<and>
     4 \<le> length (ip_pn p) + length (ip_payload p)"

definition initial_long_header :: "quic_version \<Rightarrow> initial_plain \<Rightarrow> bytes" where
  "initial_long_header v p =
     version_bytes v @ [of_nat (length (ip_dcid p))] @ ip_dcid p @ [of_nat (length (ip_scid p))] @ ip_scid p @
     ip_token_len p @ ip_token p @ ip_length p"

type_synonym aead_seal = "bytes \<Rightarrow> bytes \<Rightarrow> bytes \<Rightarrow> bytes \<Rightarrow> bytes \<times> bytes"

definition seal_initial :: "aead_seal \<Rightarrow> client_secrets \<Rightarrow> quic_version \<Rightarrow> initial_plain \<Rightarrow> bytes" where
  "seal_initial seal secrets v p =
     (let nonce = map2 (XOR) (cs_iv secrets) (replicate (12 - length (ip_pn p)) 0 @ ip_pn p);
          (ciphertext, tag) = seal (cs_key secrets) nonce (ip_byte1 p # initial_long_header v p @ ip_pn p) (ip_payload p)
      in ciphertext @ tag)"

definition protect_initial ::
    "quic_crypto \<Rightarrow> aead_seal \<Rightarrow> client_secrets \<Rightarrow> quic_version \<Rightarrow> initial_plain \<Rightarrow> bytes" where
  "protect_initial crypto seal secrets v p =
     (let sealed = seal_initial seal secrets v p;
          sample = take 16 (drop (4 - length (ip_pn p)) sealed);
          msk = (case qk_aes_128_ecb crypto (cs_hp secrets) sample of Some out \<Rightarrow> out | None \<Rightarrow> [])
      in [ip_byte1 p XOR (msk ! 0 AND 0x0F)] @ initial_long_header v p @
         map2 (XOR) (ip_pn p) (drop 1 msk) @ sealed)"

text \<open>What the parser relies on of the primitives: output lengths, and that opening inverts sealing.\<close>

definition quic_crypto_ok :: "quic_crypto \<Rightarrow> aead_seal \<Rightarrow> bool" where
  "quic_crypto_ok crypto seal \<longleftrightarrow>
     (\<forall>key iv aad m. length (fst (seal key iv aad m)) = length m \<and> length (snd (seal key iv aad m)) = 16 \<and>
        qk_aes_128_gcm_open crypto key iv aad (fst (seal key iv aad m)) (snd (seal key iv aad m)) = Some m) \<and>
     (\<forall>key block. length block = 16 \<longrightarrow> (\<exists>out. qk_aes_128_ecb crypto key block = Some out \<and> length out = 16))"

lemma protected_byte1:
  fixes b m :: u8
  shows "((b XOR (m AND 0x0F)) XOR m) AND 0x0F = b AND 0x0F"
    and "(b XOR (m AND 0x0F)) AND 0xF0 = b AND 0xF0"
    and "(b XOR (m AND 0x0F)) AND 0xC0 = b AND 0xC0"
    and "(b XOR (m AND 0x0F)) AND 0x30 = b AND 0x30"
    and "(b AND 0x0F) OR (b AND 0xF0) = b"
    and "pn_len_of (b AND 0x0F) = pn_len_of b"
proof -
  show "((b XOR (m AND 0x0F)) XOR m) AND 0x0F = b AND 0x0F"
    by (simp add: bit.conj_xor_distrib2 and.assoc xor.assoc)
  show "(b XOR (m AND 0x0F)) AND 0xF0 = b AND 0xF0" "(b XOR (m AND 0x0F)) AND 0xC0 = b AND 0xC0"
    "(b XOR (m AND 0x0F)) AND 0x30 = b AND 0x30"
    by (simp_all add: bit.conj_xor_distrib2 and.assoc)
  have "(b AND 0x0F) OR (b AND 0xF0) = b AND (0x0F OR 0xF0)" by (simp only: bit.conj_disj_distrib)
  also have "0x0F OR 0xF0 = (-1 :: u8)" by simp
  finally show "(b AND 0x0F) OR (b AND 0xF0) = b" by simp
  show "pn_len_of (b AND 0x0F) = pn_len_of b" by (simp add: pn_len_of_def and.assoc)
qed

lemma cid_length: "length cid \<le> 20 \<Longrightarrow> unat (of_nat (length cid) :: u8) = length cid"
  by (simp add: unsigned_of_nat take_bit_nat_eq_self)

lemma parse_dst_cid_layout:
  assumes "length cid \<le> 20"
  shows "parse_dst_cid (a @ of_nat (length cid) # cid @ rest) (length a) = Ok (cid, length a + 1 + length cid)"
  using cid_length [OF assms] assms by (simp add: parse_dst_cid_def Let_def)

lemma parse_src_cid_layout:
  assumes "length cid \<le> 20"
  shows "parse_src_cid (a @ of_nat (length cid) # cid @ rest) (length a) = Ok (length a + 1 + length cid)"
  using cid_length [OF assms] assms by (simp add: parse_src_cid_def Let_def)

lemma parse_token_layout:
  assumes "var_int_bytes (length token) tln" and "length (a @ tln @ token @ rest) < 2 ^ 63"
  shows "parse_token (a @ tln @ token @ rest) (length a) = Ok (length a + length tln + length token)"
  using assms var_int_bytes_parse [OF assms(1), of "token @ rest"]
  by (simp add: parse_token_def Let_def var_int_parse_eq uadd64_def)

lemma parse_length_layout:
  assumes "var_int_bytes (length rest) ln" and "length (a @ ln @ rest) < 2 ^ 63" and "20 \<le> length rest"
  shows "parse_length (a @ ln @ rest) (length a) = Ok (length a + length ln)"
  using assms var_int_bytes_parse [OF assms(1), of rest]
  by (simp add: parse_length_def Let_def var_int_parse_eq uadd64_def)

lemma initial_header_walk:
  assumes wf: "initial_wf v p" and "length (x # initial_long_header v p @ rest) < 2 ^ 63"
    and rest: "length rest = length (ip_pn p) + length (ip_payload p) + 16"
  shows "initial_parse_client crypto (x AND 0x30) secrets_new (x # initial_long_header v p @ rest) =
    open_payload crypto secrets_new (x # initial_long_header v p @ rest) x (ip_dcid p)
      (1 + length (initial_long_header v p))"
proof -
  let ?d = "x # initial_long_header v p @ rest"
  let ?a = "x # version_bytes v"
  let ?b = "?a @ [of_nat (length (ip_dcid p))] @ ip_dcid p"
  let ?c = "?b @ [of_nat (length (ip_scid p))] @ ip_scid p"
  let ?e = "?c @ ip_token_len p @ ip_token p"
  have v: "length (version_bytes v) = 4" by (cases v) auto
  note wf' = wf [unfolded initial_wf_def]
  have 1: "parse_dst_cid ?d 5 = Ok (ip_dcid p, length ?b)"
    using parse_dst_cid_layout [of "ip_dcid p" ?a] wf' by (simp add: initial_long_header_def v)
  have 2: "parse_src_cid ?d (length ?b) = Ok (length ?c)"
    using parse_src_cid_layout [of "ip_scid p" ?b] wf' by (simp add: initial_long_header_def v)
  have 3: "parse_token ?d (length ?c) = Ok (length ?e)"
    using parse_token_layout [of "ip_token p" "ip_token_len p" ?c "ip_length p @ rest"] wf' assms(2)
    by (simp add: initial_long_header_def v)
  have len: "var_int_bytes (length rest) (ip_length p)" "20 \<le> length rest" unfolding rest using wf' by auto
  have 4: "parse_length ?d (length ?e) = Ok (1 + length (initial_long_header v p))"
    using parse_length_layout [OF len(1) _ len(2), of ?e] assms(2)
    by (simp add: initial_long_header_def v)
  have 0: "idx ?d 0 = (Ok x :: (packet_parse_error, u8) rs)" by simp
  show ?thesis by (simp only: initial_parse_client_def 0 1 2 3 4 bnd.simps prod.case not_True_eq_False if_False simp_thms)
qed

lemma xor_cancel_left: "(a XOR b) XOR a = (b :: u8)"
  by (metis bit.xor_self xor.assoc xor.commute xor.right_neutral)

lemma map2_xor_cancel:
  "length xs \<le> length ms \<Longrightarrow> map (\<lambda>i. ms ! i XOR (map2 (XOR) xs ms @ rest) ! i) [0..<length xs] = (xs :: bytes)"
  by (rule nth_equalityI) (auto simp: nth_append xor_cancel_left xor.assoc [symmetric])

lemma xor_nonce_map2:
  assumes "length iv = 12" and "length (qh_packet_number_buf h) = 4"
  shows "xor_nonce h iv = map2 (XOR) iv (replicate 8 0 @ qh_packet_number_buf h)"
proof -
  obtain b0 b1 b2 b3 where b: "qh_packet_number_buf h = [b0, b1, b2, b3]"
    using assms(2) by (auto simp: numeral_eq_Suc length_Suc_conv)
  obtain a0 a1 a2 a3 a4 a5 a6 a7 a8 a9 a10 a11 where a: "iv = [a0, a1, a2, a3, a4, a5, a6, a7, a8, a9, a10, a11]"
    using assms(1) by (auto simp: numeral_eq_Suc length_Suc_conv)
  show ?thesis by (simp add: xor_nonce_def b a numeral_eq_Suc)
qed

lemma open_payload_protected:
  assumes crypto: "quic_crypto_ok crypto seal" and wf: "initial_wf v p"
    and secrets: "secrets_new (ip_dcid p) = Ok secrets" and iv: "length (cs_iv secrets) = 12"
  obtains x pn' where "protect_initial crypto seal secrets v p =
      x # initial_long_header v p @ pn' @ seal_initial seal secrets v p"
    and "length pn' = length (ip_pn p)" and "length (seal_initial seal secrets v p) = length (ip_payload p) + 16"
    and "x AND 0xC0 = 0xC0" and "x AND 0x30 = initial_type_bits v"
    and "open_payload crypto secrets_new (x # initial_long_header v p @ pn' @ seal_initial seal secrets v p) x
      (ip_dcid p) (1 + length (initial_long_header v p)) = Ok (be_nat (ip_pn p), ip_payload p)"
proof -
  define H where "H = initial_long_header v p"
  define pn where "pn = ip_pn p"
  define nonce where "nonce = map2 (XOR) (cs_iv secrets) (replicate (12 - length pn) 0 @ pn)"
  define ct where "ct = fst (seal (cs_key secrets) nonce (ip_byte1 p # H @ pn) (ip_payload p))"
  define tag where "tag = snd (seal (cs_key secrets) nonce (ip_byte1 p # H @ pn) (ip_payload p))"
  have sealed: "seal_initial seal secrets v p = ct @ tag"
    by (simp add: seal_initial_def Let_def ct_def tag_def nonce_def H_def pn_def split: prod.splits)
  have aead: "length ct = length (ip_payload p)" "length tag = 16"
      "qk_aes_128_gcm_open crypto (cs_key secrets) nonce (ip_byte1 p # H @ pn) ct tag = Some (ip_payload p)"
    using crypto by (simp_all add: quic_crypto_ok_def ct_def tag_def)
  have n: "length pn = pn_len_of (ip_byte1 p)" "1 \<le> length pn" "length pn \<le> 4" "4 \<le> length pn + length ct"
    using wf pn_len_of_bounds [of "ip_byte1 p"] by (auto simp: initial_wf_def pn_def aead)
  define sample where "sample = take 16 (drop (4 - length pn) (ct @ tag))"
  have "length sample = 16" using n aead by (simp add: sample_def)
  then obtain m where m: "qk_aes_128_ecb crypto (cs_hp secrets) sample = Some m" "length m = 16"
    using crypto unfolding quic_crypto_ok_def by blast
  define x where "x = ip_byte1 p XOR (m ! 0 AND 0x0F)"
  define pn' where "pn' = map2 (XOR) pn (drop 1 m)"
  have len': "length pn' = length pn" using n m by (simp add: pn'_def)
  have prot: "protect_initial crypto seal secrets v p = x # H @ pn' @ ct @ tag"
    unfolding protect_initial_def sealed Let_def pn_def [symmetric] sample_def [symmetric]
    by (simp add: m(1) H_def x_def pn'_def)
  have mask: "aes_ecb_mask crypto (cs_hp secrets) sample = Ok (take 5 m)"
    using m by (simp add: aes_ecb_mask_def fill_def)
  have "map (\<lambda>i. take 5 m ! Suc i XOR (pn' @ ct @ tag) ! i) [0..<length pn] =
      map (\<lambda>i. drop 1 m ! i XOR (pn' @ ct @ tag) ! i) [0..<length pn]"
    using n(3) m(2) by (intro map_cong) auto
  also have "\<dots> = pn" unfolding pn'_def by (rule map2_xor_cancel) (use n(3) m(2) in simp)
  finally have pn_dec: "pn = map (\<lambda>i. take 5 m ! Suc i XOR (pn' @ ct @ tag) ! i) [0..<length pn]" by (rule sym)
  have hdr: "decode_long x (take 5 m) (pn' @ ct @ tag) =
      Ok \<lparr>qh_byte1 = ip_byte1 p, qh_packet_number_buf = replicate (4 - length pn) 0 @ pn,
          qh_packet_number_len = length pn, qh_packet_number = be_nat pn\<rparr>"
    using decode_long_eq [of "take 5 m" "pn' @ ct @ tag" "length pn" x pn, OF _ _ _ pn_dec] m(2) n len'
    by (simp add: x_def protected_byte1)
  have nonce': "xor_nonce \<lparr>qh_byte1 = ip_byte1 p, qh_packet_number_buf = replicate (4 - length pn) 0 @ pn,
      qh_packet_number_len = length pn, qh_packet_number = be_nat pn\<rparr> (cs_iv secrets) = nonce"
  proof -
    have "replicate 8 0 @ replicate (4 - length pn) 0 = (replicate (12 - length pn) 0 :: bytes)"
      using n(3) by (simp add: replicate_add [symmetric])
    then show ?thesis using iv n(3)
      by (subst xor_nonce_map2) (simp_all add: nonce_def append_assoc [symmetric] del: append_assoc)
  qed
  have op: "open_payload crypto secrets_new (x # H @ pn' @ ct @ tag) x (ip_dcid p) (1 + length H) =
      Ok (be_nat pn, ip_payload p)"
  proof -
    have "slice (pn' @ ct @ tag) 4 20 = (Ok sample :: (packet_parse_error, bytes) rs)"
      using n aead len' by (simp add: sample_def)
    then show ?thesis
      using secrets mask hdr nonce' n aead len'
      by (simp add: open_payload_def packet_number_bytes_def aes_gcm_decrypt_def)
  qed
  show thesis
    by (rule that [of x pn']) (use prot sealed len' aead op wf in
      \<open>simp_all add: H_def pn_def x_def protected_byte1 initial_wf_def\<close>)
qed

lemma client_secrets_of_iv: "client_secrets_of v crypto cid = Ok s \<Longrightarrow> length (cs_iv s) = 12"
  using client_secrets_lengths by (cases v) auto

lemma parse_client_version:
  assumes "length H \<ge> 4" and "take 4 H = version_bytes v" and "x AND 0xC0 = 0xC0"
  shows "initial_packet_parse_client crypto (x # H) =
    map_ok (case_prod (initial_packet_of v))
      (initial_parse_client crypto (initial_type_bits v) (client_secrets_of v crypto) (x # H))"
  using assms by (cases v) (simp_all add: initial_packet_parse_client_def parse_client_v1_def parse_client_v2_def)

lemma parse_protected:
  assumes "quic_crypto_ok crypto seal" and "initial_wf v p"
    and "client_secrets_of v crypto (ip_dcid p) = Ok secrets"
    and "length (protect_initial crypto seal secrets v p) < 2 ^ 63"
  shows "initial_packet_parse_client crypto (protect_initial crypto seal secrets v p) =
    Ok (initial_packet_of v (be_nat (ip_pn p)) (ip_payload p))"
proof -
  let ?s = "seal_initial seal secrets v p"
  obtain x pn' where prot: "protect_initial crypto seal secrets v p = x # initial_long_header v p @ pn' @ ?s"
    and len: "length pn' = length (ip_pn p)" "length ?s = length (ip_payload p) + 16"
    and x: "x AND 0xC0 = 0xC0" "x AND 0x30 = initial_type_bits v"
    and op: "open_payload crypto (client_secrets_of v crypto) (x # initial_long_header v p @ pn' @ ?s) x
      (ip_dcid p) (1 + length (initial_long_header v p)) = Ok (be_nat (ip_pn p), ip_payload p)"
    using open_payload_protected [where secrets_new = "client_secrets_of v crypto", OF assms(1,2,3)
        client_secrets_of_iv [OF assms(3)]] by metis
  have "take 4 (initial_long_header v p @ pn' @ ?s) = version_bytes v"
    by (cases v) (simp_all add: initial_long_header_def)
  then have "initial_packet_parse_client crypto (x # initial_long_header v p @ pn' @ ?s) =
      map_ok (case_prod (initial_packet_of v))
        (initial_parse_client crypto (x AND 0x30) (client_secrets_of v crypto) (x # initial_long_header v p @ pn' @ ?s))"
    using x len by (subst parse_client_version [of _ v]) auto
  also have "\<dots> = Ok (initial_packet_of v (be_nat (ip_pn p)) (ip_payload p))"
    using initial_header_walk [OF assms(2), of x "pn' @ ?s" crypto "client_secrets_of v crypto"] op len assms(4) prot
    by simp
  finally show ?thesis by (simp add: prot)
qed

text \<open>
  C7: for any primitives whose outputs have their documented lengths and whose opening inverts their
  sealing, a client Initial packet of version 1 or 2, protected as RFC 9001 and RFC 9369 prescribe, with
  any connection ids, token, packet number and payload, is parsed to its packet number and payload.
\<close>

theorem initial_packet_roundtrip:
  assumes "quic_crypto_ok crypto seal" and "initial_wf v p"
    and "client_secrets_of v crypto (ip_dcid p) = Ok secrets"
    and "length (protect_initial crypto seal secrets v p) < 2 ^ 63"
  shows "initial_packet_parse_client crypto (protect_initial crypto seal secrets v p) =
    Ok (initial_packet_of v (be_nat (ip_pn p)) (ip_payload p))"
  using assms by (rule parse_protected)

text \<open>An instance of the primitives: constant keys, the identity as cipher and a constant tag.\<close>

definition example_crypto :: quic_crypto where
  "example_crypto =
     \<lparr>qk_hkdf_extract_expand = (\<lambda>salt ikm info n. Some (replicate n 1)),
      qk_hkdf_expand = (\<lambda>prk info n. Some (replicate n 2)),
      qk_aes_128_ecb = (\<lambda>key block. Some block),
      qk_aes_128_gcm_open = (\<lambda>key iv aad ciphertext tag. if tag = replicate 16 7 then Some ciphertext else None)\<rparr>"

definition example_seal :: aead_seal where
  "example_seal key iv aad m = (m, replicate 16 7)"

definition example_secrets :: client_secrets where
  "example_secrets = \<lparr>cs_key = replicate 16 2, cs_iv = replicate 12 2, cs_hp = replicate 16 2\<rparr>"

lemma example_crypto_ok: "quic_crypto_ok example_crypto example_seal"
  by (simp add: quic_crypto_ok_def example_crypto_def example_seal_def)

lemma example_secrets_of: "client_secrets_of v example_crypto cid = Ok example_secrets"
  by (cases v) (simp_all add: client_secrets_v1_new_def client_secrets_v2_new_def quic_hkdf_expand_def
      quic_hkdf_extract_expand_def build_info_label example_crypto_def example_secrets_def fill_id)

definition example_plain :: initial_plain where
  "example_plain =
     \<lparr>ip_byte1 = 0xD0, ip_dcid = [1, 2], ip_scid = [], ip_token_len = [1], ip_token = [9], ip_length = [20],
      ip_pn = [5], ip_payload = [0, 1, 0]\<rparr>"

lemma example_plain_wf: "initial_wf QuicV2 example_plain"
  by (simp add: initial_wf_def example_plain_def pn_len_of_def var_int_bytes_def quic_var_int_def)

lemma example_plain_length: "length (protect_initial example_crypto example_seal example_secrets QuicV2 example_plain) < 2 ^ 63"
  by (simp add: example_plain_def protect_initial_def seal_initial_def example_seal_def example_crypto_def
      initial_long_header_def)

theorem initial_packet_roundtrip_witness:
  "initial_packet_parse_client example_crypto
      (protect_initial example_crypto example_seal example_secrets QuicV2 example_plain) = Ok (InitialV2 5 [0, 1, 0])"
  using initial_packet_roundtrip [OF example_crypto_ok example_plain_wf example_secrets_of example_plain_length]
  by (simp add: example_plain_def)

text \<open>
  C36: no datagram makes the Initial packet parser panic, whatever the cryptographic primitives return.
\<close>

theorem initial_packet_parse_no_panic:
  assumes "length data < 2 ^ 63"
  shows "initial_packet_parse_client crypto data \<noteq> Panic"
proof -
  have walk: "initial_parse_client crypto ty (client_secrets_of v crypto) data \<noteq> Panic" if "5 \<le> length data" for ty v
  proof -
    have secrets: "client_secrets_of v crypto cid \<noteq> Panic" for cid
      using client_secrets_not_Panic by (cases v) auto
    show ?thesis
      using that assms header_steps_not_Panic [of _ data] secrets
        open_payload_not_Panic [of _ data "client_secrets_of v crypto"]
      by (auto simp: initial_parse_client_def rs_iff Suc_le_eq
          dest!: parse_dst_cid_Ok parse_src_cid_Ok parse_token_Ok parse_length_Ok)
  qed
  from walk [of 0 QuicV1] walk [of 16 QuicV2] show ?thesis
    by (auto simp: initial_packet_parse_client_def parse_client_v1_def parse_client_v2_def rs_iff Let_def
        split: if_splits)
qed

theorem initial_packet_parse_no_panic_witness:
  "initial_packet_parse_client example_crypto [0xC0, 0, 0, 0, 1, 20, 1] \<noteq> Panic"
  by (rule initial_packet_parse_no_panic) simp

end
