(* ===== verification/Dpi_State.thy ===== *)
theory Dpi_State
  imports Vey_Prelude
begin

text \<open>
  Protocol inspection, the common part: the enumerations of \<open>lib/vey-dpi/src/protocol/mod.rs\<close>, the port
  map of \<open>protocol/portmap.rs\<close>, the size limits of \<open>config/size_limit.rs\<close> and the state that the checks
  share (\<open>ProtocolInspectState\<close> in \<open>protocol/inspect.rs\<close>). The bit set of excluded protocols is a set.
\<close>

section \<open>Protocols\<close>

datatype (plugins only: code) maybe_protocol =
    MpHttp | MpSmtp | MpOdmr | MpSsh | MpFtp | MpDns | MpLdap | MpPop3 | MpNntp | MpNnsp | MpImap | MpRtsp
  | MpMqtt | MpStomp | MpSmpp | MpRtmp | MpNats | MpBitTorrent
  | MpHttps | MpSubmissions | MpPop3s | MpNntps | MpImaps | MpRtsps | MpSecureMqtt | MpSsmpp | MpRtmps
  | MpDnsOverTls | MpLdaps
  | MpSsl
  | MpMaxSize

definition maybe_protocol_is_ssl :: "maybe_protocol \<Rightarrow> bool" where
  "maybe_protocol_is_ssl p \<longleftrightarrow>
     p \<in> set [MpSsl, MpHttps, MpSubmissions, MpPop3s, MpNntps, MpImaps, MpRtsps, MpSecureMqtt, MpSsmpp, MpRtmps,
       MpDnsOverTls, MpLdaps]"

text \<open>\<open>MaybeProtocol::from_str\<close> on ASCII names: the arms of its match in order.\<close>

definition maybe_protocol_names :: "(string \<times> maybe_protocol) list" where
  "maybe_protocol_names =
     [(''http'', MpHttp), (''smtp'', MpSmtp), (''odmr'', MpOdmr), (''ssh'', MpSsh), (''ftp'', MpFtp),
      (''dns'', MpDns), (''ldap'', MpLdap), (''pop3'', MpPop3), (''nntp'', MpNntp), (''nnsp'', MpNnsp),
      (''imap'', MpImap), (''rtsp'', MpRtsp), (''mqtt'', MpMqtt), (''stomp'', MpStomp), (''smpp'', MpSmpp),
      (''rtmp'', MpRtmp), (''nats'', MpNats), (''bittorrent'', MpBitTorrent), (''bt'', MpBitTorrent),
      (''https'', MpHttps), (''http+tls'', MpHttps), (''submissions'', MpSubmissions), (''smtps'', MpSubmissions),
      (''pop3s'', MpPop3s), (''pop3+tls'', MpPop3s), (''nntps'', MpNntps), (''nntp+tls'', MpNntps),
      (''snntp'', MpNntps), (''imaps'', MpImaps), (''imap+tls'', MpImaps), (''rtsps'', MpRtsps),
      (''rtsp+tls'', MpRtsps), (''secure-mqtt'', MpSecureMqtt), (''ssmpp'', MpSsmpp), (''smpps'', MpSsmpp),
      (''secure smpp'', MpSsmpp), (''rtmps'', MpRtmps), (''rtmp+tls'', MpRtmps), (''dot'', MpDnsOverTls),
      (''dnsovertls'', MpDnsOverTls), (''dns-over-tls'', MpDnsOverTls), (''ldaps'', MpLdaps), (''ssl'', MpSsl),
      (''tls'', MpSsl)]"

definition ascii_lowercase :: "char \<Rightarrow> char" where
  "ascii_lowercase c = (let n = (of_char c :: nat) in if 65 \<le> n \<and> n \<le> 90 then char_of (n + 32) else c)"

definition maybe_protocol_from_str :: "string \<Rightarrow> maybe_protocol option" where
  "maybe_protocol_from_str s = map_of maybe_protocol_names (map ascii_lowercase s)"

datatype (plugins only: code) protocol =
    PrUnknown | PrTimeout | PrSslLegacy | PrTlsLegacy | PrTlsModern | PrTlsTlcp | PrHttp1 | PrHttp2 | PrHttp3
  | PrSmtp | PrSshLegacy | PrSsh | PrFtpControl | PrPop3 | PrNntp | PrNnsp | PrImap | PrRtsp | PrMqtt | PrStomp
  | PrSmpp | PrRtmpOverTcp | PrRtmpOverHttp | PrNats | PrBitTorrentOverTcp | PrBitTorrentOverUtp | PrWebsocket
  | PrDns | PrLdap

section \<open>The port map\<close>

record portmap_value =
  pv_check_ssl :: bool
  pv_protocols :: "maybe_protocol list"

definition portmap_value_default :: portmap_value where
  "portmap_value_default = \<lparr>pv_check_ssl = False, pv_protocols = []\<rparr>"

definition pv_push :: "portmap_value \<Rightarrow> maybe_protocol \<Rightarrow> portmap_value" where
  "pv_push v p = (if p \<in> set (pv_protocols v) then v else v\<lparr>pv_protocols := pv_protocols v @ [p]\<rparr>)"

definition portmap_value_insert :: "portmap_value \<Rightarrow> maybe_protocol \<Rightarrow> portmap_value" where
  "portmap_value_insert v protocol =
     (case protocol of
        MpSsl \<Rightarrow> v\<lparr>pv_check_ssl := True\<rparr>
      | MpHttps \<Rightarrow> pv_push (v\<lparr>pv_check_ssl := True\<rparr>) MpHttp
      | MpSubmissions \<Rightarrow> pv_push (v\<lparr>pv_check_ssl := True\<rparr>) MpSmtp
      | MpPop3s \<Rightarrow> pv_push (v\<lparr>pv_check_ssl := True\<rparr>) MpPop3
      | MpNntps \<Rightarrow> pv_push (v\<lparr>pv_check_ssl := True\<rparr>) MpNntp
      | MpImaps \<Rightarrow> pv_push (v\<lparr>pv_check_ssl := True\<rparr>) MpImap
      | MpRtsps \<Rightarrow> pv_push (v\<lparr>pv_check_ssl := True\<rparr>) MpRtsp
      | MpSecureMqtt \<Rightarrow> pv_push (v\<lparr>pv_check_ssl := True\<rparr>) MpMqtt
      | MpSsmpp \<Rightarrow> pv_push (v\<lparr>pv_check_ssl := True\<rparr>) MpSmpp
      | MpRtmps \<Rightarrow> pv_push (v\<lparr>pv_check_ssl := True\<rparr>) MpRtmp
      | MpDnsOverTls \<Rightarrow> pv_push (v\<lparr>pv_check_ssl := True\<rparr>) MpDns
      | MpLdaps \<Rightarrow> pv_push (v\<lparr>pv_check_ssl := True\<rparr>) MpLdap
      | p \<Rightarrow> pv_push v p)"

type_synonym portmap = "u16 \<rightharpoonup> portmap_value"

definition portmap_entry :: "portmap \<Rightarrow> u16 \<Rightarrow> portmap_value" where
  "portmap_entry m port = (case m port of Some v \<Rightarrow> v | None \<Rightarrow> portmap_value_default)"

definition portmap_insert_batch :: "portmap \<Rightarrow> u16 \<Rightarrow> maybe_protocol list \<Rightarrow> portmap" where
  "portmap_insert_batch m port protocols = m(port \<mapsto> foldl portmap_value_insert (portmap_entry m port) protocols)"

definition portmap_insert :: "portmap \<Rightarrow> u16 \<Rightarrow> maybe_protocol \<Rightarrow> portmap" where
  "portmap_insert m port protocol = m(port \<mapsto> portmap_value_insert (portmap_entry m port) protocol)"

definition portmap_tcp_server :: portmap where
  "portmap_tcp_server =
     foldl (\<lambda>m (port, p). portmap_insert m port p) Map.empty
       [(21, MpFtp), (22, MpSsh), (25, MpSmtp), (53, MpDns), (80, MpHttp), (110, MpPop3), (119, MpNntp),
        (143, MpImap), (322, MpRtsps), (366, MpOdmr), (389, MpLdap), (433, MpNnsp), (443, MpHttps),
        (465, MpSubmissions), (554, MpRtsp), (563, MpNntps), (587, MpSmtp), (636, MpLdaps), (853, MpDnsOverTls),
        (993, MpImaps), (995, MpPop3s), (1883, MpMqtt), (1935, MpRtmp), (2775, MpSmpp), (3550, MpSsmpp),
        (4222, MpNats), (6881, MpBitTorrent), (8080, MpHttp), (8554, MpRtsp), (8883, MpSecureMqtt)]"

definition portmap_tcp_client :: portmap where
  "portmap_tcp_client = portmap_insert Map.empty 6881 MpBitTorrent"

section \<open>The state of the checks\<close>

record size_limit =
  sl_ftp_server_greeting_msg :: nat
  sl_http_client_request_uri :: nat
  sl_imap_server_greeting_msg :: nat
  sl_nats_server_info_line :: nat
  sl_ldap_request_msg :: nat

definition size_limit_default :: size_limit where
  "size_limit_default =
     \<lparr>sl_ftp_server_greeting_msg = 512, sl_http_client_request_uri = 4096, sl_imap_server_greeting_msg = 512,
      sl_nats_server_info_line = 1024, sl_ldap_request_msg = 1024\<rparr>"

record inspect_state =
  is_current :: "maybe_protocol option"
  is_excluded :: "maybe_protocol set"

definition inspect_state_default :: inspect_state where
  "inspect_state_default = \<lparr>is_current = None, is_excluded = {}\<rparr>"

definition exclude_other :: "maybe_protocol \<Rightarrow> inspect_state \<Rightarrow> inspect_state" where
  "exclude_other p s = s\<lparr>is_excluded := insert p (is_excluded s)\<rparr>"

definition exclude_current :: "inspect_state \<Rightarrow> inspect_state" where
  "exclude_current s =
     (case is_current s of
        Some p \<Rightarrow> s\<lparr>is_current := None, is_excluded := insert p (is_excluded s)\<rparr>
      | None \<Rightarrow> s)"

definition news_protocol :: "inspect_state \<Rightarrow> protocol" where
  "news_protocol s = (case is_current s of Some MpNnsp \<Rightarrow> PrNnsp | _ \<Rightarrow> PrNntp)"

text \<open>
  A check returns the new state and \<open>Result<Option<Protocol>, NeedMoreData>\<close>; the error is the number of
  bytes asked for.
\<close>

type_synonym verdict = "inspect_state \<times> (nat, protocol option) rs"

text \<open>A run of \<open>exclude_other\<close> calls.\<close>

definition exclude_others :: "maybe_protocol list \<Rightarrow> inspect_state \<Rightarrow> inspect_state" where
  "exclude_others ps s = fold exclude_other ps s"

text \<open>\<open>self.exclude_current(); return Ok(None)\<close>, \<open>return Err(NeedMoreData(n))\<close>, \<open>return Ok(Some(p))\<close>.\<close>

definition no_match :: "inspect_state \<Rightarrow> verdict" where
  "no_match s = (exclude_current s, Ok None)"

definition need_more :: "inspect_state \<Rightarrow> nat \<Rightarrow> verdict" where
  "need_more s n = (s, Err n)"

definition found :: "inspect_state \<Rightarrow> protocol \<Rightarrow> verdict" where
  "found s p = (s, Ok (Some p))"

text \<open>A read of the data that may panic, before the check goes on.\<close>

definition sbnd :: "'s \<Rightarrow> ('e, 'a) rs \<Rightarrow> ('a \<Rightarrow> 's \<times> ('e, 'b) rs) \<Rightarrow> 's \<times> ('e, 'b) rs" where
  "sbnd s m k = (case m of Ok x \<Rightarrow> k x | Err e \<Rightarrow> (s, Err e) | Panic \<Rightarrow> (s, Panic))"

lemma sbnd_simps [simp]: "sbnd s (Ok x) k = k x" "sbnd s (Err e) k = (s, Err e)" "sbnd s Panic k = (s, Panic)"
  by (simp_all add: sbnd_def)

end
