(* ===== verification/Dpi_Text.thy ===== *)
theory Dpi_Text
  imports Dpi_State
begin

text \<open>
  The checks of text protocols on the client's first bytes: HTTP (\<open>protocol/http.rs\<close>), RTSP (\<open>rtsp.rs\<close>),
  STOMP (\<open>stomp.rs\<close>) and SSH (\<open>ssh.rs\<close>, also for the server side). The matches on the first byte and the
  method names are tables with one row per arm.
\<close>

section \<open>SSH\<close>

text \<open>The version after \<open>SSH-\<close> and the offset behind it; \<open>None\<close> where the code gives up.\<close>

definition ssh_version :: "bytes \<Rightarrow> (nat, (protocol \<times> nat) option) rs" where
  "ssh_version data =
     bnd (slice data 4 6) (\<lambda>v.
     if v = ascii ''1.'' then
       bnd (idx data 6) (\<lambda>minor.
       if minor = 0x39 then
         bnd (idx data 7) (\<lambda>d. if d = 0x39 then Ok (Some (PrSsh, 8)) else Ok (Some (PrSshLegacy, 7)))
       else if 0x30 \<le> minor \<and> minor \<le> 0x38 then Ok (Some (PrSshLegacy, 7))
       else Ok None)
     else if v = ascii ''2.'' then
       bnd (idx data 6) (\<lambda>minor. if minor \<noteq> 0x30 then Ok None else Ok (Some (PrSsh, 7)))
     else Ok None)"

text \<open>The rest of both checks, from the version on.\<close>

definition ssh_after_name :: "inspect_state \<Rightarrow> bytes \<Rightarrow> verdict" where
  "ssh_after_name s data =
     sbnd s (ssh_version data) (\<lambda>v.
     case v of None \<Rightarrow> no_match s
     | Some (protocol, offset) \<Rightarrow>
         sbnd s (idx data offset) (\<lambda>d.
         if d \<noteq> 0x2D then no_match s
         else
           sbnd s (usub (length data) 1) (\<lambda>l1. sbnd s (idx data l1) (\<lambda>last1.
           if last1 \<noteq> 0x0A then
             if length data < 255 then need_more s 1 else no_match s
           else
             sbnd s (idx data 7) (\<lambda>d7.
             if d7 \<noteq> 0x39 then
               sbnd s (usub (length data) 2) (\<lambda>l2. sbnd s (idx data l2) (\<lambda>last2.
               if last2 \<noteq> 0x0D then no_match s else found s protocol))
             else found s protocol)))))"

definition check_ssh_client_protocol_version_exchange :: "inspect_state \<Rightarrow> bytes \<Rightarrow> verdict" where
  "check_ssh_client_protocol_version_exchange s data =
     (if length data < 11 then need_more s (11 - length data)
      else
        sbnd s (idx data 0) (\<lambda>b.
        if b \<noteq> 0x53 then no_match s
        else
          let s = exclude_others [MpSsl, MpMqtt, MpStomp, MpSmpp, MpRtmp, MpBitTorrent, MpLdap] s in
          sbnd s (slice data 1 4) (\<lambda>n.
          if n \<noteq> ascii ''SH-'' then no_match s
          else ssh_after_name (exclude_others [MpHttp, MpRtsp] s) data)))"

definition check_ssh_server_protocol_version_exchange :: "inspect_state \<Rightarrow> bytes \<Rightarrow> verdict" where
  "check_ssh_server_protocol_version_exchange s data =
     (if length data < 11 then need_more s (11 - length data)
      else
        sbnd s (slice data 0 4) (\<lambda>n.
        if n \<noteq> ascii ''SSH-'' then no_match s
        else
          ssh_after_name
            (exclude_others [MpFtp, MpSmtp, MpOdmr, MpPop3, MpNntp, MpNnsp, MpImap, MpNats, MpBitTorrent] s) data))"

section \<open>STOMP\<close>

definition check_stomp_connect_method :: "inspect_state \<Rightarrow> bytes \<Rightarrow> verdict" where
  "check_stomp_connect_method s data =
     (let s = exclude_others [MpSsl, MpSsh, MpRtsp, MpMqtt, MpSmpp, MpRtmp, MpBitTorrent, MpLdap] s in
      sbnd s (slice data 1 7) (\<lambda>n.
      if n \<noteq> ascii ''ONNECT'' then no_match s
      else
        let after_method = (\<lambda>s offset.
          if length data < offset + 2 then need_more s (offset + 2 - length data) else found s PrStomp) in
        sbnd s (idx data 7) (\<lambda>c.
        if c = 0x0D then
          let s = exclude_other MpHttp s in
          sbnd s (idx data 8) (\<lambda>d. if d \<noteq> 0x0A then no_match s else after_method s 9)
        else if c = 0x0A then after_method (exclude_other MpHttp s) 8
        else no_match s)))"

definition check_stomp_stomp_method :: "inspect_state \<Rightarrow> bytes \<Rightarrow> verdict" where
  "check_stomp_stomp_method s data =
     (let s = exclude_others [MpSsl, MpSsh, MpMqtt, MpSmpp, MpRtmp, MpBitTorrent, MpLdap] s in
      sbnd s (slice data 1 5) (\<lambda>n.
      if n \<noteq> ascii ''TOMP'' then no_match s
      else
        let s = exclude_others [MpHttp, MpRtsp] s;
            after_method = (\<lambda>offset.
              if length data < offset + 26 then need_more s (offset + 26 - length data) else found s PrStomp) in
        sbnd s (idx data 5) (\<lambda>c.
        if c = 0x0D then sbnd s (idx data 6) (\<lambda>d. if d \<noteq> 0x0A then no_match s else after_method 7)
        else if c = 0x0A then after_method 6
        else no_match s)))"

definition check_stomp_client_connect_request :: "inspect_state \<Rightarrow> bytes \<Rightarrow> verdict" where
  "check_stomp_client_connect_request s data =
     (if length data < 10 then need_more s (10 - length data)
      else
        sbnd s (idx data 0) (\<lambda>b.
        if b = 0x43 then check_stomp_connect_method s data
        else if b = 0x53 then check_stomp_stomp_method s data
        else no_match s))"

section \<open>RTSP\<close>

text \<open>
  A row is the first byte and the methods tried for it, each with the protocols it excludes; the offset of
  the URI is the length of the method.
\<close>

definition rtsp_arms :: "(u8 \<times> (string \<times> maybe_protocol list) list) list" where
  "rtsp_arms =
     [(0x41, [(''ANNOUNCE '', [MpHttp])]),
      (0x44, [(''DESCRIBE '', [MpHttp])]),
      (0x47, [(''GET_PARAMETER '', [MpHttp])]),
      (0x4F, [(''OPTIONS '', [])]),
      (0x50, [(''PAUSE '', [MpHttp]), (''PLAY '', [MpHttp])]),
      (0x52, [(''RECORD '', [MpHttp]), (''REDIRECT '', [MpHttp])]),
      (0x53, [(''SET_PARAMETER '', [MpHttp]), (''SETUP '', [MpHttp])]),
      (0x54, [(''TEARDOWN '', [MpHttp])])]"

definition rtsp_exclude_by_byte0 :: "inspect_state \<Rightarrow> inspect_state" where
  "rtsp_exclude_by_byte0 s = exclude_others [MpSsl, MpMqtt, MpSmpp, MpRtmp, MpBitTorrent, MpLdap] s"

definition check_rtsp_after_method :: "inspect_state \<Rightarrow> bytes \<Rightarrow> nat \<Rightarrow> verdict" where
  "check_rtsp_after_method s data uri_offset =
     sbnd s (slice_from data uri_offset) (\<lambda>rest.
     let rtsp_uri = starts_with rest (ascii ''rtsp://'');
         options_star = starts_with data (ascii ''OPTIONS '') \<and> starts_with rest (ascii ''* RTSP/'') in
     if \<not> rtsp_uri \<and> \<not> options_star then no_match s
     else found (exclude_others [MpSsh, MpHttp, MpStomp] s) PrRtsp)"

definition check_rtsp_client_setup_request :: "inspect_state \<Rightarrow> bytes \<Rightarrow> verdict" where
  "check_rtsp_client_setup_request s data =
     (if length data < 25 then need_more s (25 - length data)
      else
        sbnd s (idx data 0) (\<lambda>b.
        case map_of rtsp_arms b of
          None \<Rightarrow> no_match s
        | Some methods \<Rightarrow>
            let s = rtsp_exclude_by_byte0 s in
            case find (\<lambda>(m, _). starts_with data (ascii m)) methods of
              None \<Rightarrow> no_match s
            | Some (m, others) \<Rightarrow> check_rtsp_after_method (exclude_others others s) data (length m)))"

section \<open>HTTP\<close>

text \<open>
  A row is the first byte, the protocols excluded for it, and the methods tried in order, each with the
  protocols excluded once it matched.
\<close>

type_synonym http_arm = "u8 \<times> maybe_protocol list \<times> (string \<times> maybe_protocol list) list"

definition http_arms_a_h :: "http_arm list" where
  "http_arms_a_h =
     [(0x41, [MpSsh, MpStomp], [(''ACL '', [MpRtsp])]),
      (0x42, [MpSsh, MpRtsp, MpStomp], [(''BIND '', []), (''BASELINE-CONTROL '', [])]),
      (0x43, [MpSsh, MpRtsp],
         [(''CONNECT '', [MpStomp]), (''COPY '', [MpStomp]), (''CHECKIN '', [MpStomp]), (''CHECKOUT '', [MpStomp])]),
      (0x44, [MpSsh, MpStomp], [(''DELETE '', [MpRtsp])]),
      (0x47, [MpSsh, MpStomp], [(''GET '', [MpRtsp])]),
      (0x48, [MpSsh, MpRtsp, MpStomp], [(''HEAD '', [])])]"

definition http_arms_l_p :: "http_arm list" where
  "http_arms_l_p =
     [(0x4C, [MpSsh, MpRtsp, MpStomp], [(''LOCK '', []), (''LINK '', []), (''LABEL '', [])]),
      (0x4D, [MpSsh, MpRtsp, MpStomp],
         [(''MOVE '', []), (''MKCOL '', []), (''MERGE '', []), (''MKACTIVITY '', []), (''MKCALENDAR '', []),
          (''MKREDIRECTREF '', []), (''MKWORKSPACE '', [])]),
      (0x4F, [MpSsh, MpStomp], [(''OPTIONS '', []), (''ORDERPATCH '', [MpRtsp])]),
      (0x50, [MpSsh, MpStomp],
         [(''POST '', [MpRtsp]), (''PUT '', [MpRtsp]), (''PRI '', [MpRtsp]), (''PROPFIND '', [MpRtsp]),
          (''PROPPATCH '', [MpRtsp]), (''PATCH '', [MpRtsp])])]"

definition http_arms_q_v :: "http_arm list" where
  "http_arms_q_v =
     [(0x51, [MpSsh, MpRtsp, MpStomp], [(''QUERY '', [])]),
      (0x52, [MpSsh, MpStomp], [(''REPORT '', [MpRtsp]), (''REBIND '', [MpRtsp])]),
      (0x53, [], [(''SEARCH '', [MpSsh, MpRtsp, MpStomp]), (''SOURCE '', [MpSsh, MpRtsp, MpStomp])]),
      (0x54, [MpSsh, MpStomp], [(''TRACE '', [MpRtsp])]),
      (0x55, [MpSsh, MpRtsp, MpStomp],
         [(''UNLOCK '', []), (''UNBIND '', []), (''UNCHECKOUT '', []), (''UNLINK '', []), (''UPDATE '', []),
          (''UPDATEREDIRECTREF '', [])]),
      (0x56, [MpSsh, MpRtsp, MpStomp], [(''VERSION-CONTROL '', [])])]"

definition http_arms :: "http_arm list" where
  "http_arms = http_arms_a_h @ http_arms_l_p @ http_arms_q_v"

definition http_exclude_by_byte0 :: "inspect_state \<Rightarrow> inspect_state" where
  "http_exclude_by_byte0 s = exclude_others [MpSsl, MpMqtt, MpSmpp, MpRtmp, MpBitTorrent, MpLdap] s"

definition check_http1_after_url :: "inspect_state \<Rightarrow> bytes \<Rightarrow> nat \<Rightarrow> verdict" where
  "check_http1_after_url s data version_offset =
     (let minimum_len = 12 + version_offset in
      if length data < minimum_len then need_more s (minimum_len - length data)
      else
        sbnd s (slice_from data version_offset) (\<lambda>left.
        sbnd s (idx left 7) (\<lambda>l7. sbnd s (idx left 8) (\<lambda>l8. sbnd s (idx left 9) (\<lambda>l9.
        if starts_with left (ascii ''HTTP/1.'') \<and> (l7 = 0x30 \<or> l7 = 0x31) \<and> l8 = 0x0D \<and> l9 = 0x0A
        then found s PrHttp1
        else no_match s)))))"

definition check_http1_after_method :: "inspect_state \<Rightarrow> bytes \<Rightarrow> nat \<Rightarrow> size_limit \<Rightarrow> verdict" where
  "check_http1_after_method s data url_offset sl =
     (let minimum_len = 14 + url_offset in
      if length data < minimum_len then need_more s (minimum_len - length data)
      else
        sbnd s (usub url_offset 1) (\<lambda>e. sbnd s (slice data 0 e) (\<lambda>_.
        sbnd s (slice_from data url_offset) (\<lambda>left.
        case memchr 0x20 left of
          Some p \<Rightarrow> check_http1_after_url s data (url_offset + p + 1)
        | None \<Rightarrow> if sl_http_client_request_uri sl < length left then no_match s else need_more s 1))))"

text \<open>\<open>b"PRI * HTTP/2.0\r\n\r\nSM\r\n\r\n"\<close>.\<close>

definition h2_connection_preface :: bytes where
  "h2_connection_preface =
     ascii ''PRI * HTTP/2.0'' @ [0x0D, 0x0A, 0x0D, 0x0A] @ ascii ''SM'' @ [0x0D, 0x0A, 0x0D, 0x0A]"

definition check_http2_connection_preface :: "inspect_state \<Rightarrow> bytes \<Rightarrow> verdict" where
  "check_http2_connection_preface s data =
     (if length data < length h2_connection_preface then need_more s (length h2_connection_preface - length data)
      else if \<not> starts_with data h2_connection_preface then (s, Ok None)
      else found s PrHttp2)"

definition check_http_request :: "inspect_state \<Rightarrow> bytes \<Rightarrow> size_limit \<Rightarrow> verdict" where
  "check_http_request s data sl =
     (if length data < 18 then need_more s (18 - length data)
      else
        sbnd s (idx data 0) (\<lambda>b.
        case map_of http_arms b of
          None \<Rightarrow> no_match s
        | Some (others, methods) \<Rightarrow>
            let s = exclude_others others (http_exclude_by_byte0 s) in
            case find (\<lambda>(m, _). starts_with data (ascii m)) methods of
              None \<Rightarrow> no_match s
            | Some (m, others) \<Rightarrow>
                let s = exclude_others others s in
                if m = ''PRI '' then check_http2_connection_preface s data
                else check_http1_after_method s data (length m) sl))"

end
