(* ===== verification/Dpi_Contract.thy ===== *)
theory Dpi_Contract
  imports Dpi_Text
begin

text \<open>
  The contract of a protocol check, against a table of the byte prefixes that each protocol can start
  with. A check must not panic, must ask for a positive number of bytes, must find its protocol only on
  data with one of the prefixes, and may exclude another protocol only when no continuation of the data
  has one of that protocol's prefixes. SSH and STOMP do not keep the last clause towards each other, which
  the contract names as its only exception.
\<close>

section \<open>Prefixes\<close>

definition client_prefixes :: "maybe_protocol \<Rightarrow> bytes list" where
  "client_prefixes p =
     (case p of
        MpSsl \<Rightarrow> [[0x16]]
      | MpSsh \<Rightarrow> [ascii ''SSH-'']
      | MpHttp \<Rightarrow> concat (map (\<lambda>(b, _, ms). map (\<lambda>(m, _). ascii m) ms) http_arms)
      | MpRtsp \<Rightarrow> (ascii ''OPTIONS * RTSP/'') #
          concat (map (\<lambda>(b, ms). map (\<lambda>(m, _). ascii m @ ascii ''rtsp://'') ms) rtsp_arms)
      | MpStomp \<Rightarrow> [ascii ''CONNECT'' @ [0x0D, 0x0A], ascii ''CONNECT'' @ [0x0A],
          ascii ''STOMP'' @ [0x0D, 0x0A], ascii ''STOMP'' @ [0x0A]]
      | MpMqtt \<Rightarrow> [[0x10]]
      | MpLdap \<Rightarrow> [[0x30]]
      | MpSmpp \<Rightarrow> [[0x00]]
      | MpRtmp \<Rightarrow> [[0x03]]
      | MpBitTorrent \<Rightarrow> [0x13 # ascii ''BitTorrent protocol'']
      | MpDns \<Rightarrow> [[]]
      | _ \<Rightarrow> [])"

definition server_prefixes :: "maybe_protocol \<Rightarrow> bytes list" where
  "server_prefixes p =
     (case p of
        MpSsh \<Rightarrow> [ascii ''SSH-'']
      | MpFtp \<Rightarrow> [ascii ''120'', ascii ''220'', ascii ''421'']
      | MpSmtp \<Rightarrow> [ascii ''220'', ascii ''554'']
      | MpOdmr \<Rightarrow> [ascii ''220'', ascii ''554'']
      | MpPop3 \<Rightarrow> [ascii ''+OK'']
      | MpNntp \<Rightarrow> [ascii ''200'', ascii ''201'']
      | MpNnsp \<Rightarrow> [ascii ''200'', ascii ''201'']
      | MpImap \<Rightarrow> [ascii ''* OK'', ascii ''* PREAUTH'', ascii ''* BYE'']
      | MpNats \<Rightarrow> [ascii ''INFO {'']
      | MpBitTorrent \<Rightarrow> [0x13 # ascii ''BitTorrent protocol'']
      | _ \<Rightarrow> [])"

definition has_prefix :: "bytes list \<Rightarrow> bytes \<Rightarrow> bool" where
  "has_prefix xs d \<longleftrightarrow> list_ex (starts_with d) xs"

text \<open>Two prefixes that no data can both have; \<open>rules_out m xs\<close> is checked by evaluation.\<close>

definition clash :: "bytes \<Rightarrow> bytes \<Rightarrow> bool" where
  "clash x y \<longleftrightarrow> \<not> starts_with x y \<and> \<not> starts_with y x"

definition rules_out :: "bytes \<Rightarrow> bytes list \<Rightarrow> bool" where
  "rules_out m xs \<longleftrightarrow> list_all (clash m) xs"

text \<open>The tables as byte lists, for the evaluation of \<open>rules_out\<close> by the simplifier.\<close>

named_theorems prefix_eval

lemma http_prefixes [prefix_eval]:
  "client_prefixes MpHttp =
     [[65, 67, 76, 32],
      [66, 73, 78, 68, 32],
      [66, 65, 83, 69, 76, 73, 78, 69, 45, 67, 79, 78, 84, 82, 79, 76, 32],
      [67, 79, 78, 78, 69, 67, 84, 32],
      [67, 79, 80, 89, 32],
      [67, 72, 69, 67, 75, 73, 78, 32],
      [67, 72, 69, 67, 75, 79, 85, 84, 32],
      [68, 69, 76, 69, 84, 69, 32],
      [71, 69, 84, 32],
      [72, 69, 65, 68, 32],
      [76, 79, 67, 75, 32],
      [76, 73, 78, 75, 32],
      [76, 65, 66, 69, 76, 32],
      [77, 79, 86, 69, 32],
      [77, 75, 67, 79, 76, 32],
      [77, 69, 82, 71, 69, 32],
      [77, 75, 65, 67, 84, 73, 86, 73, 84, 89, 32],
      [77, 75, 67, 65, 76, 69, 78, 68, 65, 82, 32],
      [77, 75, 82, 69, 68, 73, 82, 69, 67, 84, 82, 69, 70, 32],
      [77, 75, 87, 79, 82, 75, 83, 80, 65, 67, 69, 32],
      [79, 80, 84, 73, 79, 78, 83, 32],
      [79, 82, 68, 69, 82, 80, 65, 84, 67, 72, 32],
      [80, 79, 83, 84, 32],
      [80, 85, 84, 32],
      [80, 82, 73, 32],
      [80, 82, 79, 80, 70, 73, 78, 68, 32],
      [80, 82, 79, 80, 80, 65, 84, 67, 72, 32],
      [80, 65, 84, 67, 72, 32],
      [81, 85, 69, 82, 89, 32],
      [82, 69, 80, 79, 82, 84, 32],
      [82, 69, 66, 73, 78, 68, 32],
      [83, 69, 65, 82, 67, 72, 32],
      [83, 79, 85, 82, 67, 69, 32],
      [84, 82, 65, 67, 69, 32],
      [85, 78, 76, 79, 67, 75, 32],
      [85, 78, 66, 73, 78, 68, 32],
      [85, 78, 67, 72, 69, 67, 75, 79, 85, 84, 32],
      [85, 78, 76, 73, 78, 75, 32],
      [85, 80, 68, 65, 84, 69, 32],
      [85, 80, 68, 65, 84, 69, 82, 69, 68, 73, 82, 69, 67, 84, 82, 69, 70, 32],
      [86, 69, 82, 83, 73, 79, 78, 45, 67, 79, 78, 84, 82, 79, 76, 32]]"
  by (simp add: client_prefixes_def http_arms_def http_arms_a_h_def http_arms_l_p_def http_arms_q_v_def)

lemma rtsp_prefixes [prefix_eval]:
  "client_prefixes MpRtsp =
     [[79, 80, 84, 73, 79, 78, 83, 32, 42, 32, 82, 84, 83, 80, 47],
      [65, 78, 78, 79, 85, 78, 67, 69, 32, 114, 116, 115, 112, 58, 47, 47],
      [68, 69, 83, 67, 82, 73, 66, 69, 32, 114, 116, 115, 112, 58, 47, 47],
      [71, 69, 84, 95, 80, 65, 82, 65, 77, 69, 84, 69, 82, 32, 114, 116, 115, 112, 58, 47, 47],
      [79, 80, 84, 73, 79, 78, 83, 32, 114, 116, 115, 112, 58, 47, 47],
      [80, 65, 85, 83, 69, 32, 114, 116, 115, 112, 58, 47, 47],
      [80, 76, 65, 89, 32, 114, 116, 115, 112, 58, 47, 47],
      [82, 69, 67, 79, 82, 68, 32, 114, 116, 115, 112, 58, 47, 47],
      [82, 69, 68, 73, 82, 69, 67, 84, 32, 114, 116, 115, 112, 58, 47, 47],
      [83, 69, 84, 95, 80, 65, 82, 65, 77, 69, 84, 69, 82, 32, 114, 116, 115, 112, 58, 47, 47],
      [83, 69, 84, 85, 80, 32, 114, 116, 115, 112, 58, 47, 47],
      [84, 69, 65, 82, 68, 79, 87, 78, 32, 114, 116, 115, 112, 58, 47, 47]]"
  by (simp add: client_prefixes_def rtsp_arms_def)

lemma client_prefixes_simps [prefix_eval]:
  "client_prefixes MpSsl = [[22]]" "client_prefixes MpSsh = [[83, 83, 72, 45]]" "client_prefixes MpMqtt = [[16]]"
  "client_prefixes MpLdap = [[48]]" "client_prefixes MpSmpp = [[0]]" "client_prefixes MpRtmp = [[3]]"
  "client_prefixes MpDns = [[]]" "client_prefixes MpBitTorrent = [19 # ascii ''BitTorrent protocol'']"
  "client_prefixes MpStomp = [ascii ''CONNECT'' @ [13, 10], ascii ''CONNECT'' @ [10], ascii ''STOMP'' @ [13, 10], ascii ''STOMP'' @ [10]]"
  "client_prefixes MpFtp = []" "client_prefixes MpSmtp = []" "client_prefixes MpOdmr = []" "client_prefixes MpPop3 = []"
  "client_prefixes MpNntp = []" "client_prefixes MpNnsp = []" "client_prefixes MpImap = []" "client_prefixes MpNats = []"
  by (simp_all add: client_prefixes_def)

lemma server_prefixes_simps [prefix_eval]:
  "server_prefixes MpSsh = [[83, 83, 72, 45]]" "server_prefixes MpFtp = [[49, 50, 48], [50, 50, 48], [52, 50, 49]]"
  "server_prefixes MpSmtp = [[50, 50, 48], [53, 53, 52]]" "server_prefixes MpOdmr = [[50, 50, 48], [53, 53, 52]]"
  "server_prefixes MpPop3 = [[43, 79, 75]]" "server_prefixes MpNntp = [[50, 48, 48], [50, 48, 49]]"
  "server_prefixes MpNnsp = [[50, 48, 48], [50, 48, 49]]"
  "server_prefixes MpImap = [ascii ''* OK'', ascii ''* PREAUTH'', ascii ''* BYE'']"
  "server_prefixes MpNats = [ascii ''INFO {'']" "server_prefixes MpBitTorrent = [19 # ascii ''BitTorrent protocol'']"
  "server_prefixes MpSsl = []" "server_prefixes MpHttp = []" "server_prefixes MpRtsp = []" "server_prefixes MpMqtt = []"
  "server_prefixes MpStomp = []" "server_prefixes MpSmpp = []" "server_prefixes MpRtmp = []" "server_prefixes MpLdap = []"
  "server_prefixes MpDns = []"
  by (simp_all add: server_prefixes_def)

declare rules_out_def [prefix_eval]

lemma clash_simps [prefix_eval]:
  "clash [] y \<longleftrightarrow> False" "clash x [] \<longleftrightarrow> False" "clash (a # x) (b # y) \<longleftrightarrow> (if a = b then clash x y else True)"
  by (auto simp: clash_def)

lemma starts_with_clash:
  assumes "starts_with d m" and "clash m x"
  shows "\<not> starts_with (d @ e) x"
proof
  assume "starts_with (d @ e) x"
  moreover have "starts_with (d @ e) m" by (rule starts_with_append [OF assms(1)])
  ultimately obtain r r' where "x @ r = m @ r'" by (metis starts_with_iff)
  then have "starts_with m x \<or> starts_with x m"
    unfolding starts_with_iff by (auto simp: append_eq_append_conv2)
  then show False using assms(2) by (simp add: clash_def)
qed

lemma rules_out_prefix: "starts_with d m \<Longrightarrow> rules_out m xs \<Longrightarrow> \<not> has_prefix xs (d @ e)"
  using starts_with_clash by (auto simp: rules_out_def has_prefix_def list_all_iff list_ex_iff)

lemma starts_with_byte: "d \<noteq> [] \<Longrightarrow> d ! 0 = b \<Longrightarrow> starts_with d [b]"
  by (cases d) auto

lemma starts_with_take: "take n d = x \<Longrightarrow> length x = n \<Longrightarrow> starts_with d x"
  unfolding starts_with_iff by (metis append_take_drop_id)

lemma starts_with_next: "starts_with d x \<Longrightarrow> length x = n \<Longrightarrow> n < length d \<Longrightarrow> starts_with d (x @ [d ! n])"
  by (auto simp add: starts_with_def take_Suc_conv_app_nth)

lemma starts_with_slice:
  "starts_with d x \<Longrightarrow> take n (drop (length x) d) = y \<Longrightarrow> length y = n \<Longrightarrow> starts_with d (x @ y)"
  unfolding starts_with_iff by (metis append.assoc append_eq_conv_conj append_take_drop_id)

section \<open>The effect on the state\<close>

lemma exclude_others_simps [simp]:
  "is_excluded (exclude_others ps s) = set ps \<union> is_excluded s"
  "is_current (exclude_others ps s) = is_current s"
proof -
  have "is_excluded (fold exclude_other ps s) = set ps \<union> is_excluded s \<and> is_current (fold exclude_other ps s) = is_current s"
    by (induction ps arbitrary: s) (auto simp: exclude_other_def)
  then show "is_excluded (exclude_others ps s) = set ps \<union> is_excluded s" "is_current (exclude_others ps s) = is_current s"
    by (simp_all add: exclude_others_def)
qed

lemma exclude_other_simps [simp]:
  "is_excluded (exclude_other p s) = insert p (is_excluded s)" "is_current (exclude_other p s) = is_current s"
  by (simp_all add: exclude_other_def)

lemma exclude_current_simps [simp]:
  "is_excluded (exclude_current s) = is_excluded s \<union> set_option (is_current s)"
    "is_current (exclude_current s) = None"
  by (auto simp: exclude_current_def split: option.splits)

lemma verdict_simps [simp]:
  "snd (no_match s) = Ok None" "fst (no_match s) = exclude_current s"
  "snd (need_more s n) = Err n" "fst (need_more s n) = s"
  "snd (found s p) = Ok (Some p)" "fst (found s p) = s"
  by (simp_all add: no_match_def need_more_def found_def)

text \<open>Two runs from different states with the same result.\<close>

definition same :: "'s \<times> ('e, 'a) rs \<Rightarrow> 's \<times> ('e, 'a) rs \<Rightarrow> bool" where
  "same v w \<longleftrightarrow> snd v = snd w"

lemma same_verdicts: "same (no_match s) (no_match s')" "same (need_more s n) (need_more s' n)"
    "same (found s p) (found s' p)" "same (s, r) (s', r)"
  by (simp_all add: same_def)

lemma same_sbnd: "(\<And>x. same (k x) (k' x)) \<Longrightarrow> same (sbnd s m k) (sbnd s' m k')"
  by (cases m) (simp_all add: same_def)

lemma same_if: "same a a' \<Longrightarrow> same b b' \<Longrightarrow> same (if c then a else b) (if c then a' else b')"
  by simp

lemma same_option: "same a a' \<Longrightarrow> (\<And>x. same (b x) (b' x)) \<Longrightarrow>
    same (case v of None \<Rightarrow> a | Some x \<Rightarrow> b x) (case v of None \<Rightarrow> a' | Some x \<Rightarrow> b' x)"
  by (cases v) simp_all

lemma same_prod: "(\<And>x y. same (b x y) (b' x y)) \<Longrightarrow> same (case v of (x, y) \<Rightarrow> b x y) (case v of (x, y) \<Rightarrow> b' x y)"
  by (cases v) simp

lemma same_rs: "(\<And>x. same (a x) (a' x)) \<Longrightarrow> (\<And>x. same (b x) (b' x)) \<Longrightarrow> same c c' \<Longrightarrow>
    same (case v of Ok x \<Rightarrow> a x | Err x \<Rightarrow> b x | Panic \<Rightarrow> c) (case v of Ok x \<Rightarrow> a' x | Err x \<Rightarrow> b' x | Panic \<Rightarrow> c')"
  by (cases v) simp_all

lemmas same_intros = same_verdicts same_sbnd same_if same_option same_prod same_rs

section \<open>The contract\<close>

text \<open>
  \<open>excluding P self s d t\<close>: the state \<open>t\<close> comes from \<open>s\<close> by exclusions of other protocols that the data
  \<open>d\<close> justifies.
\<close>

definition justified :: "(maybe_protocol \<Rightarrow> bytes list) \<Rightarrow> maybe_protocol \<Rightarrow> bytes \<Rightarrow> maybe_protocol \<Rightarrow> bool" where
  "justified P self d q \<longleftrightarrow> {self, q} = {MpSsh, MpStomp} \<or> (\<forall>e. \<not> has_prefix (P q) (d @ e))"

definition extends :: "inspect_state \<Rightarrow> inspect_state \<Rightarrow> bool" where
  "extends s t \<longleftrightarrow> is_current t = is_current s \<and> is_excluded s \<subseteq> is_excluded t"

definition excluding ::
    "(maybe_protocol \<Rightarrow> bytes list) \<Rightarrow> maybe_protocol \<Rightarrow> inspect_state \<Rightarrow> bytes \<Rightarrow> inspect_state \<Rightarrow> bool" where
  "excluding P self s d t \<longleftrightarrow> extends s t \<and>
     (\<forall>q \<in> is_excluded t - is_excluded s. justified P self d q)"

definition verdict_ok ::
    "(maybe_protocol \<Rightarrow> bytes list) \<Rightarrow> maybe_protocol \<Rightarrow> inspect_state \<Rightarrow> bytes \<Rightarrow> verdict \<Rightarrow> bool" where
  "verdict_ok P self s d v \<longleftrightarrow>
     snd v \<noteq> Panic \<and> (\<forall>n. snd v = Err n \<longrightarrow> 0 < n) \<and> is_excluded s \<subseteq> is_excluded (fst v) \<and>
     is_current (fst v) \<in> {None, is_current s} \<and>
     (\<forall>p. snd v = Ok (Some p) \<longrightarrow> has_prefix (P self) d \<and> p \<noteq> PrUnknown) \<and>
     ((\<forall>p. snd v \<noteq> Ok (Some p)) \<longrightarrow>
        (\<forall>q \<in> is_excluded (fst v) - is_excluded s. is_current s = Some q \<or> justified P self d q))"

lemma extends_simps [simp]: "extends s s" "extends s t \<Longrightarrow> extends s (exclude_other q t)"
    "extends s t \<Longrightarrow> extends s (exclude_others qs t)"
  by (auto simp: extends_def)

lemma excluding_extends: "excluding P self s d t \<Longrightarrow> extends s t"
  by (simp add: excluding_def)

lemma excluding_refl [intro, simp]: "excluding P self s d s"
  by (simp add: excluding_def)

lemma excluding_others:
  assumes "excluding P self s d t" and "starts_with d m"
    and "list_all (\<lambda>q. rules_out m (P q) \<or> self = MpSsh \<and> q = MpStomp \<or> self = MpStomp \<and> q = MpSsh) ps"
  shows "excluding P self s d (exclude_others ps t)"
  using assms(1,3) rules_out_prefix [OF assms(2)] by (auto simp: excluding_def extends_def justified_def list_all_iff)

lemma excluding_other:
  assumes "excluding P self s d t" and "starts_with d m" and "rules_out m (P q)"
  shows "excluding P self s d (exclude_other q t)"
  using assms(1) rules_out_prefix [OF assms(2,3)] by (auto simp: excluding_def extends_def justified_def)

lemma ok_no_match [simp]: "excluding P self s d t \<Longrightarrow> verdict_ok P self s d (no_match t)"
  by (auto simp: verdict_ok_def excluding_def extends_def)

lemma ok_need_more [simp]: "excluding P self s d t \<Longrightarrow> 0 < n \<Longrightarrow> verdict_ok P self s d (need_more t n)"
  by (auto simp: verdict_ok_def excluding_def extends_def)

lemma ok_none [simp]: "excluding P self s d t \<Longrightarrow> verdict_ok P self s d (t, Ok None)"
  by (auto simp: verdict_ok_def excluding_def extends_def)

lemma ok_found [simp]:
  "extends s t \<Longrightarrow> has_prefix (P self) d \<Longrightarrow> p \<noteq> PrUnknown \<Longrightarrow> verdict_ok P self s d (found t p)"
  by (auto simp: verdict_ok_def extends_def)

lemma has_prefixI: "starts_with d m \<Longrightarrow> m \<in> set xs \<Longrightarrow> has_prefix xs d"
  by (auto simp: has_prefix_def list_ex_iff)

locale protocol_check =
  fixes prefixes :: "maybe_protocol \<Rightarrow> bytes list"
    and self :: maybe_protocol
    and check :: "inspect_state \<Rightarrow> bytes \<Rightarrow> verdict"
  assumes check_ok: "verdict_ok prefixes self s d (check s d)"
    and check_same: "is_current s = is_current s' \<Longrightarrow> same (check s d) (check s' d)"
begin

lemma check_not_Panic: "snd (check s d) \<noteq> Panic"
  using check_ok by (simp add: verdict_ok_def)

lemma check_need: "snd (check s d) = Err n \<Longrightarrow> 0 < n"
  using check_ok [of s d] by (simp add: verdict_ok_def)

lemma check_keeps: "is_excluded s \<subseteq> is_excluded (fst (check s d))"
  using check_ok by (simp add: verdict_ok_def)

lemma check_current: "is_current (fst (check s d)) \<in> {None, is_current s}"
  using check_ok [of s d] by (simp add: verdict_ok_def)

lemma check_found: "snd (check s d) = Ok (Some p) \<Longrightarrow> has_prefix (prefixes self) d \<and> p \<noteq> PrUnknown"
  using check_ok [of s d] by (simp add: verdict_ok_def)

text \<open>An exclusion of another protocol is final: no continuation of the data is that protocol.\<close>

lemma check_excludes:
  assumes "q \<in> is_excluded (fst (check s d))" and "q \<notin> is_excluded s" and "is_current s \<noteq> Some q"
    and "{self, q} \<noteq> {MpSsh, MpStomp}" and "\<forall>p. snd (check s d) \<noteq> Ok (Some p)"
  shows "\<not> has_prefix (prefixes q) (d @ e)"
  using check_ok [of s d] assms by (auto simp: verdict_ok_def justified_def)

end

end
