(* ===== verification/Dpi_Check_Text.thy ===== *)
theory Dpi_Check_Text
  imports Dpi_Contract
begin

text \<open>
  The checks of \<open>Dpi_Text\<close> keep the contract of \<open>Dpi_Contract\<close>.
\<close>

lemma find_SomeD: "find P xs = Some x \<Longrightarrow> P x \<and> x \<in> set xs"
  by (induction xs) (auto split: if_splits)

lemma ssh_version_cases:
  assumes "8 \<le> length data"
  shows "ssh_version data = Ok None \<or> (\<exists>p n. ssh_version data = Ok (Some (p, n)) \<and> n \<le> 8 \<and> p \<in> {PrSsh, PrSshLegacy})"
  using assms by (auto simp: ssh_version_def)

lemma ssh_after_name_same: "same (ssh_after_name s data) (ssh_after_name s' data)"
  unfolding ssh_after_name_def by (intro same_intros)

lemma ssh_after_name_ok:
  assumes "11 \<le> length d" and "excluding P self s d t" and "has_prefix (P self) d"
  shows "verdict_ok P self s d (ssh_after_name t d)"
proof -
  have sub: "extends s t" by (rule excluding_extends [OF assms(2)])
  have "8 \<le> length d" using assms(1) by simp
  then consider "ssh_version d = Ok None"
    | p n where "ssh_version d = Ok (Some (p, n))" "n \<le> 8" "p \<noteq> PrUnknown"
    using ssh_version_cases [of d] by blast
  then show ?thesis
  proof cases
    case 1
    then show ?thesis using assms(2) by (simp add: ssh_after_name_def ok_no_match)
  next
    case 2
    then show ?thesis using assms sub
      by (simp add: ssh_after_name_def ok_no_match ok_need_more ok_found)
  qed
qed

lemma ssh_client_ok: "verdict_ok client_prefixes MpSsh s d (check_ssh_client_protocol_version_exchange s d)"
proof (cases "length d < 11")
  case False
  then have L: "11 \<le> length d" "d \<noteq> []" by auto
  let ?t = "exclude_others [MpSsl, MpMqtt, MpStomp, MpSmpp, MpRtmp, MpBitTorrent, MpLdap] s"
  have "excluding client_prefixes MpSsh s d ?t" if "d ! 0 = 0x53"
    by (rule excluding_others [OF _ starts_with_byte [OF L(2) that]]) (simp, simp add: prefix_eval)
  moreover have "excluding client_prefixes MpSsh s d (exclude_others [MpHttp, MpRtsp] ?t)"
    if "excluding client_prefixes MpSsh s d ?t" "starts_with d (ascii ''SSH-'')"
    by (rule excluding_others [OF that]) (simp add: prefix_eval)
  moreover have "starts_with d (ascii ''SSH-'')" if "d ! 0 = 0x53" "take 3 (drop 1 d) = ascii ''SH-''"
    using starts_with_slice [OF starts_with_byte [OF L(2) that(1)], of 3 "ascii ''SH-''"] that(2) by simp
  moreover have "has_prefix (client_prefixes MpSsh) d" if "starts_with d (ascii ''SSH-'')"
    using that by (rule has_prefixI) (simp add: prefix_eval)
  ultimately show ?thesis
    using L by (simp add: check_ssh_client_protocol_version_exchange_def Let_def ok_no_match ssh_after_name_ok del: ascii_simps)
qed (auto simp: check_ssh_client_protocol_version_exchange_def)

lemma ssh_client_same:
  "same (check_ssh_client_protocol_version_exchange s d) (check_ssh_client_protocol_version_exchange s' d)"
  unfolding check_ssh_client_protocol_version_exchange_def Let_def by (intro same_intros ssh_after_name_same)

interpretation ssh_client: protocol_check client_prefixes MpSsh check_ssh_client_protocol_version_exchange
  by unfold_locales (rule ssh_client_ok, rule ssh_client_same)

lemma ssh_server_ok: "verdict_ok server_prefixes MpSsh s d (check_ssh_server_protocol_version_exchange s d)"
proof (cases "length d < 11")
  case False
  have "excluding server_prefixes MpSsh s d
      (exclude_others [MpFtp, MpSmtp, MpOdmr, MpPop3, MpNntp, MpNnsp, MpImap, MpNats, MpBitTorrent] s)"
    if "starts_with d (ascii ''SSH-'')"
    by (rule excluding_others [OF _ that]) (simp, simp add: prefix_eval)
  moreover have "starts_with d (ascii ''SSH-'')" if "take 4 d = ascii ''SSH-''"
    by (rule starts_with_take [OF that]) simp
  moreover have "has_prefix (server_prefixes MpSsh) d" if "starts_with d (ascii ''SSH-'')"
    using that by (rule has_prefixI) (simp add: prefix_eval)
  ultimately show ?thesis
    using False by (simp add: check_ssh_server_protocol_version_exchange_def ok_no_match ssh_after_name_ok del: ascii_simps)
qed (simp add: check_ssh_server_protocol_version_exchange_def ok_need_more)

lemma ssh_server_same:
  "same (check_ssh_server_protocol_version_exchange s d) (check_ssh_server_protocol_version_exchange s' d)"
  unfolding check_ssh_server_protocol_version_exchange_def by (intro same_intros ssh_after_name_same)

interpretation ssh_server: protocol_check server_prefixes MpSsh check_ssh_server_protocol_version_exchange
  by unfold_locales (rule ssh_server_ok, rule ssh_server_same)

lemma stomp_connect_ok:
  assumes "10 \<le> length d" and "d ! 0 = 0x43"
  shows "verdict_ok client_prefixes MpStomp s d (check_stomp_connect_method s d)"
proof -
  have C: "starts_with d [0x43]" using assms by (intro starts_with_byte) auto
  define t where "t = exclude_others [MpSsl, MpSsh, MpRtsp, MpMqtt, MpSmpp, MpRtmp, MpBitTorrent, MpLdap] s"
  have t: "excluding client_prefixes MpStomp s d t" unfolding t_def
    by (rule excluding_others [OF _ C]) (simp, simp add: prefix_eval)
  then have sub: "extends s t" by (rule excluding_extends)
  have n7: "starts_with d (ascii ''CONNECT'' @ [d ! 7])" if "take 6 (drop 1 d) = ascii ''ONNECT''"
    using starts_with_next [of d "ascii ''CONNECT''" 7] starts_with_slice [OF C, of 6 "ascii ''ONNECT''"] that assms(1)
    by simp
  have n8: "starts_with d (ascii ''CONNECT'' @ [d ! 7, d ! 8])" if "take 6 (drop 1 d) = ascii ''ONNECT''"
    using starts_with_next [OF n7 [OF that], of 8] assms(1) by simp
  have http: "excluding client_prefixes MpStomp s d (exclude_other MpHttp t)"
    if "starts_with d (ascii ''CONNECT'' @ [0x0D]) \<or> starts_with d (ascii ''CONNECT'' @ [0x0A])"
    using that by (elim disjE) (erule excluding_other [OF t], simp add: prefix_eval)+
  have found: "has_prefix (client_prefixes MpStomp) d"
    if "starts_with d (ascii ''CONNECT'' @ [0x0D, 0x0A]) \<or> starts_with d (ascii ''CONNECT'' @ [0x0A])"
    using that by (elim disjE) (erule has_prefixI, simp add: prefix_eval)+
  show ?thesis
    using assms(1) t sub n7 n8 http found
    by (auto simp: check_stomp_connect_method_def Let_def t_def [symmetric] simp del: ascii_simps)
qed

lemma stomp_stomp_ok:
  assumes "10 \<le> length d" and "d ! 0 = 0x53"
  shows "verdict_ok client_prefixes MpStomp s d (check_stomp_stomp_method s d)"
proof -
  have S: "starts_with d [0x53]" using assms by (intro starts_with_byte) auto
  define t where "t = exclude_others [MpSsl, MpSsh, MpMqtt, MpSmpp, MpRtmp, MpBitTorrent, MpLdap] s"
  have t: "excluding client_prefixes MpStomp s d t" unfolding t_def
    by (rule excluding_others [OF _ S]) (simp, simp add: prefix_eval)
  define u where "u = exclude_others [MpHttp, MpRtsp] t"
  have stomp: "starts_with d (ascii ''STOMP'')" if "take 4 (drop 1 d) = ascii ''TOMP''"
    using starts_with_slice [OF S, of 4 "ascii ''TOMP''"] that by simp
  have u: "excluding client_prefixes MpStomp s d u" if "starts_with d (ascii ''STOMP'')"
    unfolding u_def by (rule excluding_others [OF t that]) (simp add: prefix_eval)
  have n5: "starts_with d (ascii ''STOMP'' @ [d ! 5])" if "starts_with d (ascii ''STOMP'')"
    using starts_with_next [OF that, of 5] assms(1) by simp
  have n6: "starts_with d (ascii ''STOMP'' @ [d ! 5, d ! 6])" if "starts_with d (ascii ''STOMP'')"
    using starts_with_next [OF n5 [OF that], of 6] assms(1) by simp
  have found: "has_prefix (client_prefixes MpStomp) d"
    if "starts_with d (ascii ''STOMP'' @ [0x0D, 0x0A]) \<or> starts_with d (ascii ''STOMP'' @ [0x0A])"
    using that by (elim disjE) (erule has_prefixI, simp add: prefix_eval)+
  have sub: "extends s u" using excluding_extends [OF t] by (simp add: u_def)
  show ?thesis
    using assms(1) t sub stomp u n5 n6 found
    by (auto simp: check_stomp_stomp_method_def Let_def t_def [symmetric] u_def [symmetric] simp del: ascii_simps)
qed

lemma stomp_ok: "verdict_ok client_prefixes MpStomp s d (check_stomp_client_connect_request s d)"
proof (cases "length d < 10")
  case False
  then show ?thesis
    using stomp_connect_ok [of d s] stomp_stomp_ok [of d s]
    by (cases "d = []") (simp_all add: check_stomp_client_connect_request_def ok_no_match)
qed (simp add: check_stomp_client_connect_request_def ok_need_more)

lemma stomp_same: "same (check_stomp_client_connect_request s d) (check_stomp_client_connect_request s' d)"
  unfolding check_stomp_client_connect_request_def check_stomp_connect_method_def check_stomp_stomp_method_def Let_def
  by (intro same_intros)

interpretation stomp: protocol_check client_prefixes MpStomp check_stomp_client_connect_request
  by unfold_locales (rule stomp_ok, rule stomp_same)

lemma letter_rules_out:
  assumes "0x41 \<le> b" and "b \<le> 0x5A"
  shows "list_all (\<lambda>q. rules_out [b] (client_prefixes q)) [MpSsl, MpMqtt, MpSmpp, MpRtmp, MpBitTorrent, MpLdap]"
proof -
  have "b \<noteq> 22" "b \<noteq> 16" "b \<noteq> 0" "b \<noteq> 3" "b \<noteq> 19" "b \<noteq> 48" using assms by auto
  then show ?thesis by (simp add: prefix_eval)
qed

text \<open>RTSP: what the rows of the table exclude is justified by the first byte and the method.\<close>

lemma rtsp_arms_letters: "list_all (\<lambda>(b, ms). 0x41 \<le> b \<and> b \<le> 0x5A) rtsp_arms"
  by (simp add: rtsp_arms_def)

lemma rtsp_arms_sound:
  "list_all (\<lambda>(b, ms).
     list_all (\<lambda>(m, os). list_all (\<lambda>q. rules_out (ascii m) (client_prefixes q)) os \<and> length m \<le> 25 \<and>
       (m = ''OPTIONS '' \<or> clash (ascii m) (ascii ''OPTIONS ''))) ms) rtsp_arms"
  by (simp add: rtsp_arms_def prefix_eval)

lemma rtsp_arms_prefixes:
  "(b, ms) \<in> set rtsp_arms \<Longrightarrow> (m, os) \<in> set ms \<Longrightarrow> ascii m @ ascii ''rtsp://'' \<in> set (client_prefixes MpRtsp)"
  by (force simp: client_prefixes_def)

lemma rtsp_after_method_ok:
  assumes "excluding client_prefixes MpRtsp s d t" and "starts_with d (ascii m)" and "length m \<le> length d"
    and "ascii m @ ascii ''rtsp://'' \<in> set (client_prefixes MpRtsp)"
    and "m = ''OPTIONS '' \<or> clash (ascii m) (ascii ''OPTIONS '')"
  shows "verdict_ok client_prefixes MpRtsp s d (check_rtsp_after_method t d (length m))"
proof -
  have app: "starts_with d (ascii m @ x)" if "starts_with (drop (length m) d) x" for x
    using assms(2) that by (auto simp: starts_with_iff)
  have uri: "has_prefix (client_prefixes MpRtsp) d" if "starts_with (drop (length m) d) (ascii ''rtsp://'')"
    using app [OF that] assms(4) by (rule has_prefixI)
  have star: "has_prefix (client_prefixes MpRtsp) d"
    if "starts_with d (ascii ''OPTIONS '')" "starts_with (drop (length m) d) (ascii ''* RTSP/'')"
  proof -
    have "m = ''OPTIONS ''" using assms(5) starts_with_clash [OF assms(2), of _ "[]"] that(1) by auto
    then show ?thesis using app [OF that(2)] by (intro has_prefixI [OF app [OF that(2)]]) (simp add: prefix_eval)
  qed
  have "extends s t" by (rule excluding_extends [OF assms(1)])
  then show ?thesis
    using assms(1,3) uri star by (simp add: check_rtsp_after_method_def Let_def del: ascii_simps)
qed

lemma rtsp_ok: "verdict_ok client_prefixes MpRtsp s d (check_rtsp_client_setup_request s d)"
proof (cases "length d < 25 \<or> map_of rtsp_arms (d ! 0) = None")
  case True
  then show ?thesis by (cases "d = []") (auto simp: check_rtsp_client_setup_request_def)
next
  case False
  then obtain ms where L: "25 \<le> length d" "d \<noteq> []" and ms: "map_of rtsp_arms (d ! 0) = Some ms" by fastforce
  note mem = map_of_SomeD [OF ms]
  note row = bspec [OF rtsp_arms_sound [unfolded list_all_iff] mem, unfolded split_conv]
  have "0x41 \<le> d ! 0" "d ! 0 \<le> 0x5A" using bspec [OF rtsp_arms_letters [unfolded list_all_iff] mem] by simp_all
  note letter = letter_rules_out [OF this]
  have t: "excluding client_prefixes MpRtsp s d (rtsp_exclude_by_byte0 s)"
    unfolding rtsp_exclude_by_byte0_def
    by (rule excluding_others [OF _ starts_with_byte [OF L(2) refl]]) (use letter in \<open>auto simp: list_all_iff\<close>)
  show ?thesis
  proof (cases "find (\<lambda>(m, _). starts_with d (ascii m)) ms")
    case None
    then show ?thesis using L ms t by (simp add: check_rtsp_client_setup_request_def Let_def)
  next
    case (Some mo)
    obtain m os where mo: "mo = (m, os)" by force
    then have m: "starts_with d (ascii m)" "(m, os) \<in> set ms" using Some find_SomeD [OF Some] by auto
    have r: "list_all (\<lambda>q. rules_out (ascii m) (client_prefixes q)) os" "length m \<le> 25"
        "m = ''OPTIONS '' \<or> clash (ascii m) (ascii ''OPTIONS '')"
      using bspec [OF row m(2)] by (simp_all add: list_all_iff)
    have "excluding client_prefixes MpRtsp s d (exclude_others os (rtsp_exclude_by_byte0 s))"
      by (rule excluding_others [OF t m(1)]) (use r(1) in \<open>auto simp: list_all_iff\<close>)
    then show ?thesis
      using rtsp_after_method_ok [OF _ m(1) _ rtsp_arms_prefixes [OF mem m(2)] r(3)] r(2) L ms Some mo
      by (simp add: check_rtsp_client_setup_request_def Let_def)
  qed
qed

lemma rtsp_same: "same (check_rtsp_client_setup_request s d) (check_rtsp_client_setup_request s' d)"
  unfolding check_rtsp_client_setup_request_def check_rtsp_after_method_def Let_def by (intro same_intros)

interpretation rtsp: protocol_check client_prefixes MpRtsp check_rtsp_client_setup_request
  by unfold_locales (rule rtsp_ok, rule rtsp_same)

text \<open>HTTP.\<close>

lemma http_arms_letters: "list_all (\<lambda>(b, os, ms). 0x41 \<le> b \<and> b \<le> 0x5A) http_arms"
  by (simp add: http_arms_def http_arms_a_h_def http_arms_l_p_def http_arms_q_v_def)

lemma http_arms_sound:
  "list_all (\<lambda>(b, os, ms).
     list_all (\<lambda>q. rules_out [b] (client_prefixes q)) os \<and>
     list_all (\<lambda>(m, os). list_all (\<lambda>q. rules_out (ascii m) (client_prefixes q)) os \<and> 1 \<le> length m \<and> length m \<le> 18) ms)
   http_arms"
  by (simp add: http_arms_def http_arms_a_h_def http_arms_l_p_def http_arms_q_v_def prefix_eval)

lemma http_arms_prefixes:
  "(b, os, ms) \<in> set http_arms \<Longrightarrow> (m, os') \<in> set ms \<Longrightarrow> ascii m \<in> set (client_prefixes MpHttp)"
  by (force simp: client_prefixes_def)

lemma http1_after_method_ok:
  assumes "excluding P self s d t" and "has_prefix (P self) d" and "1 \<le> n"
  shows "verdict_ok P self s d (check_http1_after_method t d n sl)"
proof -
  have sub: "extends s t" by (rule excluding_extends [OF assms(1)])
  have "verdict_ok P self s d (check_http1_after_url t d k)" for k
    using assms(1,2) sub by (simp add: check_http1_after_url_def Let_def del: ascii_simps)
  then show ?thesis
    using assms by (simp add: check_http1_after_method_def Let_def split: option.split)
qed

lemma http_ok: "verdict_ok client_prefixes MpHttp s d (check_http_request s d sl)"
proof (cases "length d < 18 \<or> map_of http_arms (d ! 0) = None")
  case True
  then show ?thesis by (cases "d = []") (auto simp: check_http_request_def)
next
  case False
  then obtain os ms where L: "18 \<le> length d" "d \<noteq> []" and ms: "map_of http_arms (d ! 0) = Some (os, ms)" by fastforce
  note mem = map_of_SomeD [OF ms]
  note row = bspec [OF http_arms_sound [unfolded list_all_iff] mem, unfolded split_conv]
  note b0 = starts_with_byte [OF L(2) refl]
  have "0x41 \<le> d ! 0" "d ! 0 \<le> 0x5A" using bspec [OF http_arms_letters [unfolded list_all_iff] mem] by simp_all
  note letter = letter_rules_out [OF this]
  have "excluding client_prefixes MpHttp s d (http_exclude_by_byte0 s)"
    unfolding http_exclude_by_byte0_def
    by (rule excluding_others [OF _ b0]) (use letter in \<open>auto simp: list_all_iff\<close>)
  then have t: "excluding client_prefixes MpHttp s d (exclude_others os (http_exclude_by_byte0 s))"
    by (rule excluding_others [OF _ b0]) (use row in \<open>auto simp: list_all_iff\<close>)
  show ?thesis
  proof (cases "find (\<lambda>(m, _). starts_with d (ascii m)) ms")
    case None
    then show ?thesis using L ms t by (simp add: check_http_request_def Let_def)
  next
    case (Some mo)
    obtain m os' where mo: "mo = (m, os')" by force
    then have m: "starts_with d (ascii m)" "(m, os') \<in> set ms" using find_SomeD [OF Some] by auto
    have r: "list_all (\<lambda>q. rules_out (ascii m) (client_prefixes q)) os'" "1 \<le> length m" "length m \<le> 18"
      using row m(2) by (auto simp: list_all_iff)
    define u where "u = exclude_others os' (exclude_others os (http_exclude_by_byte0 s))"
    have u: "excluding client_prefixes MpHttp s d u" unfolding u_def
      by (rule excluding_others [OF t m(1)]) (use r(1) in \<open>auto simp: list_all_iff\<close>)
    have found: "has_prefix (client_prefixes MpHttp) d" by (rule has_prefixI [OF m(1) http_arms_prefixes [OF mem m(2)]])
    have "extends s u" by (rule excluding_extends [OF u])
    then show ?thesis
      using http1_after_method_ok [OF u found r(2)] L ms Some mo u found
      by (simp add: check_http_request_def check_http2_connection_preface_def Let_def u_def [symmetric])
  qed
qed

lemma http_same: "same (check_http_request s d sl) (check_http_request s' d sl)"
  unfolding check_http_request_def check_http1_after_method_def check_http1_after_url_def
    check_http2_connection_preface_def Let_def
  by (intro same_intros)

interpretation http: protocol_check client_prefixes MpHttp "\<lambda>s d. check_http_request s d sl" for sl
  by unfold_locales (rule http_ok, rule http_same)

end
