(* ===== verification/Codec_Ber.thy ===== *)
theory Codec_Ber
  imports Vey_Prelude
begin

text \<open>
  BER lengths and integers: \<open>lib/vey-codec/src/ber/length.rs\<close> and \<open>ber/integer.rs\<close>. The parsers
  are compared with the X.690 grammar, the length encoder with the length parser.
\<close>

section \<open>Lengths\<close>

datatype ber_length_parse_error = BlNeedMoreData nat | BlTooLargeValue

record ber_length =
  bl_value :: nat
  bl_indefinite :: bool
  bl_encoded_len :: nat

definition ber_length_parse :: "bytes \<Rightarrow> (ber_length_parse_error, ber_length) rs" where
  "ber_length_parse data =
     (if data = [] then Err (BlNeedMoreData 1)
      else bnd (idx data 0) (\<lambda>b0.
        if b0 AND 0x80 = 0 then
          Ok \<lparr>bl_value = unat b0, bl_indefinite = False, bl_encoded_len = 1\<rparr>
        else let n = b0 AND 0x7f in
          if n = 0 then Ok \<lparr>bl_value = 0, bl_indefinite = True, bl_encoded_len = 1\<rparr>
          else if n = 1 then
            (if length data < 2 then Err (BlNeedMoreData (2 - length data))
             else bnd (idx data 1) (\<lambda>b.
               Ok \<lparr>bl_value = unat b, bl_indefinite = False, bl_encoded_len = 2\<rparr>))
          else if n = 2 then
            (if length data < 3 then Err (BlNeedMoreData (3 - length data))
             else bnd (slice data 1 3) (\<lambda>t.
               Ok \<lparr>bl_value = be_nat t, bl_indefinite = False, bl_encoded_len = 3\<rparr>))
          else if n = 3 then
            (if length data < 4 then Err (BlNeedMoreData (4 - length data))
             else bnd (slice data 1 4) (\<lambda>t.
               Ok \<lparr>bl_value = be_nat ([0] @ t), bl_indefinite = False, bl_encoded_len = 4\<rparr>))
          else if n = 4 then
            (if length data < 5 then Err (BlNeedMoreData (5 - length data))
             else bnd (slice data 1 5) (\<lambda>t.
               Ok \<lparr>bl_value = be_nat t, bl_indefinite = False, bl_encoded_len = 5\<rparr>))
          else if n = 5 then
            (if length data < 6 then Err (BlNeedMoreData (6 - length data))
             else bnd (slice data 1 6) (\<lambda>t.
               Ok \<lparr>bl_value = be_nat ([0, 0, 0] @ t), bl_indefinite = False, bl_encoded_len = 6\<rparr>))
          else if n = 6 then
            (if length data < 7 then Err (BlNeedMoreData (7 - length data))
             else bnd (slice data 1 7) (\<lambda>t.
               Ok \<lparr>bl_value = be_nat ([0, 0] @ t), bl_indefinite = False, bl_encoded_len = 7\<rparr>))
          else if n = 7 then
            (if length data < 8 then Err (BlNeedMoreData (8 - length data))
             else bnd (slice data 1 8) (\<lambda>t.
               Ok \<lparr>bl_value = be_nat ([0] @ t), bl_indefinite = False, bl_encoded_len = 8\<rparr>))
          else if n = 8 then
            (if length data < 9 then Err (BlNeedMoreData (9 - length data))
             else bnd (slice data 1 9) (\<lambda>t.
               Ok \<lparr>bl_value = be_nat t, bl_indefinite = False, bl_encoded_len = 9\<rparr>))
          else Err BlTooLargeValue))"

text \<open>
  The X.690 length octets: a first octet below 128 is the length itself, 128 is the indefinite
  form, and \<open>128 + n\<close> is followed by \<open>n\<close> octets of big-endian length.
\<close>

definition ber_length_spec :: "bytes \<Rightarrow> (ber_length_parse_error, ber_length) rs" where
  "ber_length_spec data =
     (case data of [] \<Rightarrow> Err (BlNeedMoreData 1)
      | b # t \<Rightarrow>
          if unat b < 128 then Ok \<lparr>bl_value = unat b, bl_indefinite = False, bl_encoded_len = 1\<rparr>
          else let n = unat b mod 128 in
            if n = 0 then Ok \<lparr>bl_value = 0, bl_indefinite = True, bl_encoded_len = 1\<rparr>
            else if 8 < n then Err BlTooLargeValue
            else if length t < n then Err (BlNeedMoreData (n - length t))
            else Ok \<lparr>bl_value = be_nat (take n t), bl_indefinite = False, bl_encoded_len = Suc n\<rparr>)"

lemma nat_le_8_cases:
  "(n :: nat) \<le> 8 \<Longrightarrow> n = 0 \<or> n = 1 \<or> n = 2 \<or> n = 3 \<or> n = 4 \<or> n = 5 \<or> n = 6 \<or> n = 7 \<or> n = 8"
  by auto

lemma ber_length_parse_eq: "ber_length_parse data = ber_length_spec data"
proof (cases data)
  case Nil
  then show ?thesis by (simp add: ber_length_parse_def ber_length_spec_def)
next
  case (Cons b t)
  define n where "n = unat b mod 128"
  have eq: "b AND 0x7f = x \<longleftrightarrow> n = unat x" for x :: u8
    by (simp add: n_def word_unat_eq_iff unat_and_7f)
  note defs = Cons ber_length_parse_def ber_length_spec_def Let_def eq n_def [symmetric] u8_msb_zero_iff
  have get: "take 1 t = [t ! 0]" if "t \<noteq> []" using that by (cases t) auto
  show ?thesis
  proof (cases "n \<le> 8")
    case False
    then show ?thesis by (simp add: defs)
  next
    case True
    from nat_le_8_cases [OF this] show ?thesis
      by (elim disjE) (use get in \<open>auto simp add: defs\<close>)
  qed
qed

text \<open>
  C35: \<open>BerLength::parse\<close> is the X.690 grammar of length octets on every input, up to eight octets
  of length: it never panics, and \<open>NeedMoreData\<close> carries exactly the number of missing octets.
\<close>

theorem ber_length_parse_x690: "ber_length_parse data = ber_length_spec data"
  by (rule ber_length_parse_eq)

lemma ber_length_parse_not_Panic [simp]: "ber_length_parse data \<noteq> Panic"
  by (simp add: ber_length_parse_eq ber_length_spec_def Let_def split: list.splits)

lemma ber_length_bounds:
  assumes "ber_length_parse data = Ok l"
  shows "0 < bl_encoded_len l" and "bl_encoded_len l \<le> length data" and "bl_encoded_len l \<le> 9"
    and "bl_value l < 2 ^ 64"
proof -
  obtain b t where data: "data = b # t"
    using assms by (cases data) (auto simp: ber_length_parse_eq ber_length_spec_def)
  have "be_nat (take n t) < 2 ^ 64" if "n \<le> 8" for n
  proof -
    have "be_nat (take n t) < 256 ^ length (take n t)" by (rule be_nat_bound)
    also have "\<dots> \<le> 256 ^ 8" using that by (intro power_increasing) auto
    finally show ?thesis by simp
  qed
  then show "0 < bl_encoded_len l" and "bl_encoded_len l \<le> length data" and "bl_encoded_len l \<le> 9"
    and "bl_value l < 2 ^ 64"
    using assms u8_bound [of b]
    by (auto simp: data ber_length_parse_eq ber_length_spec_def Let_def split: if_splits)
qed

lemma ber_length_framed:
  assumes "ber_length_parse (p @ s) = Ok l" and "bl_encoded_len l \<le> length p"
  shows "ber_length_parse (p @ s') = Ok l"
proof -
  obtain b t where p: "p = b # t" using assms ber_length_bounds(1) [OF assms(1)] by (cases p) auto
  have "take n (t @ s') = take n (t @ s)" if "n \<le> length t" for n using that by simp
  then show ?thesis
    using assms by (auto simp: p ber_length_parse_eq ber_length_spec_def Let_def split: if_splits)
qed

interpretation ber_len: prefix_decoder "\<lambda>data. ok_opt (ber_length_parse data)" bl_encoded_len
  by unfold_locales (auto dest: ber_length_bounds ber_length_framed)

subsection \<open>The length encoder\<close>

record ber_length_encoder =
  ble_buf :: bytes
  ble_offset :: nat

text \<open>\<open>u64::leading_zeros\<close>.\<close>

definition leading_zeros64 :: "nat \<Rightarrow> nat" where
  "leading_zeros64 v = length (takeWhile (\<lambda>i. \<not> bit v (63 - i)) [0..<64])"

text \<open>
  The \<open>unsafe\<close> copy writes eight bytes at \<open>buf[1..]\<close>; a buffer too short for it is undefined
  behaviour, which \<open>copy_at\<close> shows as a panic.
\<close>

definition ber_length_encode ::
    "ber_length_encoder \<Rightarrow> nat \<Rightarrow> (unit, ber_length_encoder \<times> bytes) rs" where
  "ber_length_encode enc value =
     (if value \<le> 0x7f then
        bnd (upd (ble_buf enc) 8 (of_nat (value AND 0x7f))) (\<lambda>buf.
        bnd (slice_from buf 8) (\<lambda>out.
        Ok (\<lparr>ble_buf = buf, ble_offset = 8\<rparr>, out)))
      else
        let bytes = be_bytes 8 value in
        bnd (copy_at (ble_buf enc) 1 bytes) (\<lambda>buf.
        let unused_bits = leading_zeros64 value; offset = unused_bits div 8 in
        bnd (usub 8 offset) (\<lambda>n.
        bnd (upd buf offset (0x80 OR of_nat n)) (\<lambda>buf.
        bnd (slice_from buf offset) (\<lambda>out.
        Ok (\<lparr>ble_buf = buf, ble_offset = offset\<rparr>, out))))))"

lemma nat_less_exp_iff_bits: "(v :: nat) < 2 ^ m \<longleftrightarrow> (\<forall>j\<ge>m. \<not> bit v j)"
proof -
  have "v < 2 ^ m \<longleftrightarrow> take_bit m v = v" by (simp add: take_bit_nat_eq_self_iff)
  also have "\<dots> \<longleftrightarrow> (\<forall>j. (j < m \<and> bit v j) = bit v j)"
    by (simp only: bit_eq_iff possible_bit_nat bit_take_bit_iff simp_thms)
  also have "\<dots> \<longleftrightarrow> (\<forall>j\<ge>m. \<not> bit v j)" by (meson not_less)
  finally show ?thesis .
qed

lemma le_length_takeWhile_iff:
  "k \<le> length (takeWhile P xs) \<longleftrightarrow> k \<le> length xs \<and> (\<forall>i<k. P (xs ! i))"
proof
  assume k: "k \<le> length (takeWhile P xs)"
  then have "P (xs ! i)" if "i < k" for i
    using that nth_mem [of i "takeWhile P xs"] set_takeWhileD [of "takeWhile P xs ! i" P xs]
      takeWhile_nth [of i P xs] by simp
  then show "k \<le> length xs \<and> (\<forall>i<k. P (xs ! i))"
    using k length_takeWhile_le [of P xs] by auto
next
  assume "k \<le> length xs \<and> (\<forall>i<k. P (xs ! i))"
  then show "k \<le> length (takeWhile P xs)"
    using nth_length_takeWhile [of P xs] by (meson leI le_trans less_le_trans)
qed

lemma le_leading_zeros64_iff:
  assumes "v < 2 ^ 64" and "k \<le> 64"
  shows "k \<le> leading_zeros64 v \<longleftrightarrow> v < 2 ^ (64 - k)"
proof -
  have high: "\<not> bit v j" if "64 \<le> j" for j using assms(1) that nat_less_exp_iff_bits by blast
  have "k \<le> leading_zeros64 v \<longleftrightarrow> (\<forall>i<k. \<not> bit v (63 - i))"
    using assms(2) by (auto simp: leading_zeros64_def le_length_takeWhile_iff simp del: upt_rec_numeral)
  also have "\<dots> \<longleftrightarrow> (\<forall>j\<ge>64 - k. \<not> bit v j)"
  proof safe
    fix j assume a: "\<forall>i<k. \<not> bit v (63 - i)" and "64 - k \<le> j" and "bit v j"
    then have "j < 64" using high not_le by blast
    then have "63 - j < k" and "63 - (63 - j) = j" using \<open>64 - k \<le> j\<close> by auto
    then show False using a \<open>bit v j\<close> by metis
  next
    fix i assume "\<forall>j\<ge>64 - k. \<not> bit v j" and "i < k" and "bit v (63 - i)"
    moreover have "64 - k \<le> 63 - i" using \<open>i < k\<close> by simp
    ultimately show False by blast
  qed
  finally show ?thesis by (simp add: nat_less_exp_iff_bits)
qed

lemma drop_list_update: "i < length xs \<Longrightarrow> drop i (xs[i := x]) = x # drop (Suc i) xs"
  by (induction xs arbitrary: i) (auto split: nat.splits)

lemma unat_or_80: "n < 128 \<Longrightarrow> unat (0x80 OR of_nat n :: u8) = 128 + n"
proof -
  assume n: "n < 128"
  then have u: "unat (of_nat n :: u8) = n" by (simp add: unsigned_of_nat take_bit_eq_mod)
  then have "of_nat n AND (0x80 :: u8) = 0" using n by (simp only: u8_msb_zero_iff)
  then have "0x80 AND (of_nat n :: u8) = 0" by (simp add: and.commute)
  then have "0x80 OR (of_nat n :: u8) = 0x80 + of_nat n" by (simp add: disjunctive_add_eq_or)
  then show ?thesis using n u by (simp add: unat_word_ariths)
qed

lemma ber_length_encode_long:
  assumes "length (ble_buf enc) = 9" and "v < 2 ^ 64" and "128 \<le> v"
  obtains n enc' where "0 < n" and "n \<le> 8" and "256 ^ (n - 1) \<le> v" and "v < 256 ^ n"
    and "ber_length_encode enc v = Ok (enc', (0x80 OR of_nat n) # be_bytes n v)"
    and "length (ble_buf enc') = 9"
proof -
  define off where "off = leading_zeros64 v div 8"
  have pow: "(2 :: nat) ^ (8 * m) = 256 ^ m" for m by (simp add: power_mult)
  have lz: "k \<le> leading_zeros64 v \<longleftrightarrow> v < 2 ^ (64 - k)" if "k \<le> 64" for k
    using assms(2) that by (rule le_leading_zeros64_iff)
  have "\<not> 57 \<le> leading_zeros64 v" using lz [of 57] assms(3) by simp
  then have off: "off \<le> 7" by (simp add: off_def)
  have "8 * off \<le> leading_zeros64 v" and "\<not> 8 * Suc off \<le> leading_zeros64 v"
    by (simp_all add: off_def)
  then have "v < 2 ^ (8 * (8 - off))" and "2 ^ (8 * (8 - off - 1)) \<le> v"
    using lz [of "8 * off"] lz [of "8 * Suc off"] off by (simp_all add: diff_mult_distrib2)
  then have range: "v < 256 ^ (8 - off)" "256 ^ (8 - off - 1) \<le> v" by (simp_all only: pow)
  obtain b0 where one: "take 1 (ble_buf enc) = [b0]" "drop 9 (ble_buf enc) = []"
    using assms(1) by (cases "ble_buf enc") auto
  let ?buf = "(b0 # be_bytes 8 v)[off := 0x80 OR of_nat (8 - off)]"
  have "drop off ?buf = (0x80 OR of_nat (8 - off)) # be_bytes (8 - off) v"
    using off drop_be_bytes [of off 8 v] by (simp only: drop_list_update list.size length_be_bytes) simp
  then have "ber_length_encode enc v = Ok (\<lparr>ble_buf = ?buf, ble_offset = off\<rparr>,
      (0x80 OR of_nat (8 - off)) # be_bytes (8 - off) v)"
    using assms off one by (simp add: ber_length_encode_def Let_def off_def [symmetric] del: be_bytes.simps list_update.simps)
  then show thesis using that [of "8 - off"] off range by (simp del: list_update.simps)
qed

lemma ber_length_encode_short:
  assumes "length (ble_buf enc) = 9" and "v < 128"
  obtains enc' where "ber_length_encode enc v = Ok (enc', [of_nat v])" and "length (ble_buf enc') = 9"
proof -
  have v: "v AND 127 = v" using assms(2) take_bit_eq_mask [of 7 v]
    by (simp add: mask_eq_exp_minus_1 take_bit_eq_mod)
  have "drop 8 ((ble_buf enc)[8 := of_nat v]) = [of_nat v]"
    using assms(1) by (simp add: drop_list_update)
  then show thesis using that assms by (simp add: ber_length_encode_def v)
qed

text \<open>
  C34: \<open>BerLengthEncoder::encode\<close> stays inside its nine-byte buffer, and for every \<open>usize\<close> what it
  returns is parsed back by \<open>BerLength::parse\<close>, whatever follows, to the same definite length and
  exactly the bytes written. The form is the shortest one: a single octet below 128, and
  otherwise no leading zero octet.
\<close>

theorem ber_length_encode_roundtrip:
  assumes "length (ble_buf enc) = 9" and "v < 2 ^ 64"
  shows "\<exists>enc' out. ber_length_encode enc v = Ok (enc', out) \<and> length (ble_buf enc') = 9 \<and>
    ber_length_parse (out @ rest) =
      Ok \<lparr>bl_value = v, bl_indefinite = False, bl_encoded_len = length out\<rparr> \<and>
    (if v < 128 then length out = 1 else 2 \<le> length out \<and> 256 ^ (length out - 2) \<le> v)"
proof (cases "v < 128")
  case True
  obtain enc' where "ber_length_encode enc v = Ok (enc', [of_nat v])" "length (ble_buf enc') = 9"
    using ber_length_encode_short [OF assms(1) True] .
  then show ?thesis using True
    by (simp add: ber_length_parse_eq ber_length_spec_def unsigned_of_nat take_bit_eq_mod)
next
  case False
  then obtain n enc' where n: "0 < n" "n \<le> 8" "256 ^ (n - 1) \<le> v" "v < 256 ^ n"
    and enc: "ber_length_encode enc v = Ok (enc', (0x80 OR of_nat n) # be_bytes n v)"
    and "length (ble_buf enc') = 9"
    using ber_length_encode_long [OF assms] by (metis not_less)
  moreover have "ber_length_parse ((0x80 OR of_nat n) # be_bytes n v @ rest) =
      Ok \<lparr>bl_value = v, bl_indefinite = False, bl_encoded_len = Suc n\<rparr>"
    using n by (simp add: ber_length_parse_eq ber_length_spec_def Let_def unat_or_80 be_nat_be_bytes)
  ultimately show ?thesis using False by simp
qed

theorem ber_length_encode_roundtrip_witness:
  "\<exists>enc' out. ber_length_encode \<lparr>ble_buf = replicate 9 0, ble_offset = 0\<rparr> 1000 = Ok (enc', out) \<and>
    2 \<le> length out \<and> ber_length_parse (out @ [1, 2]) =
      Ok \<lparr>bl_value = 1000, bl_indefinite = False, bl_encoded_len = length out\<rparr>"
  using ber_length_encode_roundtrip [of "\<lparr>ble_buf = replicate 9 0, ble_offset = 0\<rparr>" 1000 "[1, 2]"]
  by auto

section \<open>Integers\<close>

datatype ber_integer_parse_error =
    BiNeedMoreData nat
  | BiInvalidType
  | BiTooLargeLength
  | BiIndefiniteLength
  | BiInvalidValueBytes

fun ber_integer_from_length :: "ber_length_parse_error \<Rightarrow> ber_integer_parse_error" where
  "ber_integer_from_length (BlNeedMoreData n) = BiNeedMoreData n"
| "ber_integer_from_length BlTooLargeValue = BiTooLargeLength"

text \<open>The \<open>i64\<close> value is its two's complement word; \<open>sint\<close> reads it.\<close>

record ber_integer =
  bi_value :: "64 word"
  bi_encoded_len :: nat

definition parse_twos_complement_i64 :: "bytes \<Rightarrow> ('e, 64 word) rs" where
  "parse_twos_complement_i64 bytes =
     (if bytes = [] \<or> 8 < length bytes then Panic
      else
        let buf = replicate 8 (0 :: u8) in
        bnd (usub 8 (length bytes)) (\<lambda>start.
        bnd (idx bytes 0) (\<lambda>b0.
        bnd (if b0 AND 0x80 \<noteq> 0 then copy_at buf 0 (replicate start 0xff) else Ok buf) (\<lambda>buf.
        bnd (copy_at buf start bytes) (\<lambda>buf.
        Ok (of_nat (be_nat buf)))))))"

definition ber_integer_parse_with_identifier ::
    "bytes \<Rightarrow> u8 \<Rightarrow> (ber_integer_parse_error, ber_integer) rs" where
  "ber_integer_parse_with_identifier data ident =
     (if data = [] then Err (BiNeedMoreData 1)
      else bnd (idx data 0) (\<lambda>b0.
        if b0 \<noteq> ident then Err BiInvalidType
        else
          bnd (slice_from data 1) (\<lambda>t.
          bnd (map_err ber_integer_from_length (ber_length_parse t)) (\<lambda>len.
          if bl_indefinite len then Err BiIndefiniteLength
          else
            let offset = 1 + bl_encoded_len len in
            bnd (slice_from data offset) (\<lambda>left.
            let content_len = bl_value len in
            if content_len = 0 \<or> 8 < content_len then Err BiInvalidValueBytes
            else if length left < content_len then
              Err (BiNeedMoreData (content_len - length left))
            else
              bnd (slice left 0 content_len) (\<lambda>content.
              bnd (parse_twos_complement_i64 content) (\<lambda>v.
              Ok \<lparr>bi_value = v, bi_encoded_len = offset + content_len\<rparr>)))))))"

definition ber_integer_parse :: "bytes \<Rightarrow> (ber_integer_parse_error, ber_integer) rs" where
  "ber_integer_parse data = ber_integer_parse_with_identifier data 0x02"

definition ber_integer_parse_enumerated :: "bytes \<Rightarrow> (ber_integer_parse_error, ber_integer) rs" where
  "ber_integer_parse_enumerated data = ber_integer_parse_with_identifier data 0x0a"

text \<open>The value X.690 gives to the contents octets of an INTEGER.\<close>

definition twos_complement :: "bytes \<Rightarrow> int" where
  "twos_complement bs =
     int (be_nat bs) - (if unat (hd bs) < 128 then 0 else 256 ^ length bs)"

lemma be_nat_replicate_0 [simp]: "be_nat (replicate k 0) = 0"
  by (induction k) auto

lemma be_nat_replicate_ff: "int (be_nat (replicate k 0xff)) = 256 ^ k - 1"
proof (induction k)
  case (Suc k)
  have "unat (0xff :: u8) = 255" by simp
  then show ?case using Suc by (simp only: replicate_Suc be_nat_Cons length_replicate) simp
qed simp

lemma twos_complement_range:
  assumes "bs \<noteq> []" and "length bs \<le> 8"
  shows "- (2 ^ 63) \<le> twos_complement bs" and "twos_complement bs < 2 ^ 63"
proof -
  obtain b t where bs: "bs = b # t" using assms by (cases bs) auto
  let ?p = "256 ^ length t :: int"
  have p: "1 \<le> ?p" "?p \<le> 256 ^ 7"
    using assms(2) power_increasing [of "length t" 7 "256 :: int"] by (simp_all add: bs)
  have p0: "0 \<le> ?p" by simp
  have t: "0 \<le> int (be_nat t)" "int (be_nat t) < ?p"
    using be_nat_bound [of t] by (simp_all flip: of_nat_less_iff)
  have v: "int (be_nat bs) = int (unat b) * ?p + int (be_nat t)" by (simp add: bs)
  have "- (128 * ?p) \<le> twos_complement bs \<and> twos_complement bs < 128 * ?p"
  proof (cases "unat b < 128")
    case True
    then have "int (unat b) \<le> 127" by linarith
    then have "int (unat b) * ?p \<le> 127 * ?p" by (rule mult_right_mono [OF _ p0])
    moreover have "twos_complement bs = int (be_nat bs)" using True by (simp add: twos_complement_def bs)
    moreover have "0 \<le> int (unat b) * ?p" using p(1) by (intro mult_nonneg_nonneg) simp_all
    ultimately show ?thesis using t v by linarith
  next
    case False
    then have "128 \<le> int (unat b)" and "int (unat b) \<le> 255" using u8_le [of b] by linarith+
    then have "128 * ?p \<le> int (unat b) * ?p" and "int (unat b) * ?p \<le> 255 * ?p"
      by (simp_all only: mult_right_mono [OF _ p0])
    moreover have "twos_complement bs = int (be_nat bs) - 256 * ?p"
      using False by (simp add: twos_complement_def bs)
    ultimately show ?thesis using t v by linarith
  qed
  then show "- (2 ^ 63) \<le> twos_complement bs" and "twos_complement bs < 2 ^ 63" using p by auto
qed

lemma sint_of_int_range:
  "- (2 ^ 63) \<le> i \<Longrightarrow> i < 2 ^ 63 \<Longrightarrow> sint (of_int i :: 64 word) = i"
  by (simp add: signed_of_int signed_take_bit_int_eq_self_iff)

lemma parse_twos_complement_i64_value:
  assumes "bs \<noteq> []" and "length bs \<le> 8"
  shows "parse_twos_complement_i64 bs = Ok (of_int (twos_complement bs))"
proof -
  define k where "k = 8 - length bs"
  have "(256 :: int) ^ k * 256 ^ length bs = 256 ^ (k + length bs)" by (simp only: power_add)
  also have "\<dots> = 2 ^ 64" using assms(2) by (simp add: k_def)
  finally have pow: "(256 :: int) ^ k * 256 ^ length bs = 2 ^ 64" .
  have neg: "int (be_nat (replicate k 0xff @ bs)) = int (be_nat bs) - 256 ^ length bs + 2 ^ 64"
    by (simp only: be_nat_append of_nat_add of_nat_mult be_nat_replicate_ff left_diff_distrib
      of_nat_power of_nat_numeral pow)
  have two64: "of_int (2 ^ 64) = (0 :: 64 word)" by simp
  have ff: "(of_nat (be_nat (replicate k 0xff @ bs)) :: 64 word) = of_int (int (be_nat bs) - 256 ^ length bs)"
    unfolding of_int_of_nat_eq [symmetric, where ?'a = "64 word"] neg of_int_add two64 by (simp only: add_0_right)
  have zero: "of_nat (be_nat (replicate k 0 @ bs)) = (of_int (int (be_nat bs)) :: 64 word)"
    by (simp add: be_nat_append)
  have hd: "hd bs = bs ! 0" using assms(1) by (simp add: hd_conv_nth)
  have copy0: "copy_at (replicate 8 0) 0 (replicate k 0xff) = Ok (replicate k 0xff @ replicate (8 - k) 0)"
    by (simp add: k_def)
  have copy: "copy_at (replicate k c @ replicate (8 - k) 0) k bs = Ok (replicate k c @ bs)" for c :: u8
    using assms(2) by (simp add: k_def)
  have split0: "replicate 8 (0 :: u8) = replicate k 0 @ replicate (8 - k) 0"
    using assms(2) by (simp add: k_def flip: replicate_add)
  have k: "usub 8 (length bs) = Ok k" and b0: "idx bs 0 = Ok (hd bs)"
    using assms by (simp_all add: k_def hd)
  show ?thesis
  proof (cases "unat (hd bs) < 128")
    case True
    then have "hd bs AND 0x80 = 0" by (simp only: u8_msb_zero_iff)
    then show ?thesis using assms True
      by (simp only: parse_twos_complement_i64_def Let_def k b0 bnd.simps simp_thms if_True if_False)
        (simp add: split0 copy zero twos_complement_def del: of_int_of_nat_eq)
  next
    case False
    then have "hd bs AND 0x80 \<noteq> 0" by (simp add: u8_msb_zero_iff)
    then show ?thesis using assms False
      by (simp only: parse_twos_complement_i64_def Let_def k b0 bnd.simps simp_thms if_True copy0 copy ff)
        (simp add: twos_complement_def)
  qed
qed

text \<open>\<open>ber_definite L n\<close>: the octets \<open>L\<close> are a complete definite-form length of value \<open>n\<close>.\<close>

definition ber_definite :: "bytes \<Rightarrow> nat \<Rightarrow> bool" where
  "ber_definite L n \<longleftrightarrow>
     ber_length_parse L = Ok \<lparr>bl_value = n, bl_indefinite = False, bl_encoded_len = length L\<rparr>"

lemma ber_definite_parse:
  "ber_definite L n \<Longrightarrow>
    ber_length_parse (L @ rest) = Ok \<lparr>bl_value = n, bl_indefinite = False, bl_encoded_len = length L\<rparr>"
  using ber_len.dec_prefix [of L] by (simp add: ber_definite_def)

lemma ber_length_parse_definite:
  assumes "ber_length_parse data = Ok l" and "\<not> bl_indefinite l"
  obtains L rest where "data = L @ rest" and "ber_definite L (bl_value l)" and "bl_encoded_len l = length L"
proof -
  let ?L = "take (bl_encoded_len l) data"
  have "ber_length_parse ?L = Ok l" and "length ?L = bl_encoded_len l"
    using assms(1) ber_len.dec_local [of data l] ber_length_bounds(2) by auto
  then show thesis using that [of ?L "drop (bl_encoded_len l) data"] assms(2)
    by (simp add: ber_definite_def)
qed

lemma parse_twos_complement_i64_Panic_iff:
  "parse_twos_complement_i64 bs = Panic \<longleftrightarrow> bs = [] \<or> 8 < length bs"
proof (cases "bs = [] \<or> 8 < length bs")
  case False
  then show ?thesis by (simp add: parse_twos_complement_i64_value)
qed (simp add: parse_twos_complement_i64_def)

lemma ber_integer_parse_not_Panic [simp]: "ber_integer_parse_with_identifier data ident \<noteq> Panic"
proof (cases data)
  case Nil
  then show ?thesis by (simp add: ber_integer_parse_with_identifier_def)
next
  case (Cons b t)
  show ?thesis
  proof (cases "ber_length_parse t")
    case (Ok l)
    then have "bl_encoded_len l \<le> length t" by (rule ber_length_bounds)
    then show ?thesis
      by (auto simp: ber_integer_parse_with_identifier_def Cons Ok Let_def bnd_Panic_iff
        parse_twos_complement_i64_Panic_iff)
  qed (simp_all add: ber_integer_parse_with_identifier_def Cons)
qed

lemma ber_integer_parse_Ok_iff:
  "ber_integer_parse_with_identifier data ident = Ok r \<longleftrightarrow>
    (\<exists>L content rest. data = ident # L @ content @ rest \<and> ber_definite L (length content) \<and>
      content \<noteq> [] \<and> length content \<le> 8 \<and>
      r = \<lparr>bi_value = of_int (twos_complement content), bi_encoded_len = 1 + length L + length content\<rparr>)"
  (is "?parse \<longleftrightarrow> ?grammar")
proof
  assume ?parse
  then obtain t l where data: "data = ident # t" and l: "ber_length_parse t = Ok l" "\<not> bl_indefinite l"
    and n: "0 < bl_value l" "bl_value l \<le> 8" "bl_value l \<le> length t - bl_encoded_len l"
    and r: "parse_twos_complement_i64 (take (bl_value l) (drop (bl_encoded_len l) t)) =
        (Ok (bi_value r) :: (ber_integer_parse_error, 64 word) rs)"
      "bi_encoded_len r = 1 + bl_encoded_len l + bl_value l"
    by (cases data) (auto simp: ber_integer_parse_with_identifier_def Let_def rs_iff split: if_splits)
  obtain L s where t: "t = L @ s" and L: "ber_definite L (bl_value l)" "bl_encoded_len l = length L"
    using ber_length_parse_definite [OF l] .
  let ?c = "take (bl_value l) s"
  have c: "?c \<noteq> []" "length ?c = bl_value l" using n t L by auto
  then have "bi_value r = of_int (twos_complement ?c)"
    using r(1) n t L by (simp add: parse_twos_complement_i64_value)
  then have "data = ident # L @ ?c @ drop (bl_value l) s \<and> ber_definite L (length ?c) \<and>
      ?c \<noteq> [] \<and> length ?c \<le> 8 \<and> r = \<lparr>bi_value = of_int (twos_complement ?c),
        bi_encoded_len = 1 + length L + length ?c\<rparr>"
    using data t L n r(2) c by simp
  then show ?grammar by blast
next
  assume ?grammar
  then obtain L content rest where "data = ident # L @ content @ rest" "ber_definite L (length content)"
    "content \<noteq> []" "length content \<le> 8"
    "r = \<lparr>bi_value = of_int (twos_complement content), bi_encoded_len = 1 + length L + length content\<rparr>"
    by blast
  then show ?parse
    by (simp add: ber_integer_parse_with_identifier_def ber_definite_parse parse_twos_complement_i64_value)
qed

lemma ber_integer_bounds:
  assumes "ber_integer_parse_with_identifier data ident = Ok r"
  shows "2 \<le> bi_encoded_len r" and "bi_encoded_len r \<le> length data"
  using assms by (auto simp: ber_integer_parse_Ok_iff Suc_le_eq ber_definite_def dest: ber_length_bounds)

lemma ber_integer_framed:
  assumes "ber_integer_parse_with_identifier (p @ s) ident = Ok r" and "bi_encoded_len r \<le> length p"
  shows "ber_integer_parse_with_identifier (p @ s') ident = Ok r"
proof -
  obtain L c rest where g: "p @ s = ident # L @ c @ rest" "ber_definite L (length c)" "c \<noteq> []"
      "length c \<le> 8" "r = \<lparr>bi_value = of_int (twos_complement c), bi_encoded_len = 1 + length L + length c\<rparr>"
    using assms(1) unfolding ber_integer_parse_Ok_iff by blast
  obtain u where "p = (ident # L @ c) @ u"
    by (rule append_eq_prefixE [of p s "ident # L @ c" rest]) (use assms(2) g in auto)
  then show ?thesis using g unfolding ber_integer_parse_Ok_iff by auto
qed

interpretation ber_int: prefix_decoder
  "\<lambda>data. ok_opt (ber_integer_parse_with_identifier data ident)" bi_encoded_len for ident
  by unfold_locales (auto dest: ber_integer_bounds ber_integer_framed)


end
