(* ===== verification/Codec_Ldap.thy ===== *)
theory Codec_Ldap
  imports Codec_Ber
begin

text \<open>
  LDAP framing: \<open>lib/vey-codec/src/ldap/\<close> (\<open>length.rs\<close>, \<open>message_id.rs\<close>, \<open>sequence.rs\<close>,
  \<open>message.rs\<close>, \<open>result.rs\<close>) on top of the BER parsers. Each parser is shown to accept exactly a
  grammar, to be a prefix decoder and never to panic.
\<close>

section \<open>Lengths and message ids\<close>

datatype ldap_length_parse_error = LlNeedMoreData nat | LlTooLargeValue | LlIndefiniteValue

fun ldap_length_from_ber :: "ber_length_parse_error \<Rightarrow> ldap_length_parse_error" where
  "ldap_length_from_ber (BlNeedMoreData needed) = LlNeedMoreData needed"
| "ldap_length_from_ber BlTooLargeValue = LlTooLargeValue"

record ldap_length =
  ll_value :: nat
  ll_encoded_len :: nat

definition ldap_length_parse :: "bytes \<Rightarrow> (ldap_length_parse_error, ldap_length) rs" where
  "ldap_length_parse data =
     bnd (map_err ldap_length_from_ber (ber_length_parse data)) (\<lambda>ber_len.
     if bl_indefinite ber_len then Err LlIndefiniteValue
     else Ok \<lparr>ll_value = bl_value ber_len, ll_encoded_len = bl_encoded_len ber_len\<rparr>)"

datatype ldap_message_id_parse_error =
    LmiInvalidIntegerValue ber_integer_parse_error
  | LmiNegativeValue
  | LmiTooLargeValue

record ldap_message_id =
  lmi_value :: nat
  lmi_encoded_len :: nat

definition ldap_message_id_parse :: "bytes \<Rightarrow> (ldap_message_id_parse_error, ldap_message_id) rs" where
  "ldap_message_id_parse data =
     bnd (map_err LmiInvalidIntegerValue (ber_integer_parse data)) (\<lambda>ber_integer.
     if sint (bi_value ber_integer) < 0 then Err LmiNegativeValue
     else if sint (bi_value ber_integer) < 2 ^ 32 then
       Ok \<lparr>lmi_value = nat (sint (bi_value ber_integer)), lmi_encoded_len = bi_encoded_len ber_integer\<rparr>
     else Err LmiTooLargeValue)"

lemma ldap_length_parse_Ok_iff:
  "ldap_length_parse data = Ok l \<longleftrightarrow>
    (\<exists>L rest. data = L @ rest \<and> ber_definite L (ll_value l) \<and> ll_encoded_len l = length L)"
proof
  assume "ldap_length_parse data = Ok l"
  then obtain b where b: "ber_length_parse data = Ok b" "\<not> bl_indefinite b"
    and "l = \<lparr>ll_value = bl_value b, ll_encoded_len = bl_encoded_len b\<rparr>"
    by (auto simp: ldap_length_parse_def rs_iff split: if_splits)
  then show "\<exists>L rest. data = L @ rest \<and> ber_definite L (ll_value l) \<and> ll_encoded_len l = length L"
    using ber_length_parse_definite [OF b] by (metis ldap_length.select_convs)
next
  assume "\<exists>L rest. data = L @ rest \<and> ber_definite L (ll_value l) \<and> ll_encoded_len l = length L"
  then show "ldap_length_parse data = Ok l"
    by (auto simp: ldap_length_parse_def ber_definite_parse)
qed

lemma ldap_length_parse_not_Panic [simp]: "ldap_length_parse data \<noteq> Panic"
  by (auto simp: ldap_length_parse_def rs_iff)

lemma ldap_message_id_parse_not_Panic [simp]: "ldap_message_id_parse data \<noteq> Panic"
  by (auto simp: ldap_message_id_parse_def ber_integer_parse_def rs_iff)

lemma ldap_message_id_bounds:
  "ldap_message_id_parse data = Ok i \<Longrightarrow> 2 \<le> lmi_encoded_len i \<and> lmi_encoded_len i \<le> length data \<and>
    lmi_value i < 2 ^ 32"
  by (auto simp: ldap_message_id_parse_def ber_integer_parse_def rs_iff nat_less_iff
    dest: ber_integer_bounds split: if_splits)

lemma ldap_message_id_framed:
  assumes "ldap_message_id_parse (p @ s) = Ok i" and "lmi_encoded_len i \<le> length p"
  shows "ldap_message_id_parse (p @ s') = Ok i"
proof -
  obtain b where "ber_integer_parse_with_identifier (p @ s) 0x02 = Ok b" "bi_encoded_len b \<le> length p"
    and i: "\<not> sint (bi_value b) < 0" "sint (bi_value b) < 2 ^ 32"
      "i = \<lparr>lmi_value = nat (sint (bi_value b)), lmi_encoded_len = bi_encoded_len b\<rparr>"
    using assms by (auto simp: ldap_message_id_parse_def ber_integer_parse_def rs_iff split: if_splits)
  then have "ber_integer_parse (p @ s') = Ok b" unfolding ber_integer_parse_def by (blast intro: ber_integer_framed)
  then show ?thesis using i by (simp add: ldap_message_id_parse_def)
qed

interpretation ldap_mid: prefix_decoder "\<lambda>data. ok_opt (ldap_message_id_parse data)" lmi_encoded_len
  by unfold_locales (auto dest: ldap_message_id_bounds ldap_message_id_framed)

section \<open>Sequences\<close>

datatype ldap_sequence_parse_error =
    LsNeedMoreData nat
  | LsInvalidType
  | LsTooLargeLength
  | LsIndefiniteLength

fun ldap_sequence_from_ber :: "ber_length_parse_error \<Rightarrow> ldap_sequence_parse_error" where
  "ldap_sequence_from_ber (BlNeedMoreData n) = LsNeedMoreData n"
| "ldap_sequence_from_ber BlTooLargeValue = LsTooLargeLength"

record ldap_sequence =
  ls_data :: bytes
  ls_encoded_len :: nat

text \<open>\<open>data.len().saturating_sub(offset)\<close> is the subtraction of natural numbers.\<close>

definition ldap_sequence_parse_with_identifier ::
    "bytes \<Rightarrow> u8 \<Rightarrow> (ldap_sequence_parse_error, ldap_sequence) rs" where
  "ldap_sequence_parse_with_identifier data ident =
     (if data = [] then Err (LsNeedMoreData 1)
      else bnd (idx data 0) (\<lambda>b0.
        if b0 \<noteq> ident then Err LsInvalidType
        else
          bnd (slice_from data 1) (\<lambda>t.
          bnd (map_err ldap_sequence_from_ber (ber_length_parse t)) (\<lambda>ber_length.
          if bl_indefinite ber_length then Err LsIndefiniteLength
          else
            let offset = 1 + bl_encoded_len ber_length in
            if bl_value ber_length = 0 then Ok \<lparr>ls_data = [], ls_encoded_len = offset\<rparr>
            else if length data - offset < bl_value ber_length then Err LsTooLargeLength
            else
              let encoded_len = offset + bl_value ber_length in
              bnd (slice data offset encoded_len) (\<lambda>d.
              Ok \<lparr>ls_data = d, ls_encoded_len = encoded_len\<rparr>)))))"

definition ldap_sequence_parse_octet_string where
  "ldap_sequence_parse_octet_string data = ldap_sequence_parse_with_identifier data 0x04"

definition ldap_sequence_parse_referrals where
  "ldap_sequence_parse_referrals data = ldap_sequence_parse_with_identifier data 0xa3"

definition ldap_sequence_parse_bind_response where
  "ldap_sequence_parse_bind_response data = ldap_sequence_parse_with_identifier data 0x61"

definition ldap_sequence_parse_extended_response where
  "ldap_sequence_parse_extended_response data = ldap_sequence_parse_with_identifier data 0x78"

definition ldap_sequence_parse_extended_response_oid where
  "ldap_sequence_parse_extended_response_oid data = ldap_sequence_parse_with_identifier data 0x8a"

lemma ldap_sequence_parse_not_Panic [simp]: "ldap_sequence_parse_with_identifier data ident \<noteq> Panic"
proof (cases data)
  case (Cons b t)
  show ?thesis
  proof (cases "ber_length_parse t")
    case (Ok l)
    then have "bl_encoded_len l \<le> length t" by (rule ber_length_bounds)
    then show ?thesis
      by (auto simp: ldap_sequence_parse_with_identifier_def Cons Ok Let_def)
  qed (simp_all add: ldap_sequence_parse_with_identifier_def Cons)
qed (simp add: ldap_sequence_parse_with_identifier_def)

lemma ldap_sequence_parse_Ok_iff:
  "ldap_sequence_parse_with_identifier data ident = Ok q \<longleftrightarrow>
    (\<exists>L rest. data = ident # L @ ls_data q @ rest \<and> ber_definite L (length (ls_data q)) \<and>
      ls_encoded_len q = 1 + length L + length (ls_data q))"
  (is "?parse \<longleftrightarrow> ?grammar")
proof
  assume ?parse
  then obtain t l where data: "data = ident # t" and l: "ber_length_parse t = Ok l" "\<not> bl_indefinite l"
    and n: "bl_value l \<le> length t - bl_encoded_len l"
    and q: "ls_data q = take (bl_value l) (drop (bl_encoded_len l) t)"
      "ls_encoded_len q = 1 + bl_encoded_len l + bl_value l"
    by (cases data) (auto simp: ldap_sequence_parse_with_identifier_def Let_def rs_iff split: if_splits)
  obtain L s where t: "t = L @ s" and L: "ber_definite L (bl_value l)" "bl_encoded_len l = length L"
    using ber_length_parse_definite [OF l] .
  then have "data = ident # L @ ls_data q @ drop (bl_value l) s" "length (ls_data q) = bl_value l"
    using data q n by auto
  then show ?grammar using L q by metis
next
  assume ?grammar
  then show ?parse
    by (auto simp: ldap_sequence_parse_with_identifier_def Let_def ber_definite_parse)
qed

lemma ldap_sequence_bounds:
  "ldap_sequence_parse_with_identifier data ident = Ok q \<Longrightarrow>
    2 \<le> ls_encoded_len q \<and> ls_encoded_len q \<le> length data \<and> length (ls_data q) < ls_encoded_len q"
  by (auto simp: ldap_sequence_parse_Ok_iff Suc_le_eq ber_definite_def dest: ber_length_bounds)

lemma ldap_sequence_framed:
  assumes "ldap_sequence_parse_with_identifier (p @ s) ident = Ok q" and "ls_encoded_len q \<le> length p"
  shows "ldap_sequence_parse_with_identifier (p @ s') ident = Ok q"
proof -
  obtain L rest where g: "p @ s = ident # L @ ls_data q @ rest" "ber_definite L (length (ls_data q))"
      "ls_encoded_len q = 1 + length L + length (ls_data q)"
    using assms(1) unfolding ldap_sequence_parse_Ok_iff by blast
  obtain u where "p = (ident # L @ ls_data q) @ u"
    by (rule append_eq_prefixE [of p s "ident # L @ ls_data q" rest]) (use assms(2) g in auto)
  then show ?thesis using g unfolding ldap_sequence_parse_Ok_iff by auto
qed

interpretation ldap_seq: prefix_decoder
  "\<lambda>data. ok_opt (ldap_sequence_parse_with_identifier data ident)" ls_encoded_len for ident
  by unfold_locales (auto dest: ldap_sequence_bounds ldap_sequence_framed)

section \<open>Messages\<close>

datatype ldap_message_parse_error =
    LmNeedMoreData nat
  | LmInvalidBerType
  | LmInvalidMessageLength
  | LmInvalidMessageId ldap_message_id_parse_error

fun ldap_message_from_length :: "ldap_length_parse_error \<Rightarrow> ldap_message_parse_error" where
  "ldap_message_from_length (LlNeedMoreData n) = LmNeedMoreData n"
| "ldap_message_from_length LlTooLargeValue = LmInvalidMessageLength"
| "ldap_message_from_length LlIndefiniteValue = LmInvalidMessageLength"

record ldap_message =
  lm_id :: nat
  lm_payload :: bytes
  lm_encoded_size :: nat

definition ldap_message_parse :: "bytes \<Rightarrow> nat \<Rightarrow> (ldap_message_parse_error, ldap_message) rs" where
  "ldap_message_parse data max_message_length =
     (if data = [] then Err (LmNeedMoreData 1)
      else bnd (idx data 0) (\<lambda>b0.
        if b0 \<noteq> 0x30 then Err LmInvalidBerType
        else
          bnd (slice_from data 1) (\<lambda>t.
          bnd (map_err ldap_message_from_length (ldap_length_parse t)) (\<lambda>len.
          let offset = 1 + ll_encoded_len len; message_length = ll_value len in
          if max_message_length < message_length then Err LmInvalidMessageLength
          else
            bnd (slice_from data offset) (\<lambda>left.
            if length left < message_length then Err (LmNeedMoreData (message_length - length left))
            else
              bnd (slice left 0 message_length) (\<lambda>body.
              bnd (map_err LmInvalidMessageId (ldap_message_id_parse body)) (\<lambda>id.
              bnd (slice left (lmi_encoded_len id) message_length) (\<lambda>payload.
              Ok \<lparr>lm_id = lmi_value id, lm_payload = payload,
                  lm_encoded_size = offset + message_length\<rparr>))))))))"

lemma ldap_length_bounds:
  "ldap_length_parse data = Ok l \<Longrightarrow> 0 < ll_encoded_len l \<and> ll_encoded_len l \<le> length data"
  by (auto simp: ldap_length_parse_Ok_iff ber_definite_def dest: ber_length_bounds)

lemma ldap_message_parse_no_panic: "ldap_message_parse data n \<noteq> Panic"
proof (cases data)
  case (Cons b t)
  show ?thesis
  proof (cases "ldap_length_parse t")
    case (Ok l)
    then have "ll_encoded_len l \<le> length t" using ldap_length_bounds by blast
    then show ?thesis
      by (auto simp: ldap_message_parse_def Cons Ok Let_def rs_iff dest: ldap_message_id_bounds)
  qed (simp_all add: ldap_message_parse_def Cons)
qed (simp add: ldap_message_parse_def)


text \<open>What a request for more data promises, from the length octets up.\<close>

lemma ber_length_need_more:
  assumes "ber_length_parse data = Err (BlNeedMoreData n)"
  shows "0 < n" and "ber_length_parse (data @ ext) = Ok l \<Longrightarrow> n \<le> length ext"
  using assms by (auto simp: ber_length_parse_eq ber_length_spec_def Let_def split: list.splits if_splits)

lemma ldap_length_need_more:
  assumes "ldap_length_parse data = Err (LlNeedMoreData n)"
  shows "0 < n" and "ldap_length_parse (data @ ext) = Ok l \<Longrightarrow> n \<le> length ext"
proof -
  have "LlNeedMoreData n = ldap_length_from_ber e \<longleftrightarrow> e = BlNeedMoreData n" for e by (cases e) auto
  then have ber: "ber_length_parse data = Err (BlNeedMoreData n)"
    using assms by (auto simp: ldap_length_parse_def rs_iff split: if_splits)
  show "0 < n" by (rule ber_length_need_more [OF ber])
  assume "ldap_length_parse (data @ ext) = Ok l"
  then show "n \<le> length ext"
    by (auto simp: ldap_length_parse_def rs_iff split: if_splits intro: ber_length_need_more(2) [OF ber])
qed

lemma ldap_length_prefix: "ldap_length_parse data = Ok l \<Longrightarrow> ldap_length_parse (data @ ext) = Ok l"
  unfolding ldap_length_parse_Ok_iff by (metis append.assoc)

text \<open>
  When \<open>LdapMessage::parse\<close> asks for \<open>n\<close> more bytes, \<open>n\<close> is positive and no continuation of
  fewer than \<open>n\<close> bytes completes the message: a reader that waits for \<open>n\<close> bytes makes progress
  and never waits past the end of the message.
\<close>

theorem ldap_message_need_more:
  assumes "ldap_message_parse data max_len = Err (LmNeedMoreData n)"
  shows "0 < n \<and> (\<forall>ext m. ldap_message_parse (data @ ext) max_len = Ok m \<longrightarrow> n \<le> length ext)"
proof (cases data)
  case Nil
  then show ?thesis using assms by (auto simp: ldap_message_parse_def Suc_le_eq split: if_splits)
next
  case (Cons b t)
  have conv: "ldap_message_from_length e = LmNeedMoreData n \<longleftrightarrow> e = LlNeedMoreData n" for e by (cases e) auto
  show ?thesis
  proof (cases "ldap_length_parse t")
    case (Ok l)
    then have "ll_encoded_len l \<le> length t" using ldap_length_bounds by blast
    moreover from this have "n = ll_value l - (length t - ll_encoded_len l)" "0 < n"
      using assms by (auto simp: ldap_message_parse_def Cons Ok Let_def rs_iff split: if_splits)
    ultimately show ?thesis using ldap_length_prefix [OF Ok]
      by (auto simp: ldap_message_parse_def Cons Let_def rs_iff split: if_splits)
  next
    case (Err e)
    then have e: "ldap_length_parse t = Err (LlNeedMoreData n)"
      using assms by (auto simp: ldap_message_parse_def Cons conv split: if_splits)
    show ?thesis using ldap_length_need_more(1) [OF e] ldap_length_need_more(2) [OF e]
      by (auto simp: ldap_message_parse_def Cons Let_def rs_iff split: if_splits)
  next
    case Panic
    then show ?thesis by simp
  qed
qed

theorem ldap_message_need_more_witness:
  "ldap_message_parse [0x30, 0x05, 0x02] 100 = Err (LmNeedMoreData 4) \<and>
   (\<exists>m. ldap_message_parse ([0x30, 0x05, 0x02] @ [0x01, 0x07, 0x60, 0x00]) 100 = Ok m) \<and>
   4 \<le> length [0x01, 0x07, 0x60, 0x00 :: u8]"
proof -
  note defs = ldap_message_parse_def ldap_length_parse_def ber_length_parse_eq ber_length_spec_def
  have "ldap_message_parse [0x30, 0x05, 0x02] 100 = Err (LmNeedMoreData 4)" by (simp add: defs)
  moreover have "(parse_twos_complement_i64 [7] :: (ber_integer_parse_error, 64 word) rs) = Ok 7"
    using parse_twos_complement_i64_value [of "[7]"] by (simp add: twos_complement_def)
  then have "\<exists>m. ldap_message_parse ([0x30, 0x05, 0x02] @ [0x01, 0x07, 0x60, 0x00]) 100 = Ok m"
    by (simp add: defs ldap_message_id_parse_def ber_integer_parse_def ber_integer_parse_with_identifier_def)
  ultimately show ?thesis using ldap_message_need_more [of "[0x30, 0x05, 0x02]" 100 4] by blast
qed

section \<open>Results\<close>

datatype ldap_result_parse_error =
    LrInvalidResultCode ber_integer_parse_error
  | LrOutOfRangeResultCode
  | LrInvalidMatchedDn ldap_sequence_parse_error
  | LrInvalidDiagnosticMessage ldap_sequence_parse_error
  | LrInvalidReferralsSequence ldap_sequence_parse_error

record ldap_result =
  lr_result_code :: nat
  lr_matched_dn :: bytes
  lr_diagnostic_message :: bytes
  lr_referral_sequence :: bytes
  lr_encoded_len :: nat

definition ldap_result_parse :: "bytes \<Rightarrow> (ldap_result_parse_error, ldap_result) rs" where
  "ldap_result_parse data =
     bnd (map_err LrInvalidResultCode (ber_integer_parse_enumerated data)) (\<lambda>code.
     bnd (if 0 \<le> sint (bi_value code) \<and> sint (bi_value code) < 2 ^ 16
          then Ok (nat (sint (bi_value code))) else Err LrOutOfRangeResultCode) (\<lambda>result_code.
     let offset = bi_encoded_len code in
     bnd (slice_from data offset) (\<lambda>t.
     bnd (map_err LrInvalidMatchedDn (ldap_sequence_parse_octet_string t)) (\<lambda>matched_dn.
     let offset = offset + ls_encoded_len matched_dn in
     bnd (slice_from data offset) (\<lambda>t.
     bnd (map_err LrInvalidDiagnosticMessage (ldap_sequence_parse_octet_string t)) (\<lambda>diagnostic_message.
     let offset = offset + ls_encoded_len diagnostic_message in
     if result_code = 10 then
       bnd (slice_from data offset) (\<lambda>t.
       bnd (map_err LrInvalidReferralsSequence (ldap_sequence_parse_referrals t)) (\<lambda>referral_sequence.
       Ok \<lparr>lr_result_code = result_code, lr_matched_dn = ls_data matched_dn,
           lr_diagnostic_message = ls_data diagnostic_message,
           lr_referral_sequence = ls_data referral_sequence,
           lr_encoded_len = offset + ls_encoded_len referral_sequence\<rparr>))
     else
       Ok \<lparr>lr_result_code = result_code, lr_matched_dn = ls_data matched_dn,
           lr_diagnostic_message = ls_data diagnostic_message, lr_referral_sequence = [],
           lr_encoded_len = offset\<rparr>))))))"

definition ldap_result_is_success :: "ldap_result \<Rightarrow> bool" where
  "ldap_result_is_success r \<longleftrightarrow> lr_result_code r = 0"

lemmas ldap_result_defs = ldap_result_parse_def ber_integer_parse_enumerated_def
  ldap_sequence_parse_octet_string_def ldap_sequence_parse_referrals_def Let_def

lemma ldap_result_parse_Ok_iff:
  "ldap_result_parse data = Ok r \<longleftrightarrow>
    (\<exists>c d m. ber_integer_parse_with_identifier data 0x0a = Ok c \<and>
      sint (bi_value c) = int (lr_result_code r) \<and> lr_result_code r < 2 ^ 16 \<and>
      (let o1 = bi_encoded_len c; o2 = o1 + ls_encoded_len d; o3 = o2 + ls_encoded_len m in
       ldap_sequence_parse_with_identifier (drop o1 data) 0x04 = Ok d \<and> lr_matched_dn r = ls_data d \<and>
       ldap_sequence_parse_with_identifier (drop o2 data) 0x04 = Ok m \<and>
       lr_diagnostic_message r = ls_data m \<and>
       (if lr_result_code r = 10 then
          \<exists>q. ldap_sequence_parse_with_identifier (drop o3 data) 0xa3 = Ok q \<and>
            lr_referral_sequence r = ls_data q \<and> lr_encoded_len r = o3 + ls_encoded_len q
        else lr_referral_sequence r = [] \<and> lr_encoded_len r = o3)))"
  (is "?parse \<longleftrightarrow> ?spec")
proof
  assume ?parse
  then show ?spec by (auto simp: ldap_result_defs rs_iff split: if_splits)
next
  assume ?spec
  then obtain c d m where c: "ber_integer_parse_with_identifier data 0x0a = Ok c"
      "sint (bi_value c) = int (lr_result_code r)" "lr_result_code r < 2 ^ 16"
    and d: "ldap_sequence_parse_with_identifier (drop (bi_encoded_len c) data) 0x04 = Ok d"
    and m: "ldap_sequence_parse_with_identifier (drop (bi_encoded_len c + ls_encoded_len d) data) 0x04 = Ok m"
    and r: "lr_matched_dn r = ls_data d" "lr_diagnostic_message r = ls_data m"
    and ref: "if lr_result_code r = 10 then
        \<exists>q. ldap_sequence_parse_with_identifier
            (drop (bi_encoded_len c + ls_encoded_len d + ls_encoded_len m) data) 0xa3 = Ok q \<and>
          lr_referral_sequence r = ls_data q \<and>
          lr_encoded_len r = bi_encoded_len c + ls_encoded_len d + ls_encoded_len m + ls_encoded_len q
      else lr_referral_sequence r = [] \<and>
        lr_encoded_len r = bi_encoded_len c + ls_encoded_len d + ls_encoded_len m"
    unfolding Let_def by blast
  have "bi_encoded_len c \<le> length data" using ber_integer_bounds(2) [OF c(1)] .
  moreover from this have "bi_encoded_len c + ls_encoded_len d \<le> length data"
    using ldap_sequence_bounds [OF d] by auto
  moreover from this have "bi_encoded_len c + ls_encoded_len d + ls_encoded_len m \<le> length data"
    using ldap_sequence_bounds [OF m] by auto
  ultimately show ?parse using c d m r ref
    by (cases "lr_result_code r = 10"; cases r) (auto simp: ldap_result_defs)
qed

lemma ldap_result_parse_no_panic: "ldap_result_parse data \<noteq> Panic"
proof
  assume "ldap_result_parse data = Panic"
  then show False
    by (auto simp: ldap_result_defs rs_iff split: if_splits
      dest!: ber_integer_bounds(2) ldap_sequence_bounds)
qed

text \<open>
  C32: no LDAP parser panics, whatever the peer sends: every index and slice is in range in
  \<open>LdapMessage::parse\<close>, \<open>LdapResult::parse\<close>, \<open>LdapSequence\<close>, \<open>LdapMessageId::parse\<close>,
  \<open>LdapLength::parse\<close> and the BER parsers under them.
\<close>

theorem ldap_parsers_no_panic:
  "ldap_message_parse data max_len \<noteq> Panic \<and> ldap_result_parse data \<noteq> Panic \<and>
   ldap_sequence_parse_with_identifier data ident \<noteq> Panic \<and> ldap_message_id_parse data \<noteq> Panic \<and>
   ldap_length_parse data \<noteq> Panic \<and> ber_integer_parse_with_identifier data ident \<noteq> Panic \<and>
   ber_length_parse data \<noteq> Panic"
  by (simp add: ldap_message_parse_no_panic ldap_result_parse_no_panic)

end
