(* ===== verification/Dpi_Binary.thy ===== *)
theory Dpi_Binary
  imports Dpi_State Codec_Ldap Codec_Varint Codec_Tls
begin

text \<open>
  The checks of binary protocols on the client's first bytes: SSL and TLS (\<open>protocol/ssl.rs\<close>), MQTT
  (\<open>mqtt.rs\<close>), LDAP (\<open>ldap.rs\<close>), DNS over TCP (\<open>dns.rs\<close>), SMPP (\<open>smpp.rs\<close>), RTMP (\<open>rtmp.rs\<close>) and
  BitTorrent (\<open>bittorrent.rs\<close>). A raw pointer copy is a slice that would panic out of range.
\<close>

section \<open>SSL and TLS\<close>

definition check_legacy_version :: "u8 \<Rightarrow> u8 \<Rightarrow> protocol option" where
  "check_legacy_version byte0 byte1 =
     (if (byte0, byte1) = (0x01, 0x01) then Some PrTlsTlcp
      else if (byte0, byte1) = (0x02, 0x00) \<or> (byte0, byte1) = (0x03, 0x00) then Some PrSslLegacy
      else if (byte0, byte1) = (0x03, 0x01) \<or> (byte0, byte1) = (0x03, 0x02) then Some PrTlsLegacy
      else if (byte0, byte1) = (0x03, 0x03) then Some PrTlsModern
      else None)"

definition check_fragment_len :: "u8 \<Rightarrow> u8 \<Rightarrow> nat option" where
  "check_fragment_len byte0 byte1 =
     (let ssl_payload_len = be_nat [byte0, byte1] in
      if ssl_payload_len = 0 \<or> 2 ^ 14 < ssl_payload_len then None else Some ssl_payload_len)"

definition check_ssl_client_hello_full_handshake_header :: "inspect_state \<Rightarrow> nat \<Rightarrow> bytes \<Rightarrow> verdict" where
  "check_ssl_client_hello_full_handshake_header s fragment_len buf =
     sbnd s (idx buf 0) (\<lambda>b0.
     if b0 \<noteq> 1 then no_match s
     else
       sbnd s (slice buf 1 4) (\<lambda>l.
       let handshake_payload_len = be_nat (0 # l) in
       if handshake_payload_len + 4 < fragment_len then no_match s
       else
         sbnd s (idx buf 4) (\<lambda>b4. sbnd s (idx buf 5) (\<lambda>b5.
         if (b4, b5) = (0x01, 0x01) then found s PrTlsTlcp
         else if (b4, b5) = (0x02, 0x00) \<or> (b4, b5) = (0x03, 0x00) then found s PrSslLegacy
         else if (b4, b5) = (0x03, 0x01) \<or> (b4, b5) = (0x03, 0x02) then found s PrTlsLegacy
         else if (b4, b5) = (0x03, 0x03) \<or> (b4, b5) = (0x03, 0x04) then found s PrTlsModern
         else no_match s))))"

text \<open>The header of one more record; the result is the updated header buffer and the bytes written.\<close>

definition fill_ssl_client_hello_handshake_header ::
    "inspect_state \<Rightarrow> bytes \<Rightarrow> bytes \<Rightarrow> inspect_state \<times> (nat, (bytes \<times> nat) option) rs" where
  "fill_ssl_client_hello_handshake_header s data hdr_buf =
     (if length data < 5 then (s, Err (5 - length data))
      else
        sbnd s (idx data 0) (\<lambda>b0. sbnd s (idx data 1) (\<lambda>b1. sbnd s (idx data 2) (\<lambda>b2.
        sbnd s (idx data 3) (\<lambda>b3. sbnd s (idx data 4) (\<lambda>b4.
        if b0 \<noteq> content_type_code CtHandshake then (exclude_current s, Ok None)
        else if check_legacy_version b1 b2 = None then (exclude_current s, Ok None)
        else case check_fragment_len b3 b4 of
          None \<Rightarrow> (exclude_current s, Ok None)
        | Some fragment_len \<Rightarrow>
            let copy_size = min fragment_len (length hdr_buf) in
            if length data < 5 + copy_size then (s, Err (5 + copy_size - length data))
            else
              sbnd s (slice data 5 (5 + copy_size)) (\<lambda>c.
              (s, Ok (Some (c @ drop copy_size hdr_buf, copy_size))))))))))"

function (sequential) ssl_client_hello_loop ::
    "inspect_state \<Rightarrow> bytes \<Rightarrow> nat \<Rightarrow> nat \<Rightarrow> bytes \<Rightarrow> nat \<Rightarrow> verdict" where
  "ssl_client_hello_loop s data fragment_len offset msg_hdr msg_hdr_nw =
     (if length data < offset then (s, Panic)
      else if drop offset data = [] then sbnd s (usub 11 msg_hdr_nw) (need_more s)
      else case fill_ssl_client_hello_handshake_header s (drop offset data) (drop msg_hdr_nw msg_hdr) of
        (s, Err n) \<Rightarrow> need_more s n
      | (s, Panic) \<Rightarrow> (s, Panic)
      | (s, Ok None) \<Rightarrow> (s, Ok None)
      | (s, Ok (Some (hdr_buf, nw))) \<Rightarrow>
          let msg_hdr = take msg_hdr_nw msg_hdr @ hdr_buf; msg_hdr_nw = msg_hdr_nw + nw in
          if length msg_hdr \<le> msg_hdr_nw
          then check_ssl_client_hello_full_handshake_header s fragment_len msg_hdr
          else ssl_client_hello_loop s data fragment_len (offset + (5 + nw)) msg_hdr msg_hdr_nw)"
  by pat_completeness auto
termination
  by (relation "measure (\<lambda>(s, data, fragment_len, offset, msg_hdr, nw). length data - offset)") auto

declare ssl_client_hello_loop.simps [simp del]

definition check_ssl_client_hello :: "inspect_state \<Rightarrow> bytes \<Rightarrow> verdict" where
  "check_ssl_client_hello s data =
     (if length data < 5 then need_more s (5 - length data)
      else
        sbnd s (idx data 0) (\<lambda>b0.
        if b0 \<noteq> content_type_code CtHandshake then no_match s
        else
          let s = exclude_others [MpSsh, MpHttp, MpRtsp, MpMqtt, MpStomp, MpSmpp, MpRtmp, MpBitTorrent, MpLdap] s in
          sbnd s (idx data 1) (\<lambda>b1. sbnd s (idx data 2) (\<lambda>b2.
          if check_legacy_version b1 b2 = None then no_match s
          else
            sbnd s (idx data 3) (\<lambda>b3. sbnd s (idx data 4) (\<lambda>b4.
            case check_fragment_len b3 b4 of
              None \<Rightarrow> no_match s
            | Some fragment_len \<Rightarrow>
                if length data < 11 then need_more s (11 - length data)
                else if 6 \<le> fragment_len then
                  sbnd s (slice_from data 5) (check_ssl_client_hello_full_handshake_header s fragment_len)
                else
                  sbnd s (slice data 5 (5 + fragment_len)) (\<lambda>c.
                  ssl_client_hello_loop s data fragment_len (5 + fragment_len)
                    (c @ replicate (6 - fragment_len) 0) fragment_len)))))))"

section \<open>MQTT\<close>

definition check_mqtt_client_connect_request :: "inspect_state \<Rightarrow> bytes \<Rightarrow> verdict" where
  "check_mqtt_client_connect_request s data =
     (if length data < 12 then need_more s (12 - length data)
      else
        sbnd s (idx data 0) (\<lambda>b0.
        if b0 \<noteq> 0x10 then no_match s
        else
          let s = exclude_others [MpSsl, MpSsh, MpHttp, MpRtsp, MpStomp, MpSmpp, MpRtmp, MpBitTorrent, MpLdap] s in
          sbnd s (slice data 1 (min (1 + 4) (length data))) (\<lambda>len_src.
          case leb128_decode len_src of
            Panic \<Rightarrow> (s, Panic)
          | Err e \<Rightarrow> if e = LebNeedMoreData \<and> length len_src < 4 then need_more s 1 else no_match s
          | Ok decoded \<Rightarrow>
              let remaining_len = unat (leb_value decoded); len_bytes = leb_encoded_len decoded in
              if remaining_len < 10 then no_match s
              else
                let name_at = 1 + len_bytes; header_end = name_at + 7 in
                if length data < header_end then need_more s (header_end - length data)
                else
                  sbnd s (slice data name_at (name_at + 6)) (\<lambda>name.
                  if name \<noteq> [0x00, 0x04] @ ascii ''MQTT'' then no_match s
                  else
                    sbnd s (idx data (name_at + 6)) (\<lambda>protocol_level.
                    if protocol_level = 0x04 \<or> protocol_level = 0x05 then found s PrMqtt else no_match s)))))"

section \<open>LDAP\<close>

definition check_ldap_tcp_request_message :: "inspect_state \<Rightarrow> bytes \<Rightarrow> size_limit \<Rightarrow> verdict" where
  "check_ldap_tcp_request_message s data sl =
     (if length data < 5 then need_more s (5 - length data)
      else
        sbnd s (idx data 0) (\<lambda>b0.
        if b0 \<noteq> 0x30 then no_match s
        else
          let s = exclude_others [MpBitTorrent, MpHttp, MpMqtt, MpRtmp, MpRtsp, MpSmpp, MpSsh, MpSsl, MpStomp] s in
          sbnd s (slice_from data 1) (\<lambda>d1.
          case ldap_length_parse d1 of
            Panic \<Rightarrow> (s, Panic)
          | Err (LlNeedMoreData n) \<Rightarrow> need_more s n
          | Err _ \<Rightarrow> no_match s
          | Ok v \<Rightarrow>
              if sl_ldap_request_msg sl < ll_value v then no_match s
              else
                let header_len = ll_encoded_len v + 1; content_len = ll_value v in
                if length data < header_len + content_len then need_more s (header_len + content_len - length data)
                else
                  sbnd s (slice data header_len (header_len + content_len)) (\<lambda>content.
                  case ldap_message_id_parse content of
                    Panic \<Rightarrow> (s, Panic)
                  | Err _ \<Rightarrow> no_match s
                  | Ok i \<Rightarrow> if lmi_value i = 0 then no_match s else found s PrLdap))))"

section \<open>DNS over TCP\<close>

definition check_dns_request_message_header :: "bytes \<Rightarrow> (nat, bool) rs" where
  "check_dns_request_message_header hdr =
     bnd (idx hdr 2) (\<lambda>flags.
     if flags AND 0x80 \<noteq> 0 then Ok False
     else bnd (slice hdr 6 10) (\<lambda>counts. Ok (counts = [0x00, 0x00, 0x00, 0x00])))"

definition check_dns_tcp_request_message :: "inspect_state \<Rightarrow> bytes \<Rightarrow> verdict" where
  "check_dns_tcp_request_message s data =
     (if length data < 14 then need_more s (14 - length data)
      else
        sbnd s (slice data 0 2) (\<lambda>l.
        let message_len = be_nat l in
        if message_len < 12 then no_match s
        else
          sbnd s (slice_from data 2) (\<lambda>hdr.
          sbnd s (check_dns_request_message_header hdr) (\<lambda>ok.
          if \<not> ok then no_match s else found s PrDns))))"

section \<open>SMPP\<close>

text \<open>The bounds of the body for a command, or \<open>None\<close> for a command that opens no session.\<close>

definition smpp_body_bounds :: "nat \<Rightarrow> (nat \<times> nat) option" where
  "smpp_body_bounds cmd_id =
     (if cmd_id = 0x00000002 \<or> cmd_id = 0x00000001 \<or> cmd_id = 0x00000009 then Some (7, 16 + 9 + 13 + 1 + 1 + 1 + 41)
      else if cmd_id = 0x0000000B then Some (2, 16 + 9)
      else None)"

definition check_smpp_session_request :: "inspect_state \<Rightarrow> bytes \<Rightarrow> verdict" where
  "check_smpp_session_request s data =
     (if length data < 16 then need_more s (16 - length data)
      else
        sbnd s (idx data 0) (\<lambda>b0.
        if b0 \<noteq> 0x00 then no_match s
        else
          let s = exclude_others [MpSsh, MpHttp, MpSsl, MpRtsp, MpMqtt, MpStomp, MpRtmp, MpBitTorrent, MpLdap] s in
          sbnd s (slice data 0 4) (\<lambda>l.
          let cmd_len = be_nat l in
          if cmd_len < 16 then no_match s
          else
            sbnd s (slice data 4 8) (\<lambda>i.
            case smpp_body_bounds (be_nat i) of
              None \<Rightarrow> no_match s
            | Some (min_body, max_body) \<Rightarrow>
                sbnd s (usub cmd_len 16) (\<lambda>body_len.
                if body_len < min_body \<or> max_body < body_len then no_match s
                else
                  sbnd s (slice data 8 12) (\<lambda>status.
                  if be_nat status \<noteq> 0 then no_match s else found s PrSmpp))))))"

section \<open>RTMP\<close>

definition check_rtmp_tcp_client_handshake :: "inspect_state \<Rightarrow> bytes \<Rightarrow> verdict" where
  "check_rtmp_tcp_client_handshake s data =
     (if length data < 9 then need_more s (1537 - length data)
      else
        sbnd s (idx data 0) (\<lambda>b0.
        if b0 \<noteq> 3 then no_match s
        else
          let s = exclude_others [MpSsh, MpHttp, MpSsl, MpRtsp, MpMqtt, MpStomp, MpSmpp, MpBitTorrent, MpLdap] s in
          sbnd s (slice data 5 9) (\<lambda>z.
          if z \<noteq> [0x00, 0x00, 0x00, 0x00] then no_match s
          else if length data < 1537 then need_more s (1537 - length data)
          else found s PrRtmpOverTcp)))"

section \<open>BitTorrent\<close>

definition check_bittorrent_tcp_handshake :: "inspect_state \<Rightarrow> bytes \<Rightarrow> verdict" where
  "check_bittorrent_tcp_handshake s data =
     (if length data < 68 then need_more s (68 - length data)
      else
        sbnd s (idx data 0) (\<lambda>b0.
        if b0 \<noteq> 0x13 then no_match s
        else
          let s = exclude_others [MpFtp, MpSsh, MpSmtp, MpOdmr, MpPop3, MpImap, MpHttp, MpSsl, MpRtsp, MpMqtt, MpStomp,
            MpSmpp, MpRtmp, MpNats, MpLdap] s in
          sbnd s (slice_from data 1) (\<lambda>rest.
          if starts_with rest (ascii ''BitTorrent protocol'') then found s PrBitTorrentOverTcp else no_match s)))"

end
