(* ===== verification/Dpi_Check_Binary.thy ===== *)
theory Dpi_Check_Binary
  imports Dpi_Contract Dpi_Binary
begin

text \<open>
  The checks of \<open>Dpi_Binary\<close> keep the contract of \<open>Dpi_Contract\<close>. Each excludes the other protocols on
  its first byte.
\<close>

lemma binary_byte0:
  assumes "d \<noteq> []" and "d ! 0 = b" and "list_all (\<lambda>q. rules_out [b] (P q)) ps"
  shows "excluding P self s d (exclude_others ps s)"
  using excluding_others [OF _ starts_with_byte [OF assms(1,2)], of P self s s ps] assms(3)
  by (auto simp: list_all_iff)

section \<open>SSL and TLS\<close>

lemma ssl_full_header_ok:
  assumes "excluding P self s d t" and "has_prefix (P self) d" and "6 \<le> length buf"
  shows "verdict_ok P self s d (check_ssl_client_hello_full_handshake_header t n buf)"
proof -
  have "extends s t" by (rule excluding_extends [OF assms(1)])
  moreover have "buf \<noteq> []" using assms(3) by auto
  ultimately show ?thesis
    using assms by (simp add: check_ssl_client_hello_full_handshake_header_def Let_def)
qed

lemma check_fragment_len_pos: "check_fragment_len a b = Some n \<Longrightarrow> 0 < n"
  by (auto simp: check_fragment_len_def Let_def split: if_splits)

lemma ssl_fill_cases:
  assumes "hdr \<noteq> []"
  obtains (need) n where "0 < n" "\<And>s. fill_ssl_client_hello_handshake_header s data hdr = (s, Err n)"
  | (none) "\<And>s. fill_ssl_client_hello_handshake_header s data hdr = (exclude_current s, Ok None)"
  | (some) hdr' k where "0 < k" "k \<le> length hdr" "length hdr' = length hdr" "5 + k \<le> length data"
      "\<And>s. fill_ssl_client_hello_handshake_header s data hdr = (s, Ok (Some (hdr', k)))"
proof -
  consider "length data < 5" | "5 \<le> length data" "data \<noteq> []" by fastforce
  then show ?thesis
  proof cases
    case 1
    then show ?thesis by (intro need [of "5 - length data"]) (simp_all add: fill_ssl_client_hello_handshake_header_def)
  next
    case 2
    show ?thesis
    proof (cases "data ! 0 \<noteq> content_type_code CtHandshake \<or> check_legacy_version (data ! 1) (data ! 2) = None \<or>
        check_fragment_len (data ! 3) (data ! 4) = None")
      case True
      then show ?thesis
        using 2 by (intro none) (auto simp: fill_ssl_client_hello_handshake_header_def)
    next
      case False
      then obtain n v where n: "check_fragment_len (data ! 3) (data ! 4) = Some n" "data ! 0 = content_type_code CtHandshake"
          "check_legacy_version (data ! 1) (data ! 2) = Some v" by auto
      note pos = check_fragment_len_pos [OF n(1)]
      define c where "c = min n (length hdr)"
      have c: "0 < c" "c \<le> length hdr" using pos assms by (simp_all add: c_def)
      show ?thesis
      proof (cases "length data < 5 + c")
        case True
        then show ?thesis using 2 n
          by (intro need [of "5 + c - length data"]) (simp_all add: fill_ssl_client_hello_handshake_header_def c_def)
      next
        case False
        then show ?thesis using 2 n c
          by (intro some [of c "take c (drop 5 data) @ drop c hdr"])
            (simp_all add: fill_ssl_client_hello_handshake_header_def c_def [symmetric])
      qed
    qed
  qed
qed

lemma ssl_loop_ok:
  assumes "excluding P self s d t" and "has_prefix (P self) d" and "length msg_hdr = 6" and "nw < 6"
    and "offset \<le> length d"
  shows "verdict_ok P self s d (ssl_client_hello_loop t d n offset msg_hdr nw)"
  using assms
proof (induction t d n offset msg_hdr nw rule: ssl_client_hello_loop.induct)
  case (1 t d n offset msg_hdr nw)
  note simps = ssl_client_hello_loop.simps [of t d n offset msg_hdr nw]
  show ?case
  proof (cases "drop offset d = []")
    case True
    then show ?thesis using "1.prems" by (simp add: simps)
  next
    case False
    have "drop nw msg_hdr \<noteq> []" using "1.prems" by simp
    then show ?thesis
    proof (cases rule: ssl_fill_cases [where data = "drop offset d"])
      case (need k)
      then show ?thesis using "1.prems" False by (simp add: simps)
    next
      case none
      then show ?thesis using "1.prems" False by (simp add: simps flip: no_match_def)
    next
      case (some hdr' k)
      have L: "length (take nw msg_hdr @ hdr') = 6" using "1.prems" some by simp
      have next_ok: "verdict_ok P self s d
          (ssl_client_hello_loop t d n (offset + (5 + k)) (take nw msg_hdr @ hdr') (nw + k))" if "nw + k < 6"
        using "1.IH" [OF _ False some(5) [symmetric]] "1.prems" that some L by simp
      show ?thesis
        using "1.prems" False L some next_ok ssl_full_header_ok [OF "1.prems"(1,2)] by (simp add: simps Let_def)
    qed
  qed
qed

lemma ssl_loop_same: "length msg_hdr = 6 \<Longrightarrow> nw < 6 \<Longrightarrow>
  same (ssl_client_hello_loop t d n offset msg_hdr nw) (ssl_client_hello_loop t' d n offset msg_hdr nw)"
proof (induction t d n offset msg_hdr nw arbitrary: t' rule: ssl_client_hello_loop.induct)
  case (1 t d n offset msg_hdr nw)
  note simps = ssl_client_hello_loop.simps [of _ d n offset msg_hdr nw]
  show ?case
  proof (cases "length d < offset \<or> drop offset d = []")
    case True
    then show ?thesis unfolding simps by (auto simp: same_def sbnd_def split: rs.splits)
  next
    case False
    then have F: "\<not> length d < offset" "drop offset d \<noteq> []" by simp_all
    have "drop nw msg_hdr \<noteq> []" using "1.prems" by simp
    then show ?thesis
    proof (cases rule: ssl_fill_cases [where data = "drop offset d"])
      case (some hdr' k)
      have L: "length (take nw msg_hdr @ hdr') = 6" using "1.prems" some by simp
      have "same (ssl_client_hello_loop t d n (offset + (5 + k)) (take nw msg_hdr @ hdr') (nw + k))
          (ssl_client_hello_loop t' d n (offset + (5 + k)) (take nw msg_hdr @ hdr') (nw + k))" if "nw + k < 6"
        using "1.IH" [OF F some(5) [symmetric]] "1.prems" that some L by simp
      moreover have "same (check_ssl_client_hello_full_handshake_header t n m) (check_ssl_client_hello_full_handshake_header t' n m)" for m
        unfolding check_ssl_client_hello_full_handshake_header_def Let_def by (intro same_intros)
      ultimately show ?thesis using F L some unfolding simps by (simp add: Let_def)
    qed (use F in \<open>simp_all add: simps same_def\<close>)
  qed
qed

lemma ssl_ok: "verdict_ok client_prefixes MpSsl s d (check_ssl_client_hello s d)"
proof (cases "length d < 5 \<or> d ! 0 \<noteq> 0x16")
  case True
  then show ?thesis by (cases "d = []") (auto simp: check_ssl_client_hello_def)
next
  case False
  then have L: "5 \<le> length d" "d \<noteq> []" "d ! 0 = 0x16" by auto
  define t where "t = exclude_others [MpSsh, MpHttp, MpRtsp, MpMqtt, MpStomp, MpSmpp, MpRtmp, MpBitTorrent, MpLdap] s"
  have t: "excluding client_prefixes MpSsl s d t"
    unfolding t_def by (rule binary_byte0 [OF L(2,3)]) (simp add: prefix_eval)
  have found: "has_prefix (client_prefixes MpSsl) d"
    by (rule has_prefixI [OF starts_with_byte [OF L(2,3)]]) (simp add: prefix_eval)
  show ?thesis
    using L t ssl_full_header_ok [OF t found] ssl_loop_ok [OF t found] check_fragment_len_pos
    by (auto simp: check_ssl_client_hello_def Let_def t_def [symmetric] split: option.split)
qed

lemma ssl_same: "same (check_ssl_client_hello s d) (check_ssl_client_hello s' d)"
proof -
  have step: "same (if 6 \<le> n then sbnd t (slice_from d 5) (check_ssl_client_hello_full_handshake_header t n)
        else sbnd t (slice d 5 (5 + n)) (\<lambda>c. ssl_client_hello_loop t d n (5 + n) (c @ replicate (6 - n) 0) n))
      (if 6 \<le> n then sbnd t' (slice_from d 5) (check_ssl_client_hello_full_handshake_header t' n)
        else sbnd t' (slice d 5 (5 + n)) (\<lambda>c. ssl_client_hello_loop t' d n (5 + n) (c @ replicate (6 - n) 0) n))" for t t' n
  proof (cases "6 \<le> n")
    case True
    then show ?thesis by (simp add: check_ssl_client_hello_full_handshake_header_def Let_def same_intros)
  next
    case False
    then show ?thesis
      using ssl_loop_same [of "take n (drop 5 d) @ replicate (6 - n) 0" n t d n "5 + n" t']
      by (cases "5 + n \<le> length d") (simp_all add: slice_def same_def)
  qed
  show ?thesis unfolding check_ssl_client_hello_def Let_def by (intro step same_intros)
qed

interpretation ssl: protocol_check client_prefixes MpSsl check_ssl_client_hello
  by unfold_locales (rule ssl_ok, rule ssl_same)

section \<open>MQTT, LDAP and DNS\<close>

lemma mqtt_ok: "verdict_ok client_prefixes MpMqtt s d (check_mqtt_client_connect_request s d)"
proof (cases "length d < 12 \<or> d ! 0 \<noteq> 0x10")
  case True
  then show ?thesis by (cases "d = []") (auto simp: check_mqtt_client_connect_request_def)
next
  case False
  then have L: "12 \<le> length d" "d \<noteq> []" "d ! 0 = 0x10" by auto
  define t where "t = exclude_others [MpSsl, MpSsh, MpHttp, MpRtsp, MpStomp, MpSmpp, MpRtmp, MpBitTorrent, MpLdap] s"
  have t: "excluding client_prefixes MpMqtt s d t"
    unfolding t_def by (rule binary_byte0 [OF L(2,3)]) (simp add: prefix_eval)
  have sub: "extends s t" by (rule excluding_extends [OF t])
  have found: "has_prefix (client_prefixes MpMqtt) d"
    by (rule has_prefixI [OF starts_with_byte [OF L(2,3)]]) (simp add: prefix_eval)
  have "leb128_decode (take 4 (drop 1 d)) \<noteq> Panic" by (rule leb128_decode_not_Panic)
  then show ?thesis
    using L t sub found
    by (cases "leb128_decode (take 4 (drop 1 d))")
      (simp_all add: check_mqtt_client_connect_request_def Let_def t_def [symmetric] del: ascii_simps)
qed

lemma mqtt_same: "same (check_mqtt_client_connect_request s d) (check_mqtt_client_connect_request s' d)"
  unfolding check_mqtt_client_connect_request_def Let_def by (intro same_intros)

interpretation mqtt: protocol_check client_prefixes MpMqtt check_mqtt_client_connect_request
  by unfold_locales (rule mqtt_ok, rule mqtt_same)

lemma ldap_ok: "verdict_ok client_prefixes MpLdap s d (check_ldap_tcp_request_message s d sl)"
proof (cases "length d < 5 \<or> d ! 0 \<noteq> 0x30")
  case True
  then show ?thesis by (cases "d = []") (auto simp: check_ldap_tcp_request_message_def)
next
  case False
  then have L: "5 \<le> length d" "d \<noteq> []" "d ! 0 = 0x30" by auto
  define t where "t = exclude_others [MpBitTorrent, MpHttp, MpMqtt, MpRtmp, MpRtsp, MpSmpp, MpSsh, MpSsl, MpStomp] s"
  have t: "excluding client_prefixes MpLdap s d t"
    unfolding t_def by (rule binary_byte0 [OF L(2,3)]) (simp add: prefix_eval)
  have sub: "extends s t" by (rule excluding_extends [OF t])
  have found: "has_prefix (client_prefixes MpLdap) d"
    by (rule has_prefixI [OF starts_with_byte [OF L(2,3)]]) (simp add: prefix_eval)
  have id: "verdict_ok client_prefixes MpLdap s d
      (case ldap_message_id_parse c of Panic \<Rightarrow> (t, Panic) | Err _ \<Rightarrow> no_match t
       | Ok i \<Rightarrow> if lmi_value i = 0 then no_match t else found t PrLdap)" for c
    using t sub found by (cases "ldap_message_id_parse c") simp_all
  have need: "0 < n" if "ldap_length_parse (drop 1 d) = Err (LlNeedMoreData n)" for n
    using ldap_length_need_more(1) [OF that] .
  show ?thesis
  proof (cases "ldap_length_parse (drop 1 d)")
    case (Ok v)
    then show ?thesis using L t id by (simp add: check_ldap_tcp_request_message_def Let_def t_def [symmetric])
  next
    case (Err e)
    then show ?thesis
      using L t need by (cases e) (simp_all add: check_ldap_tcp_request_message_def Let_def t_def [symmetric])
  qed simp
qed

lemma ldap_same: "same (check_ldap_tcp_request_message s d sl) (check_ldap_tcp_request_message s' d sl)"
  unfolding check_ldap_tcp_request_message_def Let_def
  by (intro same_intros) (auto simp: same_def split: ldap_length_parse_error.splits)

interpretation ldap: protocol_check client_prefixes MpLdap "\<lambda>s d. check_ldap_tcp_request_message s d sl" for sl
  by unfold_locales (rule ldap_ok, rule ldap_same)

lemma dns_ok: "verdict_ok client_prefixes MpDns s d (check_dns_tcp_request_message s d)"
proof (cases "length d < 14")
  case False
  have "has_prefix (client_prefixes MpDns) d" by (simp add: prefix_eval has_prefix_def)
  with False show ?thesis
    by (simp add: check_dns_tcp_request_message_def check_dns_request_message_header_def Let_def)
qed (simp add: check_dns_tcp_request_message_def)

lemma dns_same: "same (check_dns_tcp_request_message s d) (check_dns_tcp_request_message s' d)"
  unfolding check_dns_tcp_request_message_def Let_def by (intro same_intros)

interpretation dns: protocol_check client_prefixes MpDns check_dns_tcp_request_message
  by unfold_locales (rule dns_ok, rule dns_same)

section \<open>SMPP, RTMP and BitTorrent\<close>

lemma smpp_ok: "verdict_ok client_prefixes MpSmpp s d (check_smpp_session_request s d)"
proof (cases "length d < 16 \<or> d ! 0 \<noteq> 0x00")
  case True
  then show ?thesis by (cases "d = []") (auto simp: check_smpp_session_request_def)
next
  case False
  then have L: "16 \<le> length d" "d \<noteq> []" "d ! 0 = 0x00" by auto
  define t where "t = exclude_others [MpSsh, MpHttp, MpSsl, MpRtsp, MpMqtt, MpStomp, MpRtmp, MpBitTorrent, MpLdap] s"
  have t: "excluding client_prefixes MpSmpp s d t"
    unfolding t_def by (rule binary_byte0 [OF L(2,3)]) (simp add: prefix_eval)
  have sub: "extends s t" by (rule excluding_extends [OF t])
  have found: "has_prefix (client_prefixes MpSmpp) d"
    by (rule has_prefixI [OF starts_with_byte [OF L(2,3)]]) (simp add: prefix_eval)
  show ?thesis
    using L t sub found
    by (simp add: check_smpp_session_request_def Let_def t_def [symmetric] split: option.split)
qed

lemma smpp_same: "same (check_smpp_session_request s d) (check_smpp_session_request s' d)"
  unfolding check_smpp_session_request_def Let_def by (intro same_intros)

interpretation smpp: protocol_check client_prefixes MpSmpp check_smpp_session_request
  by unfold_locales (rule smpp_ok, rule smpp_same)

lemma rtmp_ok: "verdict_ok client_prefixes MpRtmp s d (check_rtmp_tcp_client_handshake s d)"
proof (cases "length d < 9 \<or> d ! 0 \<noteq> 3")
  case True
  then show ?thesis by (cases "d = []") (auto simp: check_rtmp_tcp_client_handshake_def)
next
  case False
  then have L: "9 \<le> length d" "d \<noteq> []" "d ! 0 = 3" by auto
  define t where "t = exclude_others [MpSsh, MpHttp, MpSsl, MpRtsp, MpMqtt, MpStomp, MpSmpp, MpBitTorrent, MpLdap] s"
  have t: "excluding client_prefixes MpRtmp s d t"
    unfolding t_def by (rule binary_byte0 [OF L(2,3)]) (simp add: prefix_eval)
  have sub: "extends s t" by (rule excluding_extends [OF t])
  have found: "has_prefix (client_prefixes MpRtmp) d"
    by (rule has_prefixI [OF starts_with_byte [OF L(2,3)]]) (simp add: prefix_eval)
  show ?thesis
    using L t sub found by (simp add: check_rtmp_tcp_client_handshake_def Let_def t_def [symmetric])
qed

lemma rtmp_same: "same (check_rtmp_tcp_client_handshake s d) (check_rtmp_tcp_client_handshake s' d)"
  unfolding check_rtmp_tcp_client_handshake_def Let_def by (intro same_intros)

interpretation rtmp: protocol_check client_prefixes MpRtmp check_rtmp_tcp_client_handshake
  by unfold_locales (rule rtmp_ok, rule rtmp_same)

text \<open>BitTorrent is checked on either side; its exclusions hold against both tables.\<close>

lemma bittorrent_ok:
  assumes "list_all (\<lambda>q. rules_out [0x13] (P q)) [MpFtp, MpSsh, MpSmtp, MpOdmr, MpPop3, MpImap, MpHttp, MpSsl, MpRtsp,
      MpMqtt, MpStomp, MpSmpp, MpRtmp, MpNats, MpLdap]"
    and "P MpBitTorrent = [0x13 # ascii ''BitTorrent protocol'']"
  shows "verdict_ok P MpBitTorrent s d (check_bittorrent_tcp_handshake s d)"
proof (cases "length d < 68 \<or> d ! 0 \<noteq> 0x13")
  case True
  then show ?thesis by (cases "d = []") (auto simp: check_bittorrent_tcp_handshake_def)
next
  case False
  then have L: "68 \<le> length d" "d \<noteq> []" "d ! 0 = 0x13" by auto
  define t where "t = exclude_others [MpFtp, MpSsh, MpSmtp, MpOdmr, MpPop3, MpImap, MpHttp, MpSsl, MpRtsp, MpMqtt, MpStomp,
            MpSmpp, MpRtmp, MpNats, MpLdap] s"
  have t: "excluding P MpBitTorrent s d t" unfolding t_def by (rule binary_byte0 [OF L(2,3) assms(1)])
  have sub: "extends s t" by (rule excluding_extends [OF t])
  have "d = 0x13 # drop 1 d" using L(2,3) by (cases d) auto
  then have found: "has_prefix (P MpBitTorrent) d" if "starts_with (drop 1 d) (ascii ''BitTorrent protocol'')"
    unfolding assms(2) using that by (auto simp: has_prefix_def starts_with_iff simp del: ascii_simps)
  show ?thesis
    using L t sub found by (simp add: check_bittorrent_tcp_handshake_def Let_def t_def [symmetric] del: ascii_simps)
qed

lemma bittorrent_same: "same (check_bittorrent_tcp_handshake s d) (check_bittorrent_tcp_handshake s' d)"
  unfolding check_bittorrent_tcp_handshake_def Let_def by (intro same_intros)

interpretation bt_client: protocol_check client_prefixes MpBitTorrent check_bittorrent_tcp_handshake
  by unfold_locales ((rule bittorrent_ok; simp add: prefix_eval), rule bittorrent_same)

interpretation bt_server: protocol_check server_prefixes MpBitTorrent check_bittorrent_tcp_handshake
  by unfold_locales ((rule bittorrent_ok; simp add: prefix_eval), rule bittorrent_same)

end
