(* ===== verification/Net_Types.thy ===== *)
theory Net_Types
  imports Vey_Prelude
begin

text \<open>
  Names on the network: \<open>DomainName\<close> (\<open>lib/vey-types/src/net/domain.rs\<close>), \<open>Host\<close> (\<open>net/host.rs\<close>), the TLS
  server name (\<open>net/tls/server_name.rs\<close>) and the ALPN list (\<open>net/tls/alpn.rs\<close>). Strings are their UTF-8
  bytes. The conversion of the \<open>idna\<close> crate and the text parsers of \<open>std::net\<close> are the fields of the
  record \<open>net_parsers\<close>.
\<close>

section \<open>Domain names\<close>

type_synonym u128 = "128 word"

record net_parsers =
  np_idna :: "bytes \<Rightarrow> bytes option"
  np_ipv4 :: "bytes \<Rightarrow> u32 option"
  np_ipv6 :: "bytes \<Rightarrow> u128 option"
  np_utf8 :: "bytes \<Rightarrow> bool"

datatype domain_name = DomainName (fqdn: bytes)

datatype domain_name_parse_error = DnEmpty | DnTooLong | DnInvalid

definition dot :: u8 where
  "dot = 0x2E"

definition domain_as_str :: "domain_name \<Rightarrow> ('e, bytes) rs" where
  "domain_as_str d = bnd (usub (length (fqdn d)) 1) (slice (fqdn d) 0)"

text \<open>\<open>self.fqdn.len() as u8 - 1\<close>.\<close>

definition domain_len_u8 :: "domain_name \<Rightarrow> ('e, u8) rs" where
  "domain_len_u8 d =
     (let n = (of_nat (length (fqdn d)) :: u8) in if n = 0 then Panic else Ok (n - 1))"

text \<open>\<open>str::split('.')\<close>, \<open>join(".")\<close> and \<open>str::strip_suffix\<close>.\<close>

fun split_dots :: "bytes \<Rightarrow> bytes list" where
  "split_dots [] = [[]]"
| "split_dots (x # xs) =
     (if x = dot then [] # split_dots xs
      else case split_dots xs of [] \<Rightarrow> [[x]] | l # ls \<Rightarrow> (x # l) # ls)"

fun join_dots :: "bytes list \<Rightarrow> bytes" where
  "join_dots [] = []"
| "join_dots [l] = l"
| "join_dots (l # m # ls) = l @ dot # join_dots (m # ls)"

definition str_strip_suffix :: "bytes \<Rightarrow> bytes \<Rightarrow> bytes option" where
  "str_strip_suffix s suf =
     (let n = length s - length suf in
      if length suf \<le> length s \<and> drop n s = suf then Some (take n s) else None)"

definition domain_to_reversed :: "domain_name \<Rightarrow> ('e, bytes) rs" where
  "domain_to_reversed d =
     bnd (domain_as_str d) (\<lambda>s. Ok (join_dots (rev (split_dots s)) @ [dot]))"

definition domain_strip_suffix :: "domain_name \<Rightarrow> domain_name \<Rightarrow> ('e, bytes option) rs" where
  "domain_strip_suffix d suf =
     bnd (domain_as_str d) (\<lambda>s.
     bnd (domain_as_str suf) (\<lambda>t.
     case str_strip_suffix s t of None \<Rightarrow> Ok None
     | Some p \<Rightarrow> Ok (str_strip_suffix p [dot])))"

definition domain_replace_suffix ::
    "domain_name \<Rightarrow> domain_name \<Rightarrow> domain_name \<Rightarrow> (domain_name_parse_error, domain_name option) rs" where
  "domain_replace_suffix d old_suf new_suf =
     bnd (domain_strip_suffix d old_suf) (\<lambda>r.
     case r of None \<Rightarrow> Ok None
     | Some s \<Rightarrow>
         bnd (domain_as_str new_suf) (\<lambda>t.
         let new_len = length s + 1 + length t + 1 in
         if 255 < new_len then Err DnTooLong
         else Ok (Some (DomainName (s @ [dot] @ t @ [dot])))))"

definition domain_parse :: "net_parsers \<Rightarrow> bytes \<Rightarrow> (domain_name_parse_error, domain_name) rs" where
  "domain_parse np b =
     (let b = dropWhile (\<lambda>x. x = dot) b in
      if b = [] then Err DnEmpty
      else
        bnd (ok_or DnInvalid (np_idna np b)) (\<lambda>domain.
        if \<not> (domain \<noteq> [] \<and> last domain = dot) then
          if 254 < length domain then Err DnTooLong else Ok (DomainName (domain @ [dot]))
        else if 255 < length domain then Err DnTooLong
        else Ok (DomainName domain)))"

section \<open>Hosts\<close>

datatype ip_addr = IpV4 u32 | IpV6 u128

datatype host = HostIp ip_addr | HostDomain domain_name

text \<open>\<open>Ipv6Addr::to_ipv4_mapped\<close>: the addresses \<open>::ffff:a.b.c.d\<close>.\<close>

definition to_ipv4_mapped :: "u128 \<Rightarrow> u32 option" where
  "to_ipv4_mapped ip = (if drop_bit 32 ip = 0xFFFF then Some (ucast ip) else None)"

definition host_from_maybe_mapped_ip6 :: "u128 \<Rightarrow> host" where
  "host_from_maybe_mapped_ip6 ip6 =
     (case to_ipv4_mapped ip6 of Some ip4 \<Rightarrow> HostIp (IpV4 ip4) | None \<Rightarrow> HostIp (IpV6 ip6))"

definition host_from_domain_str :: "net_parsers \<Rightarrow> bytes \<Rightarrow> host option" where
  "host_from_domain_str np s = map_option HostDomain (ok_opt (domain_parse np s))"

text \<open>\<open>IpAddr::from_str\<close> tries an IPv4 and then an IPv6 address.\<close>

definition ip_addr_from_str :: "net_parsers \<Rightarrow> bytes \<Rightarrow> ip_addr option" where
  "ip_addr_from_str np s =
     (case np_ipv4 np s of Some v4 \<Rightarrow> Some (IpV4 v4) | None \<Rightarrow> map_option IpV6 (np_ipv6 np s))"

text \<open>The arms of \<open>Host::from_str\<close> for a first byte that is a digit or a hex letter.\<close>

definition host_ip_literal :: "net_parsers \<Rightarrow> u8 \<Rightarrow> bytes \<Rightarrow> host option" where
  "host_ip_literal np c s =
     (if 0x30 \<le> c \<and> c \<le> 0x39 then
        (case ip_addr_from_str np s of
           Some (IpV4 ip) \<Rightarrow> Some (HostIp (IpV4 ip))
         | Some (IpV6 ip6) \<Rightarrow> Some (host_from_maybe_mapped_ip6 ip6)
         | None \<Rightarrow> None)
      else if 0x61 \<le> c \<and> c \<le> 0x66 \<or> 0x41 \<le> c \<and> c \<le> 0x46 then
        map_option (\<lambda>ip6. HostIp (IpV6 ip6)) (np_ipv6 np s)
      else None)"

definition host_from_str :: "net_parsers \<Rightarrow> bytes \<Rightarrow> (unit, host) rs" where
  "host_from_str np s =
     (if s = [] then Err ()
      else
        bnd (idx s 0) (\<lambda>c.
        if c = 0x5B then
          bnd (usub (length s) 1) (\<lambda>pos_last.
          bnd (idx s pos_last) (\<lambda>l.
          if l = 0x5D then
            bnd (slice s 1 pos_last) (\<lambda>inner.
            ok_or () (map_option host_from_maybe_mapped_ip6 (np_ipv6 np inner)))
          else Err ()))
        else if c = 0x3A then ok_or () (map_option host_from_maybe_mapped_ip6 (np_ipv6 np s))
        else
          case host_ip_literal np c s of
            Some h \<Rightarrow> Ok h
          | None \<Rightarrow> ok_or () (host_from_domain_str np s)))"

definition to_ascii_lower :: "u8 \<Rightarrow> u8" where
  "to_ascii_lower c = (if 0x41 \<le> c \<and> c \<le> 0x5A then c + 0x20 else c)"

definition eq_ignore_ascii_case :: "bytes \<Rightarrow> bytes \<Rightarrow> bool" where
  "eq_ignore_ascii_case xs ys \<longleftrightarrow> map to_ascii_lower xs = map to_ascii_lower ys"

definition parse_smtp_ipv6_literal :: "net_parsers \<Rightarrow> bytes \<Rightarrow> ('e, host option) rs" where
  "parse_smtp_ipv6_literal np buf =
     (case memchr 0x3A buf of None \<Rightarrow> Ok None
      | Some d \<Rightarrow>
          bnd (slice buf 0 d) (\<lambda>tag.
          if \<not> eq_ignore_ascii_case tag (ascii ''IPv6'') then Ok None
          else
            bnd (slice_from buf (d + 1)) (\<lambda>s.
            if \<not> np_utf8 np s then Ok None
            else Ok (map_option (\<lambda>v6. HostIp (IpV6 v6)) (np_ipv6 np s)))))"

definition parse_smtp_host_address :: "net_parsers \<Rightarrow> bytes \<Rightarrow> ('e, host option) rs" where
  "parse_smtp_host_address np buf =
     (if buf = [] then Ok None
      else
        bnd (idx buf 0) (\<lambda>c.
        if c = 0x5B then
          bnd (usub (length buf) 1) (\<lambda>stop.
          bnd (idx buf stop) (\<lambda>l.
          if l \<noteq> 0x5D then Ok None
          else
            bnd (slice buf 1 stop) (\<lambda>inner.
            if \<not> np_utf8 np inner then Ok None
            else case np_ipv4 np inner of
              Some v4 \<Rightarrow> Ok (Some (HostIp (IpV4 v4)))
            | None \<Rightarrow> parse_smtp_ipv6_literal np inner)))
        else if memchr 0x3A buf \<noteq> None then parse_smtp_ipv6_literal np buf
        else if \<not> np_utf8 np buf then Ok None
        else Ok (host_from_domain_str np buf)))"

section \<open>The server name extension\<close>

datatype tls_server_name_error =
    SnNotEnoughData nat
  | SnInvalidListLength nat
  | SnInvalidNameType u8
  | SnInvalidNameLength nat
  | SnInvalidDomain domain_name_parse_error

definition server_name_from_extension_value ::
    "net_parsers \<Rightarrow> bytes \<Rightarrow> (tls_server_name_error, domain_name) rs" where
  "server_name_from_extension_value np buf =
     (let buf_len = length buf in
      if buf_len < 5 then Err (SnNotEnoughData buf_len)
      else
        bnd (slice buf 0 2) (\<lambda>l.
        let list_len = be_nat l in
        if list_len + 2 \<noteq> buf_len then Err (SnInvalidListLength list_len)
        else
          bnd (idx buf 2) (\<lambda>name_type.
          if name_type \<noteq> 0x00 then Err (SnInvalidNameType name_type)
          else
            bnd (slice buf 3 5) (\<lambda>n.
            let name_len = be_nat n in
            if buf_len < name_len + 5 then Err (SnInvalidNameLength name_len)
            else
              bnd (slice buf 5 (5 + name_len)) (\<lambda>name.
              map_err SnInvalidDomain (domain_parse np name))))))"

section \<open>Application protocols\<close>

datatype alpn_protocol =
    AlpnHttp10 | AlpnHttp11 | AlpnHttp2 | AlpnHttp3 | AlpnFtp | AlpnSmtp | AlpnImap | AlpnPop3 | AlpnNntp
  | AlpnNnsp | AlpnMqtt | AlpnDnsOverTls | AlpnDnsOverQuic

fun alpn_as_str :: "alpn_protocol \<Rightarrow> bytes" where
  "alpn_as_str AlpnHttp10 = ascii ''http/1.0''"
| "alpn_as_str AlpnHttp11 = ascii ''http/1.1''"
| "alpn_as_str AlpnHttp2 = ascii ''h2''"
| "alpn_as_str AlpnHttp3 = ascii ''h3''"
| "alpn_as_str AlpnFtp = ascii ''ftp''"
| "alpn_as_str AlpnSmtp = ascii ''smtp''"
| "alpn_as_str AlpnImap = ascii ''imap''"
| "alpn_as_str AlpnPop3 = ascii ''pop3''"
| "alpn_as_str AlpnNntp = ascii ''nntp''"
| "alpn_as_str AlpnNnsp = ascii ''nnsp''"
| "alpn_as_str AlpnMqtt = ascii ''mqtt''"
| "alpn_as_str AlpnDnsOverTls = ascii ''dot''"
| "alpn_as_str AlpnDnsOverQuic = ascii ''doq''"

fun wired_identification_sequence :: "alpn_protocol \<Rightarrow> bytes" where
  "wired_identification_sequence AlpnHttp10 = 8 # ascii ''http/1.0''"
| "wired_identification_sequence AlpnHttp11 = 8 # ascii ''http/1.1''"
| "wired_identification_sequence AlpnHttp2 = 2 # ascii ''h2''"
| "wired_identification_sequence AlpnHttp3 = 2 # ascii ''h3''"
| "wired_identification_sequence AlpnFtp = 3 # ascii ''ftp''"
| "wired_identification_sequence AlpnSmtp = 4 # ascii ''smtp''"
| "wired_identification_sequence AlpnImap = 4 # ascii ''imap''"
| "wired_identification_sequence AlpnPop3 = 4 # ascii ''pop3''"
| "wired_identification_sequence AlpnNntp = 4 # ascii ''nntp''"
| "wired_identification_sequence AlpnNnsp = 4 # ascii ''nnsp''"
| "wired_identification_sequence AlpnMqtt = 4 # ascii ''mqtt''"
| "wired_identification_sequence AlpnDnsOverTls = 3 # ascii ''dot''"
| "wired_identification_sequence AlpnDnsOverQuic = 3 # ascii ''doq''"

definition identification_sequence :: "alpn_protocol \<Rightarrow> ('e, bytes) rs" where
  "identification_sequence p = slice_from (wired_identification_sequence p) 1"

definition alpn_from_selected :: "bytes \<Rightarrow> alpn_protocol option" where
  "alpn_from_selected buf =
     (if buf = ascii ''http/1.0'' then Some AlpnHttp10
      else if buf = ascii ''http/1.1'' then Some AlpnHttp11
      else if buf = ascii ''h2'' then Some AlpnHttp2
      else if buf = ascii ''h3'' then Some AlpnHttp3
      else if buf = ascii ''ftp'' then Some AlpnFtp
      else if buf = ascii ''smtp'' then Some AlpnSmtp
      else if buf = ascii ''imap'' then Some AlpnImap
      else if buf = ascii ''pop3'' then Some AlpnPop3
      else if buf = ascii ''nntp'' then Some AlpnNntp
      else if buf = ascii ''nnsp'' then Some AlpnNnsp
      else if buf = ascii ''mqtt'' then Some AlpnMqtt
      else if buf = ascii ''dot'' then Some AlpnDnsOverTls
      else if buf = ascii ''doq'' then Some AlpnDnsOverQuic
      else None)"

definition encode_wired_list :: "alpn_protocol list \<Rightarrow> bytes" where
  "encode_wired_list protocols = foldl (\<lambda>buf p. buf @ wired_identification_sequence p) [] protocols"

datatype tls_alpn_error =
    AlNotEnoughData nat
  | AlInvalidListLength nat
  | AlEmptyProtocolName
  | AlTruncatedProtocolName

text \<open>The loop over the names, from an offset.\<close>

function (sequential) alpn_check_loop :: "bytes \<Rightarrow> nat \<Rightarrow> (tls_alpn_error, unit) rs" where
  "alpn_check_loop buf offset =
     (if length buf = offset then Ok ()
      else if length buf < offset then Err AlTruncatedProtocolName
      else
        bnd (idx buf offset) (\<lambda>name_len.
        if unat name_len = 0 then Err AlEmptyProtocolName
        else alpn_check_loop buf (offset + (1 + unat name_len))))"
  by pat_completeness auto
termination
  by (relation "measure (\<lambda>(buf, offset). length buf - offset)") (auto simp: idx_def split: if_splits)

datatype tls_alpn = TlsAlpn (raw_list: bytes)

definition tls_alpn_from_extension_value :: "bytes \<Rightarrow> (tls_alpn_error, tls_alpn) rs" where
  "tls_alpn_from_extension_value buf =
     (let buf_len = length buf in
      if buf_len < 2 then Err (AlNotEnoughData buf_len)
      else
        bnd (slice buf 0 2) (\<lambda>l.
        let list_len = be_nat l in
        if list_len + 2 \<noteq> buf_len then Err (AlInvalidListLength list_len)
        else
          bnd (alpn_check_loop buf 2) (\<lambda>_.
          bnd (slice_from buf 2) (\<lambda>raw. Ok (TlsAlpn raw)))))"

function (sequential) retain_loop :: "(bytes \<Rightarrow> bool) \<Rightarrow> bytes \<Rightarrow> nat \<Rightarrow> bytes \<Rightarrow> ('e, bytes) rs" where
  "retain_loop retain raw offset new =
     (if offset < length raw then
        bnd (idx raw offset) (\<lambda>l.
        let len = unat l in
        if length raw < offset + len then Ok new
        else
          let start = offset + 1; stop = start + len in
          bnd (slice raw start stop) (\<lambda>name.
          if retain name then
            bnd (slice raw offset stop) (\<lambda>item. retain_loop retain raw stop (new @ item))
          else retain_loop retain raw stop new))
      else Ok new)"
  by pat_completeness auto
termination
  by (relation "measure (\<lambda>(retain, raw, offset, new). length raw - offset)") (auto simp: rs_iff)

definition tls_alpn_retain_clone :: "(bytes \<Rightarrow> bool) \<Rightarrow> tls_alpn \<Rightarrow> ('e, tls_alpn) rs" where
  "tls_alpn_retain_clone retain a = map_ok TlsAlpn (retain_loop retain (raw_list a) 0 [])"

definition tls_alpn_is_empty :: "tls_alpn \<Rightarrow> bool" where
  "tls_alpn_is_empty a \<longleftrightarrow> raw_list a = []"

declare alpn_check_loop.simps [simp del] retain_loop.simps [simp del]

section \<open>Well-formed domain names\<close>

definition domain_wf :: "domain_name \<Rightarrow> bool" where
  "domain_wf d \<longleftrightarrow> fqdn d \<noteq> [] \<and> last (fqdn d) = dot \<and> length (fqdn d) \<le> 255"

definition domain_str :: "domain_name \<Rightarrow> bytes" where
  "domain_str d = butlast (fqdn d)"

lemma domain_parse_wf: "domain_parse np b = Ok d \<Longrightarrow> domain_wf d"
  by (auto simp: domain_parse_def domain_wf_def Let_def rs_iff split: if_splits)

lemma domain_as_str_eq [simp]: "domain_wf d \<Longrightarrow> domain_as_str d = Ok (domain_str d)"
  by (cases "fqdn d") (auto simp: domain_as_str_def domain_wf_def domain_str_def butlast_conv_take)

lemma domain_fqdn: "domain_wf d \<Longrightarrow> fqdn d = domain_str d @ [dot]"
  by (metis append_butlast_last_id domain_str_def domain_wf_def)

lemma domain_str_length: "domain_wf d \<Longrightarrow> length (domain_str d) \<le> 254 \<and> length (fqdn d) = length (domain_str d) + 1"
  by (auto simp: domain_wf_def domain_str_def)

text \<open>
  C37: whatever bytes are parsed and whatever the IDNA conversion returns, an accepted domain name is a
  fully qualified name of at most 255 bytes with its final dot; so its text form exists, has at most 254
  bytes, and the length byte that is computed from it does not wrap.
\<close>

theorem domain_parse_well_formed:
  assumes "domain_parse np b = Ok d"
  shows "domain_wf d \<and> domain_as_str d = (Ok (domain_str d) :: (unit, bytes) rs) \<and>
    (\<exists>n. domain_len_u8 d = (Ok n :: (unit, u8) rs) \<and> unat n = length (domain_str d))"
proof -
  have wf: "domain_wf d" by (rule domain_parse_wf [OF assms])
  let ?n = "length (domain_str d)"
  have n: "?n \<le> 254" "length (fqdn d) = ?n + 1" using domain_str_length [OF wf] by auto
  have u: "unat (of_nat (?n + 1) :: u8) = ?n + 1"
    using n(1) by (simp add: unsigned_of_nat take_bit_nat_eq_self del: of_nat_Suc of_nat_add)
  then have "(of_nat (?n + 1) :: u8) \<noteq> 0" by (metis Suc_eq_plus1 nat.distinct(1) unsigned_0)
  moreover have "(of_nat (?n + 1) :: u8) - 1 = of_nat ?n" by simp
  moreover have "unat (of_nat ?n :: u8) = ?n" using n(1) by (simp add: unsigned_of_nat take_bit_nat_eq_self)
  ultimately show ?thesis using wf n(2) by (simp add: domain_len_u8_def Let_def)
qed

theorem domain_parse_well_formed_witness:
  "domain_wf (DomainName (ascii ''a.b.''))"
  using domain_parse_well_formed [of "\<lparr>np_idna = Some, np_ipv4 = \<lambda>_. None, np_ipv6 = \<lambda>_. None, np_utf8 = \<lambda>_. True\<rparr>"
      "ascii ''.a.b''" "DomainName (ascii ''a.b.'')"]
  by (simp add: domain_parse_def dot_def)

lemma str_strip_suffix_iff: "str_strip_suffix s suf = Some p \<longleftrightarrow> s = p @ suf"
  by (auto simp: str_strip_suffix_def Let_def) (metis append_take_drop_id)

lemma domain_strip_suffix_iff:
  assumes "domain_wf d" and "domain_wf suf"
  shows "domain_strip_suffix d suf = (Ok (Some p) :: ('e, bytes option) rs) \<longleftrightarrow> domain_str d = p @ dot # domain_str suf"
    and "domain_strip_suffix d suf = (Ok None :: ('e, bytes option) rs) \<longleftrightarrow> (\<nexists>p. domain_str d = p @ dot # domain_str suf)"
proof -
  define r where "r = (case str_strip_suffix (domain_str d) (domain_str suf) of None \<Rightarrow> None
    | Some q \<Rightarrow> str_strip_suffix q [dot])"
  have eq: "domain_strip_suffix d suf = (Ok r :: ('e, bytes option) rs)"
    using assms by (simp add: domain_strip_suffix_def r_def split: option.splits)
  have r: "r = Some p \<longleftrightarrow> domain_str d = p @ dot # domain_str suf" for p
  proof -
    have dots: "p @ dot # domain_str suf = (p @ [dot]) @ domain_str suf" by simp
    show ?thesis
    proof (cases "str_strip_suffix (domain_str d) (domain_str suf)")
      case None
      then have "domain_str d \<noteq> (p @ [dot]) @ domain_str suf"
        using str_strip_suffix_iff [of "domain_str d" "domain_str suf" "p @ [dot]"] by simp
      then show ?thesis using None by (simp add: r_def)
    next
      case (Some q)
      then have q: "r = str_strip_suffix q [dot]" by (simp add: r_def)
      have q': "domain_str d = q @ domain_str suf" using Some by (simp add: str_strip_suffix_iff)
      show ?thesis unfolding dots q q' by (simp only: str_strip_suffix_iff append_same_eq)
    qed
  qed
  show "domain_strip_suffix d suf = (Ok (Some p) :: ('e, bytes option) rs) \<longleftrightarrow> domain_str d = p @ dot # domain_str suf"
    by (simp add: eq r)
  show "domain_strip_suffix d suf = (Ok None :: ('e, bytes option) rs) \<longleftrightarrow> (\<nexists>p. domain_str d = p @ dot # domain_str suf)"
    using r by (cases r) (auto simp: eq)
qed

lemma split_dots_not_Nil [simp]: "split_dots s \<noteq> []"
  by (cases s) (auto split: list.splits)

lemma join_split_dots: "join_dots (split_dots s) = s"
proof (induction s)
  case (Cons x xs)
  then show ?case by (cases "split_dots xs" rule: join_dots.cases) auto
qed simp

lemma split_dots_no_dot: "\<forall>l \<in> set (split_dots s). dot \<notin> set l"
  by (induction s) (auto split: list.splits)

lemma split_dots_label: "dot \<notin> set l \<Longrightarrow> split_dots (l @ dot # s) = l # split_dots s"
  by (induction l) auto

lemma split_dots_single: "dot \<notin> set l \<Longrightarrow> split_dots l = [l]"
  by (induction l) auto

lemma split_join_dots: "ls \<noteq> [] \<Longrightarrow> \<forall>l \<in> set ls. dot \<notin> set l \<Longrightarrow> split_dots (join_dots ls) = ls"
  by (induction ls rule: join_dots.induct) (auto simp: split_dots_single split_dots_label)

lemma length_join_dots: "length (join_dots ls) = sum_list (map length ls) + (length ls - 1)"
  by (induction ls rule: join_dots.induct) auto

lemma length_reversed: "length (join_dots (rev (split_dots s))) = length s"
  using length_join_dots [of "split_dots s"] by (simp add: length_join_dots rev_map [symmetric] join_split_dots)

text \<open>
  C38: a suffix is replaced exactly when the name ends with a dot and the suffix; the new name is well
  formed and has the old labels in front of the new suffix, and replacing the suffix back gives the old
  name. Reversing the labels of a name twice gives the name.
\<close>

theorem domain_suffix_roundtrip:
  assumes "domain_wf d" and "domain_wf old_suf" and "domain_wf new_suf"
  shows "(\<forall>d'. domain_replace_suffix d old_suf new_suf = Ok (Some d') \<longrightarrow>
      domain_wf d' \<and> domain_replace_suffix d' new_suf old_suf = Ok (Some d) \<and>
      (\<exists>p. domain_str d = p @ dot # domain_str old_suf \<and> domain_str d' = p @ dot # domain_str new_suf)) \<and>
    (domain_replace_suffix d old_suf new_suf = Ok None \<longleftrightarrow> (\<nexists>p. domain_str d = p @ dot # domain_str old_suf)) \<and>
    (\<exists>r. domain_to_reversed d = (Ok r :: (unit, bytes) rs) \<and> domain_wf (DomainName r) \<and>
      domain_to_reversed (DomainName r) = (Ok (fqdn d) :: (unit, bytes) rs))"
proof (intro conjI allI impI)
  fix d' assume "domain_replace_suffix d old_suf new_suf = Ok (Some d')"
  then obtain p where p: "domain_str d = p @ dot # domain_str old_suf" "length p + length (domain_str new_suf) \<le> 253"
    and d': "fqdn d' = p @ dot # domain_str new_suf @ [dot]"
    using assms domain_strip_suffix_iff(1) [OF assms(1,2), where ?'e = domain_name_parse_error]
    by (auto simp: domain_replace_suffix_def rs_iff Let_def split: option.splits if_splits)
  show wf: "domain_wf d'" using p(2) d' by (simp add: domain_wf_def)
  have str: "domain_str d' = p @ dot # domain_str new_suf" using d' by (simp add: domain_str_def butlast_append)
  have "length (domain_str d) \<le> 254" using domain_str_length [OF assms(1)] by simp
  then have "domain_replace_suffix d' new_suf old_suf = Ok (Some (DomainName (p @ [dot] @ domain_str old_suf @ [dot])))"
    using wf assms str p domain_strip_suffix_iff(1) [OF wf assms(3), of p, where ?'e = domain_name_parse_error]
    by (simp add: domain_replace_suffix_def Let_def)
  then show "domain_replace_suffix d' new_suf old_suf = Ok (Some d)"
    using domain_fqdn [OF assms(1)] p(1) by (cases d) simp
  show "\<exists>p. domain_str d = p @ dot # domain_str old_suf \<and> domain_str d' = p @ dot # domain_str new_suf"
    using p(1) str by blast
next
  show "domain_replace_suffix d old_suf new_suf = Ok None \<longleftrightarrow> (\<nexists>p. domain_str d = p @ dot # domain_str old_suf)"
    using assms domain_strip_suffix_iff(2) [OF assms(1,2), where ?'e = domain_name_parse_error]
    by (auto simp: domain_replace_suffix_def rs_iff Let_def split: option.splits if_splits)
next
  let ?r = "join_dots (rev (split_dots (domain_str d))) @ [dot]"
  have wf: "domain_wf (DomainName ?r)"
    using domain_str_length [OF assms(1)] length_reversed [of "domain_str d"] by (simp add: domain_wf_def)
  have "domain_str (DomainName ?r) = join_dots (rev (split_dots (domain_str d)))" by (simp add: domain_str_def)
  then have "split_dots (domain_str (DomainName ?r)) = rev (split_dots (domain_str d))"
    using split_dots_no_dot by (simp add: split_join_dots)
  then have "domain_to_reversed (DomainName ?r) = (Ok (domain_str d @ [dot]) :: (unit, bytes) rs)"
    using wf by (simp add: domain_to_reversed_def join_split_dots)
  then show "\<exists>r. domain_to_reversed d = (Ok r :: (unit, bytes) rs) \<and> domain_wf (DomainName r) \<and>
      domain_to_reversed (DomainName r) = (Ok (fqdn d) :: (unit, bytes) rs)"
    using wf assms(1) domain_fqdn [OF assms(1)] by (simp add: domain_to_reversed_def)
qed

theorem domain_suffix_roundtrip_witness:
  "domain_replace_suffix (DomainName (ascii ''www.b.'')) (DomainName (ascii ''b.'')) (DomainName (ascii ''cc.'')) =
    Ok (Some (DomainName (ascii ''www.cc.''))) \<and>
   domain_replace_suffix (DomainName (ascii ''www.cc.'')) (DomainName (ascii ''cc.'')) (DomainName (ascii ''b.'')) =
    Ok (Some (DomainName (ascii ''www.b.'')))"
proof -
  have 1: "domain_replace_suffix (DomainName (ascii ''www.b.'')) (DomainName (ascii ''b.'')) (DomainName (ascii ''cc.'')) =
    Ok (Some (DomainName (ascii ''www.cc.'')))" by code_simp
  have "domain_wf (DomainName (ascii ''www.b.''))" "domain_wf (DomainName (ascii ''b.''))"
    "domain_wf (DomainName (ascii ''cc.''))" by code_simp+
  then show ?thesis using domain_suffix_roundtrip 1 by blast
qed

section \<open>ALPN lists\<close>

text \<open>The wire form of a list of protocol names, each of 1 to 255 bytes.\<close>

definition alpn_wire :: "bytes list \<Rightarrow> bytes" where
  "alpn_wire names = concat (map (\<lambda>n. of_nat (length n) # n) names)"

definition alpn_names :: "bytes list \<Rightarrow> bool" where
  "alpn_names names \<longleftrightarrow> (\<forall>n \<in> set names. 0 < length n \<and> length n \<le> 255)"

lemma alpn_wire_simps [simp]: "alpn_wire [] = []" "alpn_wire (n # ns) = of_nat (length n) # n @ alpn_wire ns"
  by (simp_all add: alpn_wire_def)

lemma alpn_names_simps [simp]: "alpn_names []"
    "alpn_names (n # ns) \<longleftrightarrow> 0 < length n \<and> length n \<le> 255 \<and> alpn_names ns"
  by (auto simp: alpn_names_def)

lemma unat_name_len: "length n \<le> 255 \<Longrightarrow> unat (of_nat (length n) :: u8) = length n"
  by (simp add: unsigned_of_nat take_bit_nat_eq_self)

lemma alpn_check_loop_wire:
  "alpn_names names \<Longrightarrow> alpn_check_loop (pre @ alpn_wire names) (length pre) = Ok ()"
proof (induction names arbitrary: pre)
  case (Cons n ns)
  have "alpn_check_loop ((pre @ of_nat (length n) # n) @ alpn_wire ns) (length (pre @ of_nat (length n) # n)) = Ok ()"
    using Cons by (intro Cons.IH) simp
  then show ?case using Cons.prems
    by (subst alpn_check_loop.simps) (simp add: unat_name_len)
qed (subst alpn_check_loop.simps, simp)

lemma alpn_check_loop_bound: "alpn_check_loop buf off = Ok () \<Longrightarrow> off \<le> length buf"
  by (auto simp: alpn_check_loop.simps [of buf off] split: if_splits)

lemma alpn_check_loop_sound:
  "alpn_check_loop buf off = Ok () \<Longrightarrow> \<exists>names. alpn_names names \<and> drop off buf = alpn_wire names"
proof (induction buf off rule: alpn_check_loop.induct)
  case (1 buf off)
  show ?case
  proof (cases "length buf = off")
    case True
    then show ?thesis by (intro exI [of _ "[]"]) simp
  next
    case False
    then have off: "off < length buf" and len: "unat (buf ! off) \<noteq> 0"
      and rest: "alpn_check_loop buf (off + (1 + unat (buf ! off))) = Ok ()"
      using 1(2) by (auto simp: alpn_check_loop.simps [of buf off] rs_iff split: if_splits)
    obtain names where names: "alpn_names names" "drop (off + (1 + unat (buf ! off))) buf = alpn_wire names"
      using 1(1) [of "buf ! off"] off len rest False by auto
    have "off + (1 + unat (buf ! off)) \<le> length buf"
      by (rule alpn_check_loop_bound [OF rest])
    then have n: "length (take (unat (buf ! off)) (drop (Suc off) buf)) = unat (buf ! off)" by simp
    have "drop off buf = buf ! off # drop (Suc off) buf" using off by (simp add: Cons_nth_drop_Suc)
    also have "drop (Suc off) buf = take (unat (buf ! off)) (drop (Suc off) buf) @ alpn_wire names"
      using names(2) append_take_drop_id [of "unat (buf ! off)" "drop (Suc off) buf"] by (simp add: ac_simps)
    finally have "drop off buf = alpn_wire (take (unat (buf ! off)) (drop (Suc off) buf) # names)"
      using n by (simp add: word_of_nat_eq_iff)
    moreover have "unat (buf ! off) \<le> 255" using unsigned_less [of "buf ! off", where ?'a = nat] by simp
    ultimately show ?thesis
      using names(1) n len by (intro exI [of _ "take (unat (buf ! off)) (drop (Suc off) buf) # names"]) simp
  qed
qed

lemma retain_loop_wire:
  "alpn_names names \<Longrightarrow>
    retain_loop retain (pre @ alpn_wire names) (length pre) new = (Ok (new @ alpn_wire (filter retain names)) :: ('e, bytes) rs)"
proof (induction names arbitrary: pre new)
  case (Cons n ns)
  have IH: "retain_loop retain ((pre @ of_nat (length n) # n) @ alpn_wire ns) (length (pre @ of_nat (length n) # n)) new' =
      (Ok (new' @ alpn_wire (filter retain ns)) :: ('e, bytes) rs)" for new'
    using Cons by (intro Cons.IH) simp
  then show ?case using Cons.prems
    by (subst retain_loop.simps) (simp add: unat_name_len Let_def)
qed (subst retain_loop.simps, simp)

lemma take_2_be: "2 \<le> length buf \<Longrightarrow> take 2 buf = be_bytes 2 (be_nat (take 2 buf))"
  using be_bytes_be_nat [of "take 2 buf"] by simp

lemma tls_alpn_Ok_iff:
  "tls_alpn_from_extension_value buf = Ok a \<longleftrightarrow>
    (\<exists>names. alpn_names names \<and> length (alpn_wire names) < 2 ^ 16 \<and> raw_list a = alpn_wire names \<and>
      buf = be_bytes 2 (length (alpn_wire names)) @ alpn_wire names)"
proof
  assume "tls_alpn_from_extension_value buf = Ok a"
  then have l: "2 \<le> length buf" "be_nat (take 2 buf) + 2 = length buf" "alpn_check_loop buf 2 = Ok ()"
    and a: "raw_list a = drop 2 buf"
    by (auto simp: tls_alpn_from_extension_value_def Let_def rs_iff split: if_splits)
  obtain names where names: "alpn_names names" "drop 2 buf = alpn_wire names"
    using alpn_check_loop_sound [OF l(3)] by blast
  have n: "length (alpn_wire names) = be_nat (take 2 buf)" using l names(2) by (metis add_diff_cancel_right' length_drop)
  then have "length (alpn_wire names) < 2 ^ 16" using be_nat_bound [of "take 2 buf"] l(1) by simp
  moreover have "buf = be_bytes 2 (length (alpn_wire names)) @ alpn_wire names"
    unfolding n using take_2_be [OF l(1)] names(2) by (metis append_take_drop_id)
  ultimately show "\<exists>names. alpn_names names \<and> length (alpn_wire names) < 2 ^ 16 \<and> raw_list a = alpn_wire names \<and>
      buf = be_bytes 2 (length (alpn_wire names)) @ alpn_wire names"
    using names a by auto
next
  assume "\<exists>names. alpn_names names \<and> length (alpn_wire names) < 2 ^ 16 \<and> raw_list a = alpn_wire names \<and>
      buf = be_bytes 2 (length (alpn_wire names)) @ alpn_wire names"
  then obtain names where names: "alpn_names names" "length (alpn_wire names) < 2 ^ 16" "raw_list a = alpn_wire names"
    and buf: "buf = be_bytes 2 (length (alpn_wire names)) @ alpn_wire names" by blast
  have "be_nat (be_bytes 2 (length (alpn_wire names))) = length (alpn_wire names)"
    using names(2) by (simp add: be_nat_be_bytes)
  moreover have "alpn_check_loop buf 2 = Ok ()"
    using alpn_check_loop_wire [OF names(1), of "be_bytes 2 (length (alpn_wire names))"] by (simp add: buf)
  ultimately show "tls_alpn_from_extension_value buf = Ok a"
    using names(3) by (cases a) (simp add: tls_alpn_from_extension_value_def Let_def buf)
qed

lemma alpn_wired: "wired_identification_sequence p = of_nat (length (alpn_as_str p)) # alpn_as_str p"
    "0 < length (alpn_as_str p)" "length (alpn_as_str p) \<le> 255" "alpn_from_selected (alpn_as_str p) = Some p"
  by (cases p; simp; fail)+ (cases p; simp add: alpn_from_selected_def)

text \<open>
  C22: the ALPN extension is accepted exactly when it is a 16-bit length followed by that many bytes of
  names of 1 to 255 bytes, the list that is kept is those names, and keeping only the names that satisfy a
  predicate never reads outside the list and yields their wire form. The list that the encoder writes is
  such a list, of the names that \<open>from_selected\<close> maps back to the protocols.
\<close>

theorem alpn_list_roundtrip:
  assumes "alpn_names names"
  shows "(tls_alpn_from_extension_value buf = Ok a \<longleftrightarrow>
      (\<exists>names. alpn_names names \<and> length (alpn_wire names) < 2 ^ 16 \<and> raw_list a = alpn_wire names \<and>
        buf = be_bytes 2 (length (alpn_wire names)) @ alpn_wire names)) \<and>
   tls_alpn_retain_clone retain (TlsAlpn (alpn_wire names)) =
      (Ok (TlsAlpn (alpn_wire (filter retain names))) :: (unit, tls_alpn) rs) \<and>
   encode_wired_list protocols = alpn_wire (map alpn_as_str protocols) \<and> alpn_names (map alpn_as_str protocols) \<and>
   (\<forall>p. identification_sequence p = (Ok (alpn_as_str p) :: (unit, bytes) rs) \<and> alpn_from_selected (alpn_as_str p) = Some p)"
proof (intro conjI allI)
  show "tls_alpn_retain_clone retain (TlsAlpn (alpn_wire names)) =
      (Ok (TlsAlpn (alpn_wire (filter retain names))) :: (unit, tls_alpn) rs)"
    using retain_loop_wire [OF assms, of retain "[]" "[]", where ?'e = unit] by (simp add: tls_alpn_retain_clone_def)
  have "foldl (\<lambda>buf p. buf @ wired_identification_sequence p) b ps = b @ alpn_wire (map alpn_as_str ps)" for b ps
    by (induction ps arbitrary: b) (simp_all add: alpn_wired(1))
  then show "encode_wired_list protocols = alpn_wire (map alpn_as_str protocols)" by (simp add: encode_wired_list_def)
  show "alpn_names (map alpn_as_str protocols)" using alpn_wired(2,3) by (simp add: alpn_names_def)
  show "identification_sequence p = (Ok (alpn_as_str p) :: (unit, bytes) rs)" for p
    by (simp add: identification_sequence_def alpn_wired(1))
qed (rule tls_alpn_Ok_iff, rule alpn_wired(4))

theorem alpn_list_roundtrip_witness:
  "tls_alpn_retain_clone (\<lambda>n. n \<noteq> ascii ''h2'') (TlsAlpn (alpn_wire [ascii ''h2'', ascii ''ftp''])) =
    (Ok (TlsAlpn (alpn_wire [ascii ''ftp''])) :: (unit, tls_alpn) rs)"
  using alpn_list_roundtrip [of "[ascii ''h2'', ascii ''ftp'']" _ _ "\<lambda>n. n \<noteq> ascii ''h2''"] by simp

text \<open>
  C23: the server name extension is accepted exactly when it is a list of the announced length whose
  first entry is a host name that parses as a domain; its bytes are those of the name, and entries behind
  the first are not read. No extension value makes the parser panic.
\<close>

theorem server_name_grammar:
  "server_name_from_extension_value np buf \<noteq> Panic \<and>
   (server_name_from_extension_value np buf = Ok d \<longleftrightarrow>
     (\<exists>name rest. length name + length rest + 3 < 2 ^ 16 \<and> domain_parse np name = Ok d \<and>
       buf = be_bytes 2 (length name + length rest + 3) @ [0] @ be_bytes 2 (length name) @ name @ rest))"
proof
  show "server_name_from_extension_value np buf \<noteq> Panic"
    by (auto simp: server_name_from_extension_value_def Let_def rs_iff domain_parse_def split: if_splits)
  show "server_name_from_extension_value np buf = Ok d \<longleftrightarrow>
     (\<exists>name rest. length name + length rest + 3 < 2 ^ 16 \<and> domain_parse np name = Ok d \<and>
       buf = be_bytes 2 (length name + length rest + 3) @ [0] @ be_bytes 2 (length name) @ name @ rest)"
  proof
    assume "server_name_from_extension_value np buf = Ok d"
    then have l: "5 \<le> length buf" "be_nat (take 2 buf) + 2 = length buf" "buf ! 2 = 0"
      and n: "be_nat (take 2 (drop 3 buf)) + 5 \<le> length buf"
      and d: "domain_parse np (take (be_nat (take 2 (drop 3 buf))) (drop 5 buf)) = Ok d"
      by (auto simp: server_name_from_extension_value_def Let_def rs_iff split: if_splits)
    define m where "m = be_nat (take 2 (drop 3 buf))"
    define name where "name = take m (drop 5 buf)"
    define rest where "rest = drop (5 + m) buf"
    have n': "m + 5 \<le> length buf" using n by (simp add: m_def)
    have parts: "name @ rest = drop 5 buf" "take 2 (drop 3 buf) @ drop 5 buf = drop 3 buf"
        "[0] @ drop 3 buf = drop 2 buf" "length name = m" "length rest = length buf - 5 - m"
      using append_take_drop_id [of m "drop 5 buf"] append_take_drop_id [of 2 "drop 3 buf"] l(1,3) n'
        Cons_nth_drop_Suc [of 2 buf] by (simp_all add: name_def rest_def add.commute)
    have "length name + length rest + 3 = be_nat (take 2 buf)" using l(1,2) n' parts(4,5) by linarith
    then have "be_bytes 2 (length name + length rest + 3) = take 2 buf"
      using take_2_be [of buf] l(1) by simp
    moreover have "be_bytes 2 (length name) = take 2 (drop 3 buf)"
      using be_bytes_be_nat [of "take 2 (drop 3 buf)"] l(1) by (simp add: parts(4) m_def)
    ultimately have "be_bytes 2 (length name + length rest + 3) @ [0] @ be_bytes 2 (length name) @ name @ rest = buf"
      by (simp only: parts(1-3) append_take_drop_id)
    moreover have "length name + length rest + 3 < 2 ^ 16"
      using be_nat_bound [of "take 2 buf"] l(1,2) n' parts(4,5) by simp
    ultimately show "\<exists>name rest. length name + length rest + 3 < 2 ^ 16 \<and> domain_parse np name = Ok d \<and>
       buf = be_bytes 2 (length name + length rest + 3) @ [0] @ be_bytes 2 (length name) @ name @ rest"
      using d by (intro exI [of _ name] exI [of _ rest]) (simp add: name_def m_def)
  next
    assume "\<exists>name rest. length name + length rest + 3 < 2 ^ 16 \<and> domain_parse np name = Ok d \<and>
       buf = be_bytes 2 (length name + length rest + 3) @ [0] @ be_bytes 2 (length name) @ name @ rest"
    then show "server_name_from_extension_value np buf = Ok d"
      by (auto simp: server_name_from_extension_value_def Let_def be_nat_be_bytes nth_append)
  qed
qed

end
