(* ===== verification/Net_Host.thy ===== *)
theory Net_Host
  imports Net_Types
begin

text \<open>
  Properties of the readers of hosts in text (\<open>lib/vey-types/src/net/host.rs\<close>): they do not panic, and
  what they return is canonical.
\<close>

section \<open>Hosts in text\<close>

lemma parse_smtp_ipv6_literal_not_Panic: "parse_smtp_ipv6_literal np buf \<noteq> Panic"
  by (auto simp: parse_smtp_ipv6_literal_def rs_iff dest!: memchr_Some split: option.splits)

lemma parse_smtp_host_address_not_Panic: "parse_smtp_host_address np buf \<noteq> Panic"
proof (cases "buf \<noteq> [] \<and> buf ! 0 = 0x5B \<and> buf ! (length buf - 1) = 0x5D")
  case True
  then have "length buf \<noteq> 1" by auto
  then have "1 \<le> length buf - 1" using True by (cases buf; cases "tl buf") auto
  then show ?thesis
    using True parse_smtp_ipv6_literal_not_Panic
    by (auto simp: parse_smtp_host_address_def rs_iff split: option.splits)
next
  case False
  then show ?thesis
    using parse_smtp_ipv6_literal_not_Panic
    by (auto simp: parse_smtp_host_address_def rs_iff split: if_splits)
qed

definition host_canonical :: "host \<Rightarrow> bool" where
  "host_canonical h \<longleftrightarrow> (case h of HostIp (IpV6 ip) \<Rightarrow> to_ipv4_mapped ip = None | HostDomain d \<Rightarrow> domain_wf d | _ \<Rightarrow> True)"

lemma host_canonical_simps [simp]: "host_canonical (HostIp (IpV4 v4))"
    "host_canonical (HostIp (IpV6 v6)) \<longleftrightarrow> to_ipv4_mapped v6 = None" "host_canonical (HostDomain d) \<longleftrightarrow> domain_wf d"
  by (simp_all add: host_canonical_def)

lemma from_maybe_mapped_canonical [simp]: "host_canonical (host_from_maybe_mapped_ip6 ip6)"
  by (simp add: host_from_maybe_mapped_ip6_def split: option.splits)

lemma from_domain_str_canonical: "host_from_domain_str np s = Some h \<Longrightarrow> host_canonical h"
  by (auto simp: host_from_domain_str_def dest: domain_parse_wf)

text \<open>
  C39: reading a host from text never panics, and the host it returns is canonical: an address of the
  IPv4-mapped range is always given as the IPv4 address, and a name is well formed. It relies only on the
  IPv6 reader not turning a text that starts with a hex letter into a mapped address.
\<close>

theorem host_from_str_canonical:
  assumes "\<And>c s ip. 0x61 \<le> c \<and> c \<le> 0x66 \<or> 0x41 \<le> c \<and> c \<le> 0x46 \<Longrightarrow>
    np_ipv6 np (c # s) = Some ip \<Longrightarrow> to_ipv4_mapped ip = None"
  shows "host_from_str np s \<noteq> Panic \<and> (\<forall>h. host_from_str np s = Ok h \<longrightarrow> host_canonical h)"
proof (cases s)
  case Nil
  then show ?thesis by (simp add: host_from_str_def)
next
  case (Cons c cs)
  have lit: "host_canonical h" if "host_ip_literal np c s = Some h" for h
    using that assms [of c cs]
    by (auto simp: host_ip_literal_def Cons split: if_splits option.splits ip_addr.splits)
  have mapped: "host_canonical h" if "map_option host_from_maybe_mapped_ip6 v = Some h" for v h
    using that from_maybe_mapped_canonical by auto
  consider "c = 0x5B" | "c = 0x3A" | "c \<noteq> 0x5B" "c \<noteq> 0x3A" by blast
  then show ?thesis
  proof cases
    case 1
    have "length cs \<noteq> 0" if "(c # cs) ! length cs = 0x5D" using that 1 by auto
    then show ?thesis using mapped 1 by (auto simp: host_from_str_def Cons rs_iff Suc_le_eq)
  next
    case 2
    then show ?thesis using mapped by (auto simp: host_from_str_def Cons rs_iff)
  next
    case 3
    then show ?thesis using lit from_domain_str_canonical
      by (auto simp: host_from_str_def Cons rs_iff split: option.splits)
  qed
qed

theorem host_from_str_canonical_witness:
  "host_from_str \<lparr>np_idna = Some, np_ipv4 = \<lambda>_. None,
      np_ipv6 = \<lambda>s. if s = ascii ''::ffff:1.2.3.4'' then Some 0xFFFF01020304 else None, np_utf8 = \<lambda>_. True\<rparr>
    (ascii ''[::ffff:1.2.3.4]'') = Ok (HostIp (IpV4 0x01020304)) \<and> host_canonical (HostIp (IpV4 0x01020304))"
proof -
  let ?np = "\<lparr>np_idna = Some, np_ipv4 = \<lambda>_. None,
      np_ipv6 = \<lambda>s. if s = ascii ''::ffff:1.2.3.4'' then Some 0xFFFF01020304 else None, np_utf8 = \<lambda>_. True\<rparr>"
  have ok: "host_from_str ?np (ascii ''[::ffff:1.2.3.4]'') = Ok (HostIp (IpV4 0x01020304))" by code_simp
  have "host_from_str ?np (ascii ''[::ffff:1.2.3.4]'') \<noteq> Panic \<and>
      (\<forall>h. host_from_str ?np (ascii ''[::ffff:1.2.3.4]'') = Ok h \<longrightarrow> host_canonical h)"
    by (rule host_from_str_canonical) (auto split: if_splits)
  then show ?thesis using ok by blast
qed

end
