(* ===== verification/Dpi_Greeting.thy ===== *)
theory Dpi_Greeting
  imports Dpi_State Net_Host
begin

text \<open>
  The checks of greetings that a server sends first: FTP (\<open>protocol/ftp.rs\<close>), SMTP (\<open>smtp.rs\<close>), POP3
  (\<open>pop3.rs\<close>), NNTP (\<open>nntp.rs\<close>), IMAP (\<open>imap.rs\<close>) and NATS (\<open>nats.rs\<close>).
\<close>

text \<open>The last byte of the data, and the one before it.\<close>

definition last_byte :: "bytes \<Rightarrow> nat \<Rightarrow> (nat, u8) rs" where
  "last_byte data n = bnd (usub (length data) n) (idx data)"

section \<open>FTP\<close>

definition ftp_exclude_by_byte0 :: "inspect_state \<Rightarrow> inspect_state" where
  "ftp_exclude_by_byte0 s = exclude_others [MpSsh, MpPop3, MpImap, MpNats, MpBitTorrent] s"

definition check_ftp_after_code :: "inspect_state \<Rightarrow> bytes \<Rightarrow> size_limit \<Rightarrow> verdict" where
  "check_ftp_after_code s data sl =
     sbnd s (idx data 3) (\<lambda>c.
     if c \<noteq> 0x20 \<and> c \<noteq> 0x2D then no_match s
     else
       sbnd s (slice_from data 4) (\<lambda>left.
       case memchr 0x0A left of
         Some _ \<Rightarrow> found s PrFtpControl
       | None \<Rightarrow> if sl_ftp_server_greeting_msg sl < length left then no_match s else need_more s 1))"

definition check_ftp_server_greeting :: "inspect_state \<Rightarrow> bytes \<Rightarrow> size_limit \<Rightarrow> verdict" where
  "check_ftp_server_greeting s data sl =
     (if length data < 6 then need_more s (6 - length data)
      else
        sbnd s (idx data 0) (\<lambda>b0. sbnd s (slice data 0 3) (\<lambda>code.
        if b0 = 0x31 then
          let s = exclude_others [MpSmtp, MpOdmr, MpNntp, MpNnsp] (ftp_exclude_by_byte0 s) in
          if code = ascii ''120'' then check_ftp_after_code s data sl else no_match s
        else if b0 = 0x32 then
          let s = ftp_exclude_by_byte0 s in
          sbnd s (idx data 1) (\<lambda>b1.
          if b1 \<noteq> 0x32 then no_match s
          else
            let s = exclude_others [MpNntp, MpNnsp] s in
            sbnd s (idx data 2) (\<lambda>b2. if b2 = 0x30 then check_ftp_after_code s data sl else no_match s))
        else if b0 = 0x34 then
          let s = exclude_others [MpSmtp, MpOdmr, MpNntp, MpNnsp] (ftp_exclude_by_byte0 s) in
          if code = ascii ''421'' then check_ftp_after_code s data sl else no_match s
        else no_match s)))"

section \<open>SMTP\<close>

definition smtp_exclude_by_byte0 :: "inspect_state \<Rightarrow> inspect_state" where
  "smtp_exclude_by_byte0 s = exclude_others [MpSsh, MpPop3, MpImap, MpNats, MpBitTorrent] s"

definition check_smtp_after_code :: "net_parsers \<Rightarrow> inspect_state \<Rightarrow> bytes \<Rightarrow> verdict" where
  "check_smtp_after_code np s data =
     sbnd s (idx data 3) (\<lambda>c.
     if c \<noteq> 0x20 \<and> c \<noteq> 0x2D then no_match s
     else
       sbnd s (slice_from data 4) (\<lambda>left.
       case memchr 0x0A left of
         Some p \<Rightarrow>
           if p < 1 then no_match s
           else
             sbnd s (idx left (p - 1)) (\<lambda>r.
             if r \<noteq> 0x0D then no_match s
             else
               let end_host = (case memchr 0x20 left of Some q \<Rightarrow> q | None \<Rightarrow> p - 1) in
               sbnd s (slice left 0 end_host) (\<lambda>h.
               sbnd s (parse_smtp_host_address np h) (\<lambda>host.
               if host \<noteq> None then found s PrSmtp else (s, Ok None))))
       | None \<Rightarrow> if 512 < length left then no_match s else need_more s 1))"

definition check_smtp_server_greeting :: "net_parsers \<Rightarrow> inspect_state \<Rightarrow> bytes \<Rightarrow> verdict" where
  "check_smtp_server_greeting np s data =
     (if length data < 7 then need_more s (7 - length data)
      else
        sbnd s (idx data 0) (\<lambda>b0.
        if b0 = 0x32 then
          let s = smtp_exclude_by_byte0 s in
          sbnd s (idx data 1) (\<lambda>b1.
          if b1 \<noteq> 0x32 then no_match s
          else
            let s = exclude_others [MpNntp, MpNnsp] s in
            sbnd s (idx data 2) (\<lambda>b2. if b2 = 0x30 then check_smtp_after_code np s data else no_match s))
        else if b0 = 0x35 then
          let s = exclude_others [MpFtp, MpNntp, MpNnsp] (smtp_exclude_by_byte0 s) in
          sbnd s (slice data 0 3) (\<lambda>code.
          if code = ascii ''554'' then check_smtp_after_code np s data else no_match s)
        else no_match s))"

section \<open>POP3\<close>

definition check_pop3_server_greeting :: "inspect_state \<Rightarrow> bytes \<Rightarrow> verdict" where
  "check_pop3_server_greeting s data =
     (if length data < 5 then need_more s (5 - length data)
      else if 512 < length data then no_match s
      else
        sbnd s (idx data 0) (\<lambda>b0.
        if b0 \<noteq> 0x2B then no_match s
        else
          let s = exclude_others [MpFtp, MpSsh, MpSmtp, MpOdmr, MpNntp, MpNnsp, MpImap, MpNats, MpBitTorrent] s in
          sbnd s (slice data 1 3) (\<lambda>ok.
          if ok \<noteq> ascii ''OK'' then no_match s
          else
            sbnd s (last_byte data 1) (\<lambda>l1.
            if l1 \<noteq> 0x0A then need_more s 1
            else sbnd s (last_byte data 2) (\<lambda>l2. if l2 \<noteq> 0x0D then no_match s else found s PrPop3)))))"

section \<open>NNTP\<close>

definition check_nntp_server_greeting :: "inspect_state \<Rightarrow> bytes \<Rightarrow> verdict" where
  "check_nntp_server_greeting s data =
     (if length data < 5 then need_more s (5 - length data)
      else if 512 < length data then no_match s
      else
        sbnd s (idx data 0) (\<lambda>b0.
        if b0 \<noteq> 0x32 then no_match s
        else
          let s = exclude_others [MpSsh, MpPop3, MpImap, MpNats, MpBitTorrent] s in
          sbnd s (idx data 1) (\<lambda>b1.
          if b1 \<noteq> 0x30 then no_match s
          else
            let s = exclude_others [MpFtp, MpSmtp, MpOdmr] s in
            sbnd s (idx data 2) (\<lambda>b2.
            if b2 \<noteq> 0x30 \<and> b2 \<noteq> 0x31 then no_match s
            else
              sbnd s (last_byte data 1) (\<lambda>l1.
              if l1 \<noteq> 0x0A then need_more s 1
              else sbnd s (last_byte data 2) (\<lambda>l2.
                if l2 \<noteq> 0x0D then no_match s else found s (news_protocol s)))))))"

section \<open>IMAP\<close>

text \<open>The status behind \<open>"* "\<close>: \<open>Ok True\<close> to go on, \<open>Ok False\<close> to give up, an error for more data.\<close>

definition imap_status :: "bytes \<Rightarrow> (nat, bool) rs" where
  "imap_status data =
     bnd (idx data 2) (\<lambda>b2.
     if b2 = 0x4F then bnd (idx data 3) (\<lambda>b3. Ok (b3 = 0x4B))
     else if b2 = 0x50 then
       if length data < 11 then Err (11 - length data)
       else bnd (slice_from data 2) (\<lambda>r. Ok (starts_with r (ascii ''PREAUTH'')))
     else if b2 = 0x42 then bnd (idx data 3) (\<lambda>b3. bnd (idx data 4) (\<lambda>b4. Ok (b3 = 0x59 \<and> b4 = 0x45)))
     else Ok False)"

definition check_imap_server_greeting :: "inspect_state \<Rightarrow> bytes \<Rightarrow> size_limit \<Rightarrow> verdict" where
  "check_imap_server_greeting s data sl =
     (if length data < 6 then need_more s (6 - length data)
      else
        sbnd s (idx data 0) (\<lambda>b0.
        if b0 \<noteq> 0x2A then no_match s
        else
          let s = exclude_others [MpFtp, MpSsh, MpSmtp, MpOdmr, MpPop3, MpNntp, MpNnsp, MpNats, MpBitTorrent] s in
          sbnd s (idx data 1) (\<lambda>b1.
          if b1 \<noteq> 0x20 then no_match s
          else
            sbnd s (imap_status data) (\<lambda>ok.
            if \<not> ok then no_match s
            else
              sbnd s (last_byte data 1) (\<lambda>l1.
              if l1 \<noteq> 0x0A then
                sbnd s (slice_from data 4) (\<lambda>left.
                if sl_imap_server_greeting_msg sl < length left then no_match s else need_more s 1)
              else sbnd s (last_byte data 2) (\<lambda>l2. if l2 \<noteq> 0x0D then no_match s else found s PrImap))))))"

section \<open>NATS\<close>

definition check_nats_server_info_msg :: "inspect_state \<Rightarrow> bytes \<Rightarrow> size_limit \<Rightarrow> verdict" where
  "check_nats_server_info_msg s data sl =
     (if length data < 10 then need_more s (10 - length data)
      else
        sbnd s (idx data 0) (\<lambda>b0.
        if b0 \<noteq> 0x49 then no_match s
        else
          let s = exclude_others [MpFtp, MpSsh, MpSmtp, MpOdmr, MpPop3, MpNntp, MpNnsp, MpImap, MpBitTorrent] s in
          if \<not> starts_with data (ascii ''INFO {'') then no_match s
          else
            sbnd s (last_byte data 1) (\<lambda>l1.
            if l1 \<noteq> 0x0A then
              if sl_nats_server_info_line sl < length data then no_match s else need_more s 1
            else sbnd s (last_byte data 2) (\<lambda>l2. if l2 \<noteq> 0x0D then no_match s else found s PrNats))))"

end
