(* ===== verification/Dpi_Check_Greeting.thy ===== *)
theory Dpi_Check_Greeting
  imports Dpi_Contract Dpi_Greeting
begin

text \<open>
  The checks of \<open>Dpi_Greeting\<close> keep the contract of \<open>Dpi_Contract\<close>.
\<close>

lemma last_byte_Ok: "n \<le> length d \<Longrightarrow> 0 < n \<Longrightarrow> last_byte d n = Ok (d ! (length d - n))"
  by (simp add: last_byte_def)

lemma starts_with_byte2: "1 < length d \<Longrightarrow> d ! 0 = a \<Longrightarrow> d ! 1 = b \<Longrightarrow> starts_with d [a, b]"
  using starts_with_next [of d "[a]" 1] starts_with_byte [of d a] by fastforce

lemma starts_with_byte3: "2 < length d \<Longrightarrow> d ! 0 = a \<Longrightarrow> d ! 1 = b \<Longrightarrow> d ! 2 = c \<Longrightarrow> starts_with d [a, b, c]"
  using starts_with_next [of d "[a, b]" 2] starts_with_byte2 [of d a b] by simp

section \<open>FTP and SMTP\<close>

lemma ftp_after_code_ok:
  assumes "excluding P self s d t" and "has_prefix (P self) d" and "6 \<le> length d"
  shows "verdict_ok P self s d (check_ftp_after_code t d sl)"
  using assms excluding_extends [OF assms(1)] by (simp add: check_ftp_after_code_def split: option.split)

lemma ftp_ok: "verdict_ok server_prefixes MpFtp s d (check_ftp_server_greeting s d sl)"
proof (cases "length d < 6")
  case False
  then have L: "6 \<le> length d" "d \<noteq> []" by auto
  have byte0: "excluding server_prefixes MpFtp s d (ftp_exclude_by_byte0 s)" if "d ! 0 \<in> {0x31, 0x32, 0x34}"
    unfolding ftp_exclude_by_byte0_def
    by (rule excluding_others [OF _ starts_with_byte [OF L(2) refl]]) (use that in \<open>auto simp: prefix_eval\<close>)
  have t1: "excluding server_prefixes MpFtp s d (exclude_others [MpSmtp, MpOdmr, MpNntp, MpNnsp] (ftp_exclude_by_byte0 s))"
    if "d ! 0 = 0x31 \<or> d ! 0 = 0x34"
    by (rule excluding_others [OF byte0 starts_with_byte [OF L(2) refl]]) (use that in \<open>auto simp: prefix_eval\<close>)
  have t2: "excluding server_prefixes MpFtp s d (exclude_others [MpNntp, MpNnsp] (ftp_exclude_by_byte0 s))"
    if "d ! 0 = 0x32" "d ! 1 = 0x32"
    by (rule excluding_others [OF byte0 starts_with_byte2 [OF _ that]]) (use L that in \<open>auto simp: prefix_eval\<close>)
  have found: "has_prefix (server_prefixes MpFtp) d" if "d ! 0 = 0x32" "d ! 1 = 0x32" "d ! 2 = 0x30"
    by (rule has_prefixI [OF starts_with_byte3 [OF _ that]]) (use L in \<open>simp_all add: prefix_eval\<close>)
  have found': "has_prefix (server_prefixes MpFtp) d" if "take 3 d = ascii ''120'' \<or> take 3 d = ascii ''421''"
    using that by (elim disjE) (erule has_prefixI [OF starts_with_take], simp, simp add: prefix_eval)+
  show ?thesis
    using L byte0 t1 t2 found found' ftp_after_code_ok [where P = server_prefixes and self = MpFtp]
    by (simp add: check_ftp_server_greeting_def Let_def del: ascii_simps)
qed (simp add: check_ftp_server_greeting_def)

lemma ftp_same: "same (check_ftp_server_greeting s d sl) (check_ftp_server_greeting s' d sl)"
  unfolding check_ftp_server_greeting_def check_ftp_after_code_def Let_def by (intro same_intros)

interpretation ftp: protocol_check server_prefixes MpFtp "\<lambda>s d. check_ftp_server_greeting s d sl" for sl
  by unfold_locales (rule ftp_ok, rule ftp_same)

lemma parse_smtp_ipv6_literal_not_Err: "parse_smtp_ipv6_literal np b \<noteq> Err e"
  by (auto simp: parse_smtp_ipv6_literal_def rs_iff split: option.splits)

lemma parse_smtp_host_address_not_Err: "parse_smtp_host_address np b \<noteq> Err e"
  by (auto simp: parse_smtp_host_address_def parse_smtp_ipv6_literal_not_Err rs_iff split: option.splits if_splits)

lemma parse_smtp_host_address_Ok: "\<exists>h. (parse_smtp_host_address np buf :: ('e, host option) rs) = Ok h"
  by (cases "parse_smtp_host_address np buf :: ('e, host option) rs")
    (simp_all add: parse_smtp_host_address_not_Err parse_smtp_host_address_not_Panic)

lemma smtp_after_code_ok:
  assumes "excluding P self s d t" and "has_prefix (P self) d" and "7 \<le> length d"
  shows "verdict_ok P self s d (check_smtp_after_code np t d)"
proof -
  have host: "verdict_ok P self s d
      (sbnd t (parse_smtp_host_address np h) (\<lambda>host. if host \<noteq> None then found t PrSmtp else (t, Ok None)))" for h
    by (rule exE [OF parse_smtp_host_address_Ok [where 'e = nat and np = np and buf = h]]) (use assms excluding_extends [OF assms(1)] in simp)
  show ?thesis
  proof (cases "memchr 0x0A (drop 4 d)")
    case None
    then show ?thesis using assms by (simp add: check_smtp_after_code_def)
  next
    case (Some p)
    have p: "p < length d - 4" using memchr_Some [OF Some] by simp
    define e where "e = (case memchr 0x20 (drop 4 d) of Some q \<Rightarrow> q | None \<Rightarrow> p - 1)"
    have "e \<le> length d - 4"
      using p memchr_Some [of 32 "drop 4 d"] by (fastforce simp: e_def split: option.split)
    then show ?thesis
      using assms(1,3) host Some p by (simp add: check_smtp_after_code_def Let_def e_def [symmetric])
  qed
qed

lemma smtp_ok:
  assumes self: "self = MpSmtp \<or> self = MpOdmr"
  shows "verdict_ok server_prefixes self s d (check_smtp_server_greeting np s d)"
proof (cases "length d < 7")
  case False
  then have L: "7 \<le> length d" "d \<noteq> []" by auto
  have byte0: "excluding server_prefixes self s d (smtp_exclude_by_byte0 s)" if "d ! 0 \<in> {0x32, 0x35}"
    unfolding smtp_exclude_by_byte0_def
    by (rule excluding_others [OF _ starts_with_byte [OF L(2) refl]]) (use that in \<open>auto simp: prefix_eval\<close>)
  have t1: "excluding server_prefixes self s d (exclude_others [MpFtp, MpNntp, MpNnsp] (smtp_exclude_by_byte0 s))"
    if "d ! 0 = 0x35"
    by (rule excluding_others [OF byte0 starts_with_byte [OF L(2) refl]]) (use that in \<open>auto simp: prefix_eval\<close>)
  have t2: "excluding server_prefixes self s d (exclude_others [MpNntp, MpNnsp] (smtp_exclude_by_byte0 s))"
    if "d ! 0 = 0x32" "d ! 1 = 0x32"
    by (rule excluding_others [OF byte0 starts_with_byte2 [OF _ that]]) (use L that in \<open>auto simp: prefix_eval\<close>)
  have found: "has_prefix (server_prefixes self) d" if "d ! 0 = 0x32" "d ! 1 = 0x32" "d ! 2 = 0x30"
    by (rule has_prefixI [OF starts_with_byte3 [OF _ that]]) (use L self in \<open>auto simp: prefix_eval\<close>)
  have found': "has_prefix (server_prefixes self) d" if "take 3 d = ascii ''554''"
    using that by (rule has_prefixI [OF starts_with_take]) (use self in \<open>auto simp: prefix_eval\<close>)
  show ?thesis
    using L byte0 t1 t2 found found' smtp_after_code_ok [where P = server_prefixes and self = self]
    by (simp add: check_smtp_server_greeting_def Let_def del: ascii_simps)
qed (simp add: check_smtp_server_greeting_def)

lemma smtp_same: "same (check_smtp_server_greeting np s d) (check_smtp_server_greeting np s' d)"
  unfolding check_smtp_server_greeting_def check_smtp_after_code_def Let_def by (intro same_intros)

interpretation smtp: protocol_check server_prefixes MpSmtp "check_smtp_server_greeting np" for np
  by unfold_locales (rule smtp_ok [OF disjI1 [OF refl]], rule smtp_same)

interpretation odmr: protocol_check server_prefixes MpOdmr "check_smtp_server_greeting np" for np
  by unfold_locales (rule smtp_ok [OF disjI2 [OF refl]], rule smtp_same)

section \<open>POP3 and NNTP\<close>

lemma pop3_ok: "verdict_ok server_prefixes MpPop3 s d (check_pop3_server_greeting s d)"
proof (cases "length d < 5 \<or> d ! 0 \<noteq> 0x2B")
  case True
  then show ?thesis by (cases "d = []") (auto simp: check_pop3_server_greeting_def)
next
  case False
  then have L: "5 \<le> length d" "d \<noteq> []" "d ! 0 = 0x2B" by auto
  define t where "t = exclude_others [MpFtp, MpSsh, MpSmtp, MpOdmr, MpNntp, MpNnsp, MpImap, MpNats, MpBitTorrent] s"
  have t: "excluding server_prefixes MpPop3 s d t" unfolding t_def
    by (rule excluding_others [OF _ starts_with_byte [OF L(2,3)]]) (simp, simp add: prefix_eval)
  have found: "has_prefix (server_prefixes MpPop3) d" if "take 2 (drop 1 d) = ascii ''OK''"
    using starts_with_slice [OF starts_with_byte [OF L(2,3)], of 2 "ascii ''OK''"] that
    by (intro has_prefixI [where m = "ascii ''+OK''"]) (simp_all add: prefix_eval)
  show ?thesis
    using L t excluding_extends [OF t] found
    by (simp add: check_pop3_server_greeting_def Let_def last_byte_Ok t_def [symmetric] del: ascii_simps)
qed

lemma pop3_same: "same (check_pop3_server_greeting s d) (check_pop3_server_greeting s' d)"
  unfolding check_pop3_server_greeting_def Let_def by (intro same_intros)

interpretation pop3: protocol_check server_prefixes MpPop3 check_pop3_server_greeting
  by unfold_locales (rule pop3_ok, rule pop3_same)

lemma news_protocol_simps [simp]: "news_protocol s \<noteq> PrUnknown" "news_protocol (exclude_others ps s) = news_protocol s"
  by (simp_all add: news_protocol_def split: option.split maybe_protocol.split)

lemma nntp_ok:
  assumes self: "self = MpNntp \<or> self = MpNnsp"
  shows "verdict_ok server_prefixes self s d (check_nntp_server_greeting s d)"
proof (cases "length d < 5 \<or> d ! 0 \<noteq> 0x32")
  case True
  then show ?thesis by (cases "d = []") (auto simp: check_nntp_server_greeting_def)
next
  case False
  then have L: "5 \<le> length d" "d \<noteq> []" "d ! 0 = 0x32" by auto
  define t where "t = exclude_others [MpSsh, MpPop3, MpImap, MpNats, MpBitTorrent] s"
  have t: "excluding server_prefixes self s d t" unfolding t_def
    by (rule excluding_others [OF _ starts_with_byte [OF L(2,3)]]) (simp, simp add: prefix_eval)
  define u where "u = exclude_others [MpFtp, MpSmtp, MpOdmr] t"
  have u: "excluding server_prefixes self s d u" if "d ! 1 = 0x30" unfolding u_def
    by (rule excluding_others [OF t starts_with_byte2 [OF _ L(3) that]]) (use L in \<open>simp_all add: prefix_eval\<close>)
  have sub: "extends s u" using excluding_extends [OF t] by (simp add: u_def)
  have found: "has_prefix (server_prefixes self) d" if "d ! 1 = 0x30" "d ! 2 = 0x30 \<or> d ! 2 = 0x31"
    by (rule has_prefixI [OF starts_with_byte3 [OF _ L(3) that(1) refl]]) (use L that self in \<open>auto simp: prefix_eval\<close>)
  show ?thesis
    using L t u sub found
    by (simp add: check_nntp_server_greeting_def Let_def last_byte_Ok t_def [symmetric] u_def [symmetric])
qed

lemma nntp_same:
  assumes "is_current s = is_current s'"
  shows "same (check_nntp_server_greeting s d) (check_nntp_server_greeting s' d)"
proof -
  have "news_protocol s = news_protocol s'" using assms by (simp add: news_protocol_def)
  then have step: "same (found (exclude_others qs (exclude_others ps s)) (news_protocol (exclude_others qs (exclude_others ps s))))
      (found (exclude_others qs (exclude_others ps s')) (news_protocol (exclude_others qs (exclude_others ps s'))))" for ps qs
    by (simp add: same_def)
  show ?thesis unfolding check_nntp_server_greeting_def Let_def by (intro step same_intros)
qed

interpretation nntp: protocol_check server_prefixes MpNntp check_nntp_server_greeting
  by unfold_locales (rule nntp_ok [OF disjI1 [OF refl]], rule nntp_same)

interpretation nnsp: protocol_check server_prefixes MpNnsp check_nntp_server_greeting
  by unfold_locales (rule nntp_ok [OF disjI2 [OF refl]], rule nntp_same)

section \<open>IMAP and NATS\<close>

lemma imap_status_cases:
  assumes "6 \<le> length d" and "starts_with d (ascii ''* '')"
  shows "imap_status d \<noteq> Panic" "imap_status d = Err n \<Longrightarrow> 0 < n"
    "imap_status d = Ok True \<Longrightarrow> has_prefix (server_prefixes MpImap) d"
proof -
  obtain r where d: "d = ascii ''* '' @ r" using assms(2) by (auto simp: starts_with_iff)
  have r: "length r = length d - 2" using d by simp
  have r0: "r \<noteq> []" using r assms(1) by auto
  have nth: "d ! 2 = r ! 0" "d ! 3 = r ! 1" "d ! 4 = r ! 2" "drop 2 d = r" using d by simp_all
  show "imap_status d \<noteq> Panic" "imap_status d = Err n \<Longrightarrow> 0 < n"
    using assms(1) by (auto simp: imap_status_def split: if_splits)
  assume "imap_status d = Ok True"
  then consider "r ! 0 = 0x4F" "r ! 1 = 0x4B" | "starts_with r (ascii ''PREAUTH'')" | "r ! 0 = 0x42" "r ! 1 = 0x59" "r ! 2 = 0x45"
    using assms(1) nth by (auto simp: imap_status_def simp del: ascii_simps split: if_splits)
  then have "starts_with r (ascii ''OK'') \<or> starts_with r (ascii ''PREAUTH'') \<or> starts_with r (ascii ''BYE'')"
    using starts_with_byte2 [of r] starts_with_byte3 [of r] assms(1) r by cases (simp_all del: starts_with_Cons)
  then show "has_prefix (server_prefixes MpImap) d"
    by (auto simp: has_prefix_def prefix_eval d)
qed

lemma imap_ok: "verdict_ok server_prefixes MpImap s d (check_imap_server_greeting s d sl)"
proof (cases "length d < 6 \<or> d ! 0 \<noteq> 0x2A")
  case True
  then show ?thesis by (cases "d = []") (auto simp: check_imap_server_greeting_def)
next
  case False
  then have L: "6 \<le> length d" "d \<noteq> []" "d ! 0 = 0x2A" by auto
  define t where "t = exclude_others [MpFtp, MpSsh, MpSmtp, MpOdmr, MpPop3, MpNntp, MpNnsp, MpNats, MpBitTorrent] s"
  have t: "excluding server_prefixes MpImap s d t" unfolding t_def
    by (rule excluding_others [OF _ starts_with_byte [OF L(2,3)]]) (simp, simp add: prefix_eval)
  show ?thesis
  proof (cases "d ! 1 = 0x20")
    case True
    then have "starts_with d (ascii ''* '')" using starts_with_byte2 [of d] L by simp
    note st = imap_status_cases [OF L(1) this]
    show ?thesis
      using L t excluding_extends [OF t] True st
      by (cases "imap_status d") (simp_all add: check_imap_server_greeting_def Let_def last_byte_Ok t_def [symmetric] flip: need_more_def)
  next
    case False
    then show ?thesis using L t by (simp add: check_imap_server_greeting_def Let_def t_def [symmetric])
  qed
qed

lemma imap_same: "same (check_imap_server_greeting s d sl) (check_imap_server_greeting s' d sl)"
  unfolding check_imap_server_greeting_def Let_def by (intro same_intros)

interpretation imap: protocol_check server_prefixes MpImap "\<lambda>s d. check_imap_server_greeting s d sl" for sl
  by unfold_locales (rule imap_ok, rule imap_same)

lemma nats_ok: "verdict_ok server_prefixes MpNats s d (check_nats_server_info_msg s d sl)"
proof (cases "length d < 10 \<or> d ! 0 \<noteq> 0x49")
  case True
  then show ?thesis by (cases "d = []") (auto simp: check_nats_server_info_msg_def)
next
  case False
  then have L: "10 \<le> length d" "d \<noteq> []" "d ! 0 = 0x49" by auto
  define t where "t = exclude_others [MpFtp, MpSsh, MpSmtp, MpOdmr, MpPop3, MpNntp, MpNnsp, MpImap, MpBitTorrent] s"
  have t: "excluding server_prefixes MpNats s d t" unfolding t_def
    by (rule excluding_others [OF _ starts_with_byte [OF L(2,3)]]) (simp, simp add: prefix_eval)
  have found: "has_prefix (server_prefixes MpNats) d" if "starts_with d (ascii ''INFO {'')"
    by (rule has_prefixI [OF that]) (simp add: prefix_eval)
  show ?thesis
    using L t excluding_extends [OF t] found
    by (simp add: check_nats_server_info_msg_def Let_def last_byte_Ok t_def [symmetric] del: ascii_simps)
qed

lemma nats_same: "same (check_nats_server_info_msg s d sl) (check_nats_server_info_msg s' d sl)"
  unfolding check_nats_server_info_msg_def Let_def by (intro same_intros)

interpretation nats: protocol_check server_prefixes MpNats "\<lambda>s d. check_nats_server_info_msg s d sl" for sl
  by unfold_locales (rule nats_ok, rule nats_same)

end
