(* ===== verification/Dpi_Inspect.thy ===== *)
theory Dpi_Inspect
  imports Dpi_Check_Text Dpi_Check_Binary Dpi_Check_Greeting
begin

text \<open>
  The protocol inspector (\<open>lib/vey-dpi/src/protocol/inspect.rs\<close>) and the loops that feed it with the bytes
  of a connection (\<open>vey-proxy/src/inspect/stream/object.rs\<close>). The checks share one state of excluded
  protocols. The inspector tries its candidates in order, keeps those that ask for more data, and starts the
  next round with them.
\<close>

section \<open>One protocol\<close>

definition excluded :: "inspect_state \<Rightarrow> maybe_protocol \<Rightarrow> bool" where
  "excluded s p \<longleftrightarrow> p \<in> is_excluded s"

text \<open>The protocols that the dispatch has an arm for; the others are \<open>unreachable!()\<close>.\<close>

definition plain :: "maybe_protocol \<Rightarrow> bool" where
  "plain p \<longleftrightarrow> p \<in> set [MpSsh, MpDns, MpLdap, MpHttp, MpSsl, MpRtsp, MpMqtt, MpStomp, MpSmpp, MpRtmp, MpBitTorrent,
     MpFtp, MpSmtp, MpOdmr, MpPop3, MpNntp, MpNnsp, MpImap, MpNats]"

definition check_client_initial_data_for_protocol ::
    "size_limit \<Rightarrow> bytes \<Rightarrow> inspect_state \<Rightarrow> maybe_protocol \<Rightarrow> verdict" where
  "check_client_initial_data_for_protocol sl data s proto =
     (if excluded s proto then (s, Ok None)
      else
        let s = s\<lparr>is_current := Some proto\<rparr> in
        case proto of
          MpSsh \<Rightarrow> check_ssh_client_protocol_version_exchange s data
        | MpDns \<Rightarrow> check_dns_tcp_request_message s data
        | MpLdap \<Rightarrow> check_ldap_tcp_request_message s data sl
        | MpHttp \<Rightarrow> check_http_request s data sl
        | MpSsl \<Rightarrow> check_ssl_client_hello s data
        | MpRtsp \<Rightarrow> check_rtsp_client_setup_request s data
        | MpMqtt \<Rightarrow> check_mqtt_client_connect_request s data
        | MpStomp \<Rightarrow> check_stomp_client_connect_request s data
        | MpSmpp \<Rightarrow> check_smpp_session_request s data
        | MpRtmp \<Rightarrow> check_rtmp_tcp_client_handshake s data
        | MpBitTorrent \<Rightarrow> check_bittorrent_tcp_handshake s data
        | MpFtp \<Rightarrow> no_match s | MpSmtp \<Rightarrow> no_match s | MpOdmr \<Rightarrow> no_match s | MpPop3 \<Rightarrow> no_match s
        | MpNntp \<Rightarrow> no_match s | MpNnsp \<Rightarrow> no_match s | MpImap \<Rightarrow> no_match s | MpNats \<Rightarrow> no_match s
        | _ \<Rightarrow> (s, Panic))"

definition check_server_initial_data_for_protocol ::
    "net_parsers \<Rightarrow> size_limit \<Rightarrow> bytes \<Rightarrow> inspect_state \<Rightarrow> maybe_protocol \<Rightarrow> verdict" where
  "check_server_initial_data_for_protocol np sl data s proto =
     (if excluded s proto then (s, Ok None)
      else
        let s = s\<lparr>is_current := Some proto\<rparr> in
        case proto of
          MpFtp \<Rightarrow> check_ftp_server_greeting s data sl
        | MpSsh \<Rightarrow> check_ssh_server_protocol_version_exchange s data
        | MpSmtp \<Rightarrow> check_smtp_server_greeting np s data
        | MpOdmr \<Rightarrow> check_smtp_server_greeting np s data
        | MpPop3 \<Rightarrow> check_pop3_server_greeting s data
        | MpNntp \<Rightarrow> check_nntp_server_greeting s data
        | MpNnsp \<Rightarrow> check_nntp_server_greeting s data
        | MpImap \<Rightarrow> check_imap_server_greeting s data sl
        | MpNats \<Rightarrow> check_nats_server_info_msg s data sl
        | MpBitTorrent \<Rightarrow> check_bittorrent_tcp_handshake s data
        | MpDns \<Rightarrow> no_match s | MpLdap \<Rightarrow> no_match s | MpSsl \<Rightarrow> no_match s | MpHttp \<Rightarrow> no_match s
        | MpRtsp \<Rightarrow> no_match s | MpMqtt \<Rightarrow> no_match s | MpStomp \<Rightarrow> no_match s | MpSmpp \<Rightarrow> no_match s
        | MpRtmp \<Rightarrow> no_match s
        | _ \<Rightarrow> (s, Panic))"

section \<open>The inspector\<close>

record read_pending =
  rp_size :: nat
  rp_protocol :: maybe_protocol

record inspector =
  pi_server_portmap :: portmap
  pi_state :: inspect_state
  pi_next :: "maybe_protocol list"
  pi_no_explicit_ssl :: bool
  pi_pending :: "read_pending list"
  pi_guess :: bool

definition inspector_new :: "portmap \<Rightarrow> inspector" where
  "inspector_new m =
     \<lparr>pi_server_portmap = m, pi_state = inspect_state_default, pi_next = [], pi_no_explicit_ssl = False,
      pi_pending = [], pi_guess = True\<rparr>"

definition inspector_default :: inspector where
  "inspector_default =
     \<lparr>pi_server_portmap = portmap_tcp_server, pi_state = inspect_state_default, pi_next = [],
      pi_no_explicit_ssl = False, pi_pending = [], pi_guess = True\<rparr>"

definition push_protocol :: "inspector \<Rightarrow> maybe_protocol \<Rightarrow> inspector" where
  "push_protocol pi p = pi\<lparr>pi_next := p # pi_next pi\<rparr>"

fun maybe_protocol_from_alpn :: "alpn_protocol \<Rightarrow> maybe_protocol" where
  "maybe_protocol_from_alpn AlpnHttp10 = MpHttp"
| "maybe_protocol_from_alpn AlpnHttp11 = MpHttp"
| "maybe_protocol_from_alpn AlpnHttp2 = MpHttp"
| "maybe_protocol_from_alpn AlpnHttp3 = MpHttp"
| "maybe_protocol_from_alpn AlpnFtp = MpFtp"
| "maybe_protocol_from_alpn AlpnSmtp = MpSmtp"
| "maybe_protocol_from_alpn AlpnImap = MpImap"
| "maybe_protocol_from_alpn AlpnPop3 = MpPop3"
| "maybe_protocol_from_alpn AlpnNntp = MpNntp"
| "maybe_protocol_from_alpn AlpnNnsp = MpNnsp"
| "maybe_protocol_from_alpn AlpnMqtt = MpMqtt"
| "maybe_protocol_from_alpn AlpnDnsOverTls = MpDns"
| "maybe_protocol_from_alpn AlpnDnsOverQuic = MpDns"

definition push_alpn_protocol :: "inspector \<Rightarrow> alpn_protocol \<Rightarrow> inspector" where
  "push_alpn_protocol pi p = push_protocol pi (maybe_protocol_from_alpn p)"

definition state_reset :: "inspect_state \<Rightarrow> inspect_state" where
  "state_reset s = s\<lparr>is_current := None, is_excluded := {}\<rparr>"

definition inspector_reset_state :: "inspector \<Rightarrow> inspector" where
  "inspector_reset_state pi = pi\<lparr>pi_state := state_reset (pi_state pi), pi_guess := True\<rparr>"

definition set_no_explicit_ssl :: "inspector \<Rightarrow> inspector" where
  "set_no_explicit_ssl pi = pi\<lparr>pi_no_explicit_ssl := True\<rparr>"

definition unset_no_explicit_ssl :: "inspector \<Rightarrow> inspector" where
  "unset_no_explicit_ssl pi = pi\<lparr>pi_no_explicit_ssl := False\<rparr>"

text \<open>
  \<open>check_protocol!\<close>: \<open>Ok (Some p)\<close> is the early return of \<open>p\<close>, \<open>Ok None\<close> goes on. The check of one protocol on
  the data at hand is an argument.
\<close>

type_synonym round = "inspector \<times> (nat, protocol option) rs"

definition check_protocol ::
    "(inspect_state \<Rightarrow> maybe_protocol \<Rightarrow> verdict) \<Rightarrow> inspector \<Rightarrow> maybe_protocol \<Rightarrow> round" where
  "check_protocol check pi p =
     (case check (pi_state pi) p of (s, r) \<Rightarrow>
        let pi = pi\<lparr>pi_state := s\<rparr> in
        case r of
          Ok v \<Rightarrow> (pi, Ok v)
        | Err len \<Rightarrow> (pi\<lparr>pi_pending := pi_pending pi @ [\<lparr>rp_size = len, rp_protocol = p\<rparr>]\<rparr>, Ok None)
        | Panic \<Rightarrow> (pi, Panic))"

definition and_then :: "round \<Rightarrow> (inspector \<Rightarrow> round) \<Rightarrow> round" where
  "and_then v k = (case v of (pi, Ok None) \<Rightarrow> k pi | _ \<Rightarrow> v)"

fun check_protocols :: "(inspect_state \<Rightarrow> maybe_protocol \<Rightarrow> verdict) \<Rightarrow> inspector \<Rightarrow> maybe_protocol list \<Rightarrow> round" where
  "check_protocols check pi [] = (pi, Ok None)"
| "check_protocols check pi (p # ps) = and_then (check_protocol check pi p) (\<lambda>pi. check_protocols check pi ps)"

lemma check_protocol_frame [simp]:
  "pi_next (fst (check_protocol check pi p)) = pi_next pi" "pi_guess (fst (check_protocol check pi p)) = pi_guess pi"
  "pi_server_portmap (fst (check_protocol check pi p)) = pi_server_portmap pi"
  "pi_no_explicit_ssl (fst (check_protocol check pi p)) = pi_no_explicit_ssl pi"
  by (simp_all add: check_protocol_def Let_def split: prod.split rs.split)

lemma check_protocol_next: "(pi', r) = check_protocol check pi p \<Longrightarrow> pi_next pi' = pi_next pi"
  using check_protocol_frame(1) [of check pi p] by (cases "check_protocol check pi p") simp

text \<open>\<open>while let Some(proto) = self.next_check_protocol.pop_front()\<close>.\<close>

function check_next :: "(inspect_state \<Rightarrow> maybe_protocol \<Rightarrow> verdict) \<Rightarrow> inspector \<Rightarrow> round" where
  "check_next check pi =
     (case pi_next pi of
        [] \<Rightarrow> (pi, Ok None)
      | p # ps \<Rightarrow>
          (case check_protocol check (pi\<lparr>pi_next := ps\<rparr>) p of
             (pi, Ok None) \<Rightarrow> check_next check pi
           | v \<Rightarrow> v))"
  by pat_completeness auto
termination
  by (relation "measure (\<lambda>(check, pi). length (pi_next pi))") (auto dest: check_protocol_next)

declare check_next.simps [simp del]

definition handle_read_pending :: "inspector \<Rightarrow> inspector \<times> (nat, unit) rs" where
  "handle_read_pending pi =
     (case pi_pending pi of
        [] \<Rightarrow> (pi, Ok ())
      | v # vs \<Rightarrow>
          let (next, pending_len) =
            foldl (\<lambda>(next, len) v. (rp_protocol v # next, if rp_size v < len then rp_size v else len))
              (pi_next pi, rp_size v) vs in
          (pi\<lparr>pi_state := (pi_state pi)\<lparr>is_current := Some (rp_protocol v)\<rparr>, pi_pending := [], pi_next := next\<rparr>,
           Err pending_len))"

definition guess_protocol_for_client_initial_data :: "maybe_protocol list" where
  "guess_protocol_for_client_initial_data = [MpSsl, MpHttp, MpSsh, MpSmpp, MpBitTorrent]"

definition guess_protocol_for_server_initial_data :: "maybe_protocol list" where
  "guess_protocol_for_server_initial_data = [MpSsh, MpFtp, MpNats, MpBitTorrent]"

text \<open>The end of both functions: the early return, or the pending protocols, or \<open>Protocol::Unknown\<close>.\<close>

definition conclude :: "round \<Rightarrow> inspector \<times> (nat, protocol) rs" where
  "conclude v =
     (case v of
        (pi, Panic) \<Rightarrow> (pi, Panic)
      | (pi, Err e) \<Rightarrow> (pi, Err e)
      | (pi, Ok (Some p)) \<Rightarrow> (pi, Ok p)
      | (pi, Ok None) \<Rightarrow>
          (case handle_read_pending pi of
             (pi, Ok _) \<Rightarrow> (pi, Ok PrUnknown)
           | (pi, Err n) \<Rightarrow> (pi, Err n)
           | (pi, Panic) \<Rightarrow> (pi, Panic)))"

definition check_current :: "(inspect_state \<Rightarrow> maybe_protocol \<Rightarrow> verdict) \<Rightarrow> inspector \<Rightarrow> round" where
  "check_current check pi =
     (let current = is_current (pi_state pi); pi = pi\<lparr>pi_state := (pi_state pi)\<lparr>is_current := None\<rparr>\<rparr> in
      case current of None \<Rightarrow> (pi, Ok None) | Some p \<Rightarrow> check_protocol check pi p)"

definition guess_client ::
    "(inspect_state \<Rightarrow> maybe_protocol \<Rightarrow> verdict) \<Rightarrow> u16 \<Rightarrow> inspector \<Rightarrow> round" where
  "guess_client check server_port pi =
     (if pi_guess pi then
        and_then
          (case pi_server_portmap pi server_port of
             None \<Rightarrow> (pi, Ok None)
           | Some v \<Rightarrow>
               and_then
                 (if \<not> pi_no_explicit_ssl pi \<and> pv_check_ssl v then check_protocol check pi MpSsl else (pi, Ok None))
                 (\<lambda>pi. check_protocols check pi (pv_protocols v))) (\<lambda>pi.
        and_then (check_protocols check pi guess_protocol_for_client_initial_data) (\<lambda>pi.
        (pi\<lparr>pi_guess := False\<rparr>, Ok None)))
      else (pi, Ok None))"

definition check_client_initial_data ::
    "size_limit \<Rightarrow> u16 \<Rightarrow> inspector \<Rightarrow> bytes \<Rightarrow> inspector \<times> (nat, protocol) rs" where
  "check_client_initial_data sl server_port pi data =
     (let check = check_client_initial_data_for_protocol sl data in
      conclude
        (and_then (check_current check pi) (\<lambda>pi.
         and_then (check_next check pi) (\<lambda>pi.
         guess_client check server_port pi))))"

definition guess_server ::
    "(inspect_state \<Rightarrow> maybe_protocol \<Rightarrow> verdict) \<Rightarrow> u16 \<Rightarrow> inspector \<Rightarrow> round" where
  "guess_server check server_port pi =
     (if pi_guess pi then
        and_then
          (case pi_server_portmap pi server_port of
             None \<Rightarrow> (pi, Ok None)
           | Some v \<Rightarrow> check_protocols check pi (pv_protocols v)) (\<lambda>pi.
        and_then (check_protocols check pi guess_protocol_for_server_initial_data) (\<lambda>pi.
        (pi\<lparr>pi_guess := False\<rparr>, Ok None)))
      else (pi, Ok None))"

definition check_server_initial_data ::
    "net_parsers \<Rightarrow> size_limit \<Rightarrow> u16 \<Rightarrow> inspector \<Rightarrow> bytes \<Rightarrow> inspector \<times> (nat, protocol) rs" where
  "check_server_initial_data np sl server_port pi data =
     (let check = check_server_initial_data_for_protocol np sl data in
      conclude
        (and_then (check_current check pi) (\<lambda>pi.
         and_then (check_next check pi) (\<lambda>pi.
         guess_server check server_port pi))))"

section \<open>The read loops\<close>

datatype task_error = ClosedByClient | ClientTcpReadFailed | ClosedByUpstream | UpstreamReadFailed

text \<open>
  The loop of \<open>inspect_client_data\<close> and \<open>inspect_server_data\<close>, which differ in the inspector's function and in
  the two errors. The reads are numbered; the result has the number of the reads made, the inspector and the
  buffer.
\<close>

function inspect_data_loop ::
    "(inspector \<Rightarrow> bytes \<Rightarrow> inspector \<times> (nat, protocol) rs) \<Rightarrow> task_error \<Rightarrow> task_error \<Rightarrow> nat \<Rightarrow> (nat \<Rightarrow> read_result) \<Rightarrow>
     nat \<Rightarrow> inspector \<Rightarrow> bytes \<Rightarrow> nat \<times> inspector \<times> bytes \<times> (task_error, protocol) rs" where
  "inspect_data_loop check closed failed inspect_buffer_size reads n pi buf =
     (case check pi buf of
        (pi, Panic) \<Rightarrow> (n, pi, buf, Panic)
      | (pi, Ok p) \<Rightarrow> (n, pi, buf, Ok p)
      | (pi, Err _) \<Rightarrow>
          if inspect_buffer_size \<le> length buf then (n, pi, buf, Ok PrUnknown)
          else case reads n of
            RdFailed \<Rightarrow> (Suc n, pi, buf, Err failed)
          | RdBytes c \<Rightarrow>
              if c = [] then (Suc n, pi, buf, Err closed)
              else inspect_data_loop check closed failed inspect_buffer_size reads (Suc n) pi (buf @ c))"
  by pat_completeness auto
termination
  by (relation "measure (\<lambda>(check, closed, failed, size, reads, n, pi, buf). size - length buf)")
    (auto simp: length_greater_0_conv [symmetric] simp del: length_greater_0_conv)

declare inspect_data_loop.simps [simp del]

definition inspect_client_data ::
    "size_limit \<Rightarrow> u16 \<Rightarrow> nat \<Rightarrow> (nat \<Rightarrow> read_result) \<Rightarrow> inspector \<Rightarrow> bytes \<Rightarrow>
     nat \<times> inspector \<times> bytes \<times> (task_error, protocol) rs" where
  "inspect_client_data sl port inspect_buffer_size reads pi buf =
     inspect_data_loop (check_client_initial_data sl port) ClosedByClient ClientTcpReadFailed inspect_buffer_size
       reads 0 pi buf"

definition inspect_server_data ::
    "net_parsers \<Rightarrow> size_limit \<Rightarrow> u16 \<Rightarrow> nat \<Rightarrow> (nat \<Rightarrow> read_result) \<Rightarrow> inspector \<Rightarrow> bytes \<Rightarrow>
     nat \<times> inspector \<times> bytes \<times> (task_error, protocol) rs" where
  "inspect_server_data np sl port inspect_buffer_size reads pi buf =
     inspect_data_loop (check_server_initial_data np sl port) ClosedByUpstream UpstreamReadFailed inspect_buffer_size
       reads 0 pi buf"

end
