(* ===== verification/Dpi_Rounds.thy ===== *)
theory Dpi_Rounds
  imports Dpi_Inspect
begin

text \<open>
  The rounds of the inspector against the contract of the checks: which protocol a round finds, what it keeps
  for the next round, and that the read loops end. The facts about a round hold for any dispatch that keeps
  the laws of the locale \<open>dispatcher\<close>; both sides of a connection are instances.
\<close>

section \<open>Laws of the dispatch\<close>

text \<open>What a protocol's own check says on the data when nothing was excluded before.\<close>

definition own_verdict :: "(inspect_state \<Rightarrow> maybe_protocol \<Rightarrow> verdict) \<Rightarrow> maybe_protocol \<Rightarrow> (nat, protocol option) rs" where
  "own_verdict check p = snd (check inspect_state_default p)"

locale dispatcher =
  fixes prefixes :: "maybe_protocol \<Rightarrow> bytes list"
    and check :: "bytes \<Rightarrow> inspect_state \<Rightarrow> maybe_protocol \<Rightarrow> verdict"
  assumes check_excluded: "p \<in> is_excluded s \<Longrightarrow> check d s p = (s, Ok None)"
    and check_ok: "plain p \<Longrightarrow> p \<notin> is_excluded s \<Longrightarrow> verdict_ok prefixes p (s\<lparr>is_current := Some p\<rparr>) d (check d s p)"
    and check_same: "p \<notin> is_excluded s \<Longrightarrow> p \<notin> is_excluded s' \<Longrightarrow> same (check d s p) (check d s' p)"

lemma plain_cases:
  assumes "plain p"
  obtains "p = MpSsh" | "p = MpDns" | "p = MpLdap" | "p = MpHttp" | "p = MpSsl" | "p = MpRtsp" | "p = MpMqtt"
  | "p = MpStomp" | "p = MpSmpp" | "p = MpRtmp" | "p = MpBitTorrent" | "p = MpFtp" | "p = MpSmtp" | "p = MpOdmr"
  | "p = MpPop3" | "p = MpNntp" | "p = MpNnsp" | "p = MpImap" | "p = MpNats"
  using assms unfolding plain_def by auto

lemma no_match_ok: "verdict_ok P self s d (no_match s)"
  by simp

lemmas client_checks_ok = ssh_client.check_ok dns.check_ok ldap.check_ok http.check_ok ssl.check_ok rtsp.check_ok
  mqtt.check_ok stomp.check_ok smpp.check_ok rtmp.check_ok bt_client.check_ok

lemmas client_checks_same = ssh_client.check_same dns.check_same ldap.check_same http.check_same ssl.check_same
  rtsp.check_same mqtt.check_same stomp.check_same smpp.check_same rtmp.check_same bt_client.check_same

lemmas server_checks_ok = ftp.check_ok ssh_server.check_ok smtp.check_ok odmr.check_ok pop3.check_ok nntp.check_ok
  nnsp.check_ok imap.check_ok nats.check_ok bt_server.check_ok

lemmas server_checks_same = ftp.check_same ssh_server.check_same smtp.check_same odmr.check_same pop3.check_same
  nntp.check_same nnsp.check_same imap.check_same nats.check_same bt_server.check_same

interpretation client: dispatcher client_prefixes "check_client_initial_data_for_protocol sl" for sl
proof unfold_locales
  fix p s s' d
  show "p \<in> is_excluded s \<Longrightarrow> check_client_initial_data_for_protocol sl d s p = (s, Ok None)"
    by (simp add: check_client_initial_data_for_protocol_def excluded_def)
  show "plain p \<Longrightarrow> p \<notin> is_excluded s \<Longrightarrow>
      verdict_ok client_prefixes p (s\<lparr>is_current := Some p\<rparr>) d (check_client_initial_data_for_protocol sl d s p)"
    by (erule plain_cases) (simp_all add: check_client_initial_data_for_protocol_def excluded_def client_checks_ok no_match_ok)
  show "p \<notin> is_excluded s \<Longrightarrow> p \<notin> is_excluded s' \<Longrightarrow>
      same (check_client_initial_data_for_protocol sl d s p) (check_client_initial_data_for_protocol sl d s' p)"
    by (cases p) (simp_all add: check_client_initial_data_for_protocol_def excluded_def client_checks_same same_verdicts)
qed

interpretation server: dispatcher server_prefixes "check_server_initial_data_for_protocol np sl" for np sl
proof unfold_locales
  fix p s s' d
  show "p \<in> is_excluded s \<Longrightarrow> check_server_initial_data_for_protocol np sl d s p = (s, Ok None)"
    by (simp add: check_server_initial_data_for_protocol_def excluded_def)
  show "plain p \<Longrightarrow> p \<notin> is_excluded s \<Longrightarrow>
      verdict_ok server_prefixes p (s\<lparr>is_current := Some p\<rparr>) d (check_server_initial_data_for_protocol np sl d s p)"
    by (erule plain_cases) (simp_all add: check_server_initial_data_for_protocol_def excluded_def server_checks_ok no_match_ok)
  show "p \<notin> is_excluded s \<Longrightarrow> p \<notin> is_excluded s' \<Longrightarrow>
      same (check_server_initial_data_for_protocol np sl d s p) (check_server_initial_data_for_protocol np sl d s' p)"
    by (cases p) (simp_all add: check_server_initial_data_for_protocol_def excluded_def server_checks_same same_verdicts)
qed

section \<open>The invariant of the inspector\<close>

definition portmap_wf :: "portmap \<Rightarrow> bool" where
  "portmap_wf m \<longleftrightarrow> (\<forall>port v. m port = Some v \<longrightarrow> list_all plain (pv_protocols v))"

definition inspector_wf :: "inspector \<Rightarrow> bool" where
  "inspector_wf pi \<longleftrightarrow> portmap_wf (pi_server_portmap pi) \<and> list_all plain (pi_next pi) \<and>
     list_all (\<lambda>v. 0 < rp_size v \<and> plain (rp_protocol v)) (pi_pending pi) \<and> pred_option plain (is_current (pi_state pi))"

text \<open>The reference: the first candidate whose own check finds the protocol.\<close>

fun first_match :: "(inspect_state \<Rightarrow> maybe_protocol \<Rightarrow> verdict) \<Rightarrow> maybe_protocol list \<Rightarrow> protocol option" where
  "first_match check [] = None"
| "first_match check (p # ps) =
     (case own_verdict check p of Ok (Some x) \<Rightarrow> Some x | _ \<Rightarrow> first_match check ps)"

lemma first_match_append:
  "first_match check (ps @ qs) = (case first_match check ps of Some x \<Rightarrow> Some x | None \<Rightarrow> first_match check qs)"
  by (induction ps) (auto split: rs.split option.split)

text \<open>No excluded candidate is one that its own check would find.\<close>

definition exclusions_sound ::
    "(inspect_state \<Rightarrow> maybe_protocol \<Rightarrow> verdict) \<Rightarrow> maybe_protocol set \<Rightarrow> inspector \<Rightarrow> bool" where
  "exclusions_sound check C pi \<longleftrightarrow> (\<forall>q \<in> C \<inter> is_excluded (pi_state pi). \<forall>x. own_verdict check q \<noteq> Ok (Some x))"

definition unconfused :: "maybe_protocol set \<Rightarrow> bool" where
  "unconfused C \<longleftrightarrow> MpSsh \<notin> C \<or> MpStomp \<notin> C"

definition same_config :: "inspector \<Rightarrow> inspector \<Rightarrow> bool" where
  "same_config pi pi' \<longleftrightarrow> pi_server_portmap pi' = pi_server_portmap pi \<and> pi_no_explicit_ssl pi' = pi_no_explicit_ssl pi"

text \<open>
  A stage of a round from the inspector \<open>pi0\<close> over the candidates \<open>C\<close>; the flag \<open>S\<close> says that the exclusions were
  sound at its start.
\<close>

definition ready ::
    "(inspect_state \<Rightarrow> maybe_protocol \<Rightarrow> verdict) \<Rightarrow> inspector \<Rightarrow> maybe_protocol set \<Rightarrow> bool \<Rightarrow> inspector \<Rightarrow> bool" where
  "ready check pi0 C S pi \<longleftrightarrow> inspector_wf pi \<and> same_config pi0 pi \<and> (S \<longrightarrow> exclusions_sound check C pi)"

definition stage ::
    "(inspect_state \<Rightarrow> maybe_protocol \<Rightarrow> verdict) \<Rightarrow> inspector \<Rightarrow> maybe_protocol set \<Rightarrow> bool \<Rightarrow> maybe_protocol list \<Rightarrow>
     round \<Rightarrow> bool" where
  "stage check pi0 C S ps v \<longleftrightarrow>
     (snd v = Ok None \<and> ready check pi0 C S (fst v) \<and> (S \<longrightarrow> first_match check ps = None)) \<or>
     (\<exists>x. snd v = Ok (Some x) \<and> inspector_wf (fst v) \<and> x \<noteq> PrUnknown \<and> (\<exists>p \<in> set ps. own_verdict check p = Ok (Some x)) \<and>
        (S \<longrightarrow> first_match check ps = Some x))"

lemma stage_skip: "ready check pi0 C S pi \<Longrightarrow> stage check pi0 C S [] (pi, Ok None)"
  by (simp add: stage_def)

lemma stage_and_then:
  assumes "stage check pi0 C S ps v"
    and "\<And>pi. v = (pi, Ok None) \<Longrightarrow> ready check pi0 C S pi \<Longrightarrow> stage check pi0 C S qs (k pi)"
  shows "stage check pi0 C S (ps @ qs) (and_then v k)"
proof (cases "snd v = Ok None")
  case True
  then obtain pi where v: "v = (pi, Ok None)" by (cases v) auto
  with assms(1) have r: "ready check pi0 C S pi" "S \<longrightarrow> first_match check ps = None" by (auto simp: stage_def)
  show ?thesis
    using assms(2) [OF v r(1)] r(2) unfolding stage_def
    by (auto simp: and_then_def v first_match_append)
next
  case False
  with assms(1) obtain x where "snd v = Ok (Some x)" "inspector_wf (fst v)" "x \<noteq> PrUnknown"
      "\<exists>p \<in> set ps. own_verdict check p = Ok (Some x)" "S \<longrightarrow> first_match check ps = Some x"
    by (auto simp: stage_def)
  moreover from this have "and_then v k = v" by (cases v) (simp add: and_then_def)
  ultimately show ?thesis by (auto simp: stage_def first_match_append)
qed

context dispatcher
begin

lemma check_own: "p \<notin> is_excluded s \<Longrightarrow> snd (check d s p) = own_verdict (check d) p"
  using check_same [of p s inspect_state_default d] by (simp add: same_def own_verdict_def inspect_state_default_def)

lemma own_found:
  assumes "plain q" and "own_verdict (check d) q = Ok (Some x)"
  shows "has_prefix (prefixes q) d" "x \<noteq> PrUnknown"
  using check_ok [OF assms(1), of inspect_state_default d] assms(2)
  by (auto simp: verdict_ok_def own_verdict_def inspect_state_default_def)

lemma check_sound:
  assumes "exclusions_sound (check d) C pi" and "unconfused C" and "\<forall>q \<in> C. plain q" and "p \<in> C"
    and "\<forall>x. snd (check d (pi_state pi) p) \<noteq> Ok (Some x)" and "q \<in> C" and "q \<in> is_excluded (fst (check d (pi_state pi) p))"
  shows "own_verdict (check d) q \<noteq> Ok (Some x)"
proof (cases "q \<in> is_excluded (pi_state pi)")
  case True
  then show ?thesis using assms(1,6) by (auto simp: exclusions_sound_def)
next
  case False
  then have p: "p \<notin> is_excluded (pi_state pi)" using assms(7) check_excluded by force
  show ?thesis
  proof (cases "q = p")
    case True
    then show ?thesis using assms(5) check_own [OF p, of d] by simp
  next
    case False
    have "justified prefixes p d q"
      using check_ok [of p "pi_state pi" d] assms(3,4,5,7) p False \<open>q \<notin> is_excluded (pi_state pi)\<close>
      by (auto simp: verdict_ok_def)
    moreover have "{p, q} \<noteq> {MpSsh, MpStomp}" using assms(2,4,6) by (auto simp: unconfused_def doubleton_eq_iff)
    ultimately have "\<not> has_prefix (prefixes q) (d @ [])" unfolding justified_def by blast
    then show ?thesis using own_found(1) [of q d x] assms(3,6) by auto
  qed
qed

lemma exclusion_justified:
  assumes "plain p" and "plain q" and "p \<noteq> q" and "{p, q} \<noteq> {MpSsh, MpStomp}"
    and "q \<in> is_excluded (fst (check d s p)) - is_excluded s" and "\<forall>y. snd (check d s p) \<noteq> Ok (Some y)"
  shows "own_verdict (check (d @ e)) q \<noteq> Ok (Some x)"
proof -
  have "p \<notin> is_excluded s" using assms(5) check_excluded by force
  from check_ok [OF assms(1) this, of d] have "justified prefixes p d q"
    using assms(3,5,6) by (auto simp: verdict_ok_def)
  then have "\<not> has_prefix (prefixes q) (d @ e)" using assms(4) by (auto simp: justified_def)
  then show ?thesis using own_found(1) [OF assms(2)] by blast
qed

lemma stage_check_protocol:
  assumes "ready (check d) pi0 C S pi" and "unconfused C \<or> \<not> S" and "\<forall>q \<in> C. plain q" and "p \<in> C"
  shows "stage (check d) pi0 C S [p] (check_protocol (check d) pi p)"
proof -
  obtain s r where sr: "check d (pi_state pi) p = (s, r)" by force
  have wf: "inspector_wf pi" using assms(1) by (simp add: ready_def)
  have p: "plain p" using assms(3,4) by simp
  have own: "r = own_verdict (check d) p" if "p \<notin> is_excluded (pi_state pi)" using check_own [OF that, of d] sr by simp
  have cur: "pred_option plain (is_current s)" and need: "\<And>n. r = Err n \<Longrightarrow> 0 < n" and np: "r \<noteq> Panic"
    using check_ok [OF p, of "pi_state pi" d] check_excluded [of p "pi_state pi" d] sr p wf
    by (cases "p \<in> is_excluded (pi_state pi)"; force simp: verdict_ok_def inspector_wf_def)+
  have wf': "inspector_wf (pi\<lparr>pi_state := s\<rparr>)" using wf cur by (simp add: inspector_wf_def)
  have none: "first_match (check d) [p] = None \<and> exclusions_sound (check d) C (pi\<lparr>pi_state := s\<rparr>)"
    if "\<forall>x. r \<noteq> Ok (Some x)" "S"
  proof -
    have es: "exclusions_sound (check d) C pi" using assms(1) that(2) by (simp add: ready_def)
    have "own_verdict (check d) p \<noteq> Ok (Some x)" for x
      using own that(1) es assms(4) by (cases "p \<in> is_excluded (pi_state pi)") (auto simp: exclusions_sound_def)
    moreover have "exclusions_sound (check d) C (pi\<lparr>pi_state := s\<rparr>)"
      using check_sound [OF es _ assms(3,4)] that assms(2) sr by (auto simp: exclusions_sound_def)
    ultimately show ?thesis by (auto split: rs.split option.split)
  qed
  show ?thesis
  proof (cases r)
    case (Ok v)
    show ?thesis
    proof (cases v)
      case None
      then show ?thesis using sr Ok wf' none assms(1)
        by (auto simp: stage_def check_protocol_def ready_def same_config_def exclusions_sound_def)
    next
      case (Some x)
      then have "p \<notin> is_excluded (pi_state pi)" using check_excluded sr Ok by force
      then show ?thesis using sr Ok Some wf' own own_found(2) [OF p, of d x]
        by (auto simp: stage_def check_protocol_def)
    qed
  next
    case (Err n)
    then show ?thesis using sr wf' none assms(1) need p
      by (auto simp: stage_def check_protocol_def ready_def same_config_def exclusions_sound_def inspector_wf_def)
  qed (use np in simp)
qed

lemma stage_check_protocols:
  assumes "ready (check d) pi0 C S pi" and "unconfused C \<or> \<not> S" and "\<forall>q \<in> C. plain q" and "set ps \<subseteq> C"
  shows "stage (check d) pi0 C S ps (check_protocols (check d) pi ps)"
  using assms(1,4)
proof (induction ps arbitrary: pi)
  case (Cons p ps)
  have "stage (check d) pi0 C S ([p] @ ps) (check_protocols (check d) pi (p # ps))"
    unfolding check_protocols.simps
    by (rule stage_and_then) (use stage_check_protocol assms(2,3) Cons in auto)
  then show ?case by simp
qed (simp add: stage_skip)

lemma ready_next: "ready (check d) pi0 C S pi \<Longrightarrow> list_all plain ps \<Longrightarrow> ready (check d) pi0 C S (pi\<lparr>pi_next := ps\<rparr>)"
  by (auto simp: ready_def inspector_wf_def same_config_def exclusions_sound_def)

lemma stage_check_next:
  assumes "ready (check d) pi0 C S pi" and "unconfused C \<or> \<not> S" and "\<forall>q \<in> C. plain q" and "set (pi_next pi) \<subseteq> C"
  shows "stage (check d) pi0 C S (pi_next pi) (check_next (check d) pi)"
  using assms(1,4)
proof (induction "pi_next pi" arbitrary: pi)
  case Nil
  then show ?case by (subst check_next.simps) (simp add: stage_skip flip: Nil.hyps)
next
  case (Cons p ps)
  have C: "p \<in> C" "set ps \<subseteq> C" using Cons.prems(2) by (simp_all flip: Cons.hyps(2))
  have r: "ready (check d) pi0 C S (pi\<lparr>pi_next := ps\<rparr>)"
    using Cons.prems(1) C assms(3) by (intro ready_next) (auto simp: list_all_iff)
  have "stage (check d) pi0 C S ([p] @ ps)
      (and_then (check_protocol (check d) (pi\<lparr>pi_next := ps\<rparr>) p) (check_next (check d)))"
  proof (rule stage_and_then)
    show "stage (check d) pi0 C S [p] (check_protocol (check d) (pi\<lparr>pi_next := ps\<rparr>) p)"
      by (rule stage_check_protocol [OF r assms(2,3) C(1)])
    fix pi' assume "check_protocol (check d) (pi\<lparr>pi_next := ps\<rparr>) p = (pi', Ok None)" "ready (check d) pi0 C S pi'"
    then show "stage (check d) pi0 C S ps (check_next (check d) pi')"
      using Cons.hyps(1) [of pi'] check_protocol_next [of pi' "Ok None" "check d" "pi\<lparr>pi_next := ps\<rparr>" p] C(2)
      by auto
  qed
  moreover have "check_next (check d) pi =
      and_then (check_protocol (check d) (pi\<lparr>pi_next := ps\<rparr>) p) (check_next (check d))"
    by (subst check_next.simps) (simp add: and_then_def flip: Cons.hyps(2) split: prod.split rs.split option.split)
  ultimately show ?case using Cons.hyps(2) by simp
qed

lemma stage_check_current:
  assumes "ready (check d) pi0 C S pi" and "unconfused C \<or> \<not> S" and "\<forall>q \<in> C. plain q"
    and "set_option (is_current (pi_state pi)) \<subseteq> C"
  shows "stage (check d) pi0 C S (case is_current (pi_state pi) of None \<Rightarrow> [] | Some p \<Rightarrow> [p]) (check_current (check d) pi)"
proof -
  have "ready (check d) pi0 C S (pi\<lparr>pi_state := (pi_state pi)\<lparr>is_current := None\<rparr>\<rparr>)"
    using assms(1) by (auto simp: ready_def inspector_wf_def same_config_def exclusions_sound_def)
  then show ?thesis
    using assms(4) stage_check_protocol [OF _ assms(2,3)]
    by (auto simp: check_current_def Let_def stage_skip split: option.split)
qed

end

section \<open>A round\<close>

text \<open>The candidates of a round, in the order in which they are tried.\<close>

definition pending_candidates :: "inspector \<Rightarrow> maybe_protocol list" where
  "pending_candidates pi = (case is_current (pi_state pi) of None \<Rightarrow> [] | Some p \<Rightarrow> [p]) @ pi_next pi"

definition guess_client_candidates :: "inspector \<Rightarrow> u16 \<Rightarrow> maybe_protocol list" where
  "guess_client_candidates pi port =
     (if pi_guess pi then
        (case pi_server_portmap pi port of
           None \<Rightarrow> []
         | Some v \<Rightarrow> (if \<not> pi_no_explicit_ssl pi \<and> pv_check_ssl v then [MpSsl] else []) @ pv_protocols v) @
        guess_protocol_for_client_initial_data
      else [])"

definition guess_server_candidates :: "inspector \<Rightarrow> u16 \<Rightarrow> maybe_protocol list" where
  "guess_server_candidates pi port =
     (if pi_guess pi then
        (case pi_server_portmap pi port of None \<Rightarrow> [] | Some v \<Rightarrow> pv_protocols v) @
        guess_protocol_for_server_initial_data
      else [])"

definition client_candidates :: "inspector \<Rightarrow> u16 \<Rightarrow> maybe_protocol list" where
  "client_candidates pi port = pending_candidates pi @ guess_client_candidates pi port"

definition server_candidates :: "inspector \<Rightarrow> u16 \<Rightarrow> maybe_protocol list" where
  "server_candidates pi port = pending_candidates pi @ guess_server_candidates pi port"

lemma plain_simps [simp]: "plain MpSsl" "plain MpHttp" "plain MpSsh" "plain MpSmpp" "plain MpBitTorrent" "plain MpFtp" "plain MpNats"
  by (simp_all add: plain_def)

lemma pending_candidates_plain: "inspector_wf pi \<Longrightarrow> q \<in> set (pending_candidates pi) \<Longrightarrow> plain q"
  by (cases "is_current (pi_state pi)") (auto simp: pending_candidates_def inspector_wf_def list_all_iff)

lemma candidates_plain:
  assumes "inspector_wf pi"
  shows "\<forall>q \<in> set (client_candidates pi port). plain q" "\<forall>q \<in> set (server_candidates pi port). plain q"
  using assms pending_candidates_plain [OF assms]
  by (cases "pi_server_portmap pi port"; auto simp: guess_client_candidates_def guess_server_candidates_def client_candidates_def server_candidates_def
      guess_protocol_for_client_initial_data_def guess_protocol_for_server_initial_data_def inspector_wf_def portmap_wf_def
      list_all_iff split: if_splits)+

lemma check_current_next: "check_current check pi = (pi', r) \<Longrightarrow> pi_next pi' = pi_next pi"
  by (auto simp: check_current_def Let_def dest!: check_protocol_next [OF sym] split: option.splits)

lemma check_current_guess: "check_current check pi = (pi', r) \<Longrightarrow> pi_guess pi' = pi_guess pi"
  using check_protocol_frame(2) [of check "pi\<lparr>pi_state := (pi_state pi)\<lparr>is_current := None\<rparr>\<rparr>" "the (is_current (pi_state pi))"]
  by (cases "is_current (pi_state pi)") (auto simp: check_current_def)

lemma check_next_guess: "check_next check pi = (pi', r) \<Longrightarrow> pi_guess pi' = pi_guess pi"
proof (induction "pi_next pi" arbitrary: pi)
  case Nil
  then show ?case by (subst (asm) check_next.simps) (simp flip: Nil.hyps)
next
  case (Cons p ps)
  obtain pi1 r1 where c: "check_protocol check (pi\<lparr>pi_next := ps\<rparr>) p = (pi1, r1)" by force
  then have "pi_guess pi1 = pi_guess pi" "pi_next pi1 = ps"
    using check_protocol_frame(1,2) [of check "pi\<lparr>pi_next := ps\<rparr>" p] by simp_all
  then show ?case
    using Cons.prems Cons.hyps(1) [of pi1] c
    by (subst (asm) check_next.simps) (auto simp flip: Cons.hyps(2) split: rs.splits option.splits)
qed

lemma ready_config: "ready check pi0 C S pi \<Longrightarrow> pi_server_portmap pi = pi_server_portmap pi0 \<and> pi_no_explicit_ssl pi = pi_no_explicit_ssl pi0"
  by (simp add: ready_def same_config_def)

lemma ready_guessed: "ready check pi0 C S pi \<Longrightarrow> ready check pi0 C S (pi\<lparr>pi_guess := False\<rparr>)"
  by (auto simp: ready_def inspector_wf_def same_config_def exclusions_sound_def)

lemma stage_guessed:
  assumes "stage check pi C S ps v"
  shows "stage check pi C S ps (and_then v (\<lambda>pi. (pi\<lparr>pi_guess := False\<rparr>, Ok None)))"
  using stage_and_then [OF assms, of "[]"] stage_skip [OF ready_guessed] by fastforce

lemma stage_guess_client:
  assumes r: "ready (check_client_initial_data_for_protocol sl d) pi C S pi'" and u: "unconfused C \<or> \<not> S"
    and C: "\<forall>q \<in> C. plain q" and sub: "set (guess_client_candidates pi port) \<subseteq> C" and g: "pi_guess pi' = pi_guess pi"
  shows "stage (check_client_initial_data_for_protocol sl d) pi C S (guess_client_candidates pi port)
    (guess_client (check_client_initial_data_for_protocol sl d) port pi')" (is "stage ?c _ _ _ _ _")
proof (cases "pi_guess pi")
  case True
  note check1 = client.stage_check_protocol [OF _ u C] and checks = client.stage_check_protocols [OF _ u C]
  have ssl: "stage ?c pi C S (if \<not> pi_no_explicit_ssl pi \<and> pv_check_ssl v then [MpSsl] else [])
      (if \<not> pi_no_explicit_ssl pi \<and> pv_check_ssl v then check_protocol ?c pi' MpSsl else (pi', Ok None))"
    if "pi_server_portmap pi port = Some v" for v
    using that True sub r by (auto simp: guess_client_candidates_def intro!: check1 stage_skip)
  have ports: "stage ?c pi C S ((if \<not> pi_no_explicit_ssl pi \<and> pv_check_ssl v then [MpSsl] else []) @ pv_protocols v)
      (and_then (if \<not> pi_no_explicit_ssl pi \<and> pv_check_ssl v then check_protocol ?c pi' MpSsl else (pi', Ok None))
        (\<lambda>pi. check_protocols ?c pi (pv_protocols v)))" if "pi_server_portmap pi port = Some v" for v
    by (rule stage_and_then [OF ssl [OF that]], rule checks) (use that True sub in \<open>auto simp: guess_client_candidates_def\<close>)
  have guesses: "stage ?c pi C S guess_protocol_for_client_initial_data
      (and_then (check_protocols ?c pi1 guess_protocol_for_client_initial_data) (\<lambda>pi. (pi\<lparr>pi_guess := False\<rparr>, Ok None)))"
    if "ready ?c pi C S pi1" for pi1
    by (rule stage_guessed, rule checks [OF that]) (use True sub in \<open>auto simp: guess_client_candidates_def\<close>)
  show ?thesis
  proof (cases "pi_server_portmap pi port")
    case None
    with stage_and_then [OF stage_skip [OF r] guesses] True g ready_config [OF r] show ?thesis
      by (simp add: guess_client_candidates_def guess_client_def)
  next
    case (Some v)
    with stage_and_then [OF ports guesses] True g ready_config [OF r] show ?thesis
      by (simp add: guess_client_candidates_def guess_client_def)
  qed
qed (use g r stage_skip in \<open>simp add: guess_client_candidates_def guess_client_def\<close>)

lemma stage_guess_server:
  assumes r: "ready (check_server_initial_data_for_protocol np sl d) pi C S pi'" and u: "unconfused C \<or> \<not> S"
    and C: "\<forall>q \<in> C. plain q" and sub: "set (guess_server_candidates pi port) \<subseteq> C" and g: "pi_guess pi' = pi_guess pi"
  shows "stage (check_server_initial_data_for_protocol np sl d) pi C S (guess_server_candidates pi port)
    (guess_server (check_server_initial_data_for_protocol np sl d) port pi')" (is "stage ?c _ _ _ _ _")
proof (cases "pi_guess pi")
  case True
  note checks = server.stage_check_protocols [OF _ u C]
  have ports: "stage ?c pi C S (pv_protocols v) (check_protocols ?c pi' (pv_protocols v))"
    if "pi_server_portmap pi port = Some v" for v
    by (rule checks [OF r]) (use that True sub in \<open>auto simp: guess_server_candidates_def\<close>)
  have guesses: "stage ?c pi C S guess_protocol_for_server_initial_data
      (and_then (check_protocols ?c pi1 guess_protocol_for_server_initial_data) (\<lambda>pi. (pi\<lparr>pi_guess := False\<rparr>, Ok None)))"
    if "ready ?c pi C S pi1" for pi1
    by (rule stage_guessed, rule checks [OF that]) (use True sub in \<open>auto simp: guess_server_candidates_def\<close>)
  show ?thesis
  proof (cases "pi_server_portmap pi port")
    case None
    with stage_and_then [OF stage_skip [OF r] guesses] True g ready_config [OF r] show ?thesis
      by (simp add: guess_server_candidates_def guess_server_def)
  next
    case (Some v)
    with stage_and_then [OF ports guesses] True g ready_config [OF r] show ?thesis
      by (simp add: guess_server_candidates_def guess_server_def)
  qed
qed (use g r stage_skip in \<open>simp add: guess_server_candidates_def guess_server_def\<close>)

text \<open>The stages of a round in sequence, for any way of guessing.\<close>

context dispatcher
begin

lemma stage_round:
  assumes r: "ready (check d) pi C S pi" and u: "unconfused C \<or> \<not> S" and C: "\<forall>q \<in> C. plain q"
    and sub: "set (pending_candidates pi) \<subseteq> C"
    and guess: "\<And>pi'. ready (check d) pi C S pi' \<Longrightarrow> pi_guess pi' = pi_guess pi \<Longrightarrow> stage (check d) pi C S qs (guess pi')"
  shows "stage (check d) pi C S (pending_candidates pi @ qs)
    (and_then (check_current (check d) pi) (\<lambda>pi. and_then (check_next (check d) pi) (\<lambda>pi. guess pi)))"
  unfolding pending_candidates_def append.assoc
proof (rule stage_and_then)
  show "stage (check d) pi C S (case is_current (pi_state pi) of None \<Rightarrow> [] | Some p \<Rightarrow> [p]) (check_current (check d) pi)"
    by (rule stage_check_current [OF r u C]) (use sub in \<open>auto simp: pending_candidates_def split: option.splits\<close>)
  fix pi1 assume 1: "check_current (check d) pi = (pi1, Ok None)" "ready (check d) pi C S pi1"
  note [simp] = check_current_next [OF 1(1)] check_current_guess [OF 1(1)]
  show "stage (check d) pi C S (pi_next pi @ qs) (and_then (check_next (check d) pi1) (\<lambda>pi. guess pi))"
  proof (rule stage_and_then)
    show "stage (check d) pi C S (pi_next pi) (check_next (check d) pi1)"
      using stage_check_next [OF 1(2) u C] sub by (simp add: pending_candidates_def)
    fix pi2 assume 2: "check_next (check d) pi1 = (pi2, Ok None)" "ready (check d) pi C S pi2"
    then show "stage (check d) pi C S qs (guess pi2)" using guess check_next_guess [OF 2(1)] by simp
  qed
qed

end

section \<open>The end of a round\<close>

lemma foldl_pending:
  "foldl (\<lambda>(next, len) v. (rp_protocol v # next, if rp_size v < len then rp_size v else len)) (nx, len) vs =
     (rev (map rp_protocol vs) @ nx, Min (insert len (rp_size ` set vs)))"
proof (induction vs arbitrary: nx len)
  case (Cons v vs)
  have "(if rp_size v < len then rp_size v else len) = min len (rp_size v)" by simp
  moreover have "Min (insert (min len (rp_size v)) A) = Min (insert len (insert (rp_size v) A))" if "finite A" for A
    using that by (cases "A = {}") (simp_all add: min.assoc min.left_commute)
  ultimately show ?case using Cons by simp
qed simp

lemma handle_read_pending_eq:
  "handle_read_pending pi =
     (case pi_pending pi of [] \<Rightarrow> (pi, Ok ())
      | v # vs \<Rightarrow>
          (pi\<lparr>pi_state := (pi_state pi)\<lparr>is_current := Some (rp_protocol v)\<rparr>, pi_pending := [],
              pi_next := rev (map rp_protocol vs) @ pi_next pi\<rparr>,
           Err (Min (rp_size ` set (pi_pending pi)))))"
  by (simp add: handle_read_pending_def foldl_pending split: list.split)

lemma conclude_stage:
  assumes "stage check pi C S ps v"
  shows "inspector_wf (fst (conclude v))" and "snd (conclude v) \<noteq> Panic" and "snd (conclude v) = Err n \<Longrightarrow> 0 < n"
    and "snd (conclude v) = Err n \<Longrightarrow> pi_pending (fst (conclude v)) = [] \<and> pending_candidates (fst (conclude v)) \<noteq> []"
    and "snd (conclude v) = Ok x \<Longrightarrow> x = PrUnknown \<or> (\<exists>p \<in> set ps. own_verdict check p = Ok (Some x))"
    and "S \<Longrightarrow> x \<noteq> PrUnknown \<Longrightarrow> snd (conclude v) = Ok x \<longleftrightarrow> first_match check ps = Some x"
proof -
  consider (none) pi' where "v = (pi', Ok None)" "inspector_wf pi'" "S \<longrightarrow> first_match check ps = None"
    | (found) pi' y where "v = (pi', Ok (Some y))" "inspector_wf pi'" "\<exists>p \<in> set ps. own_verdict check p = Ok (Some y)"
        "S \<longrightarrow> first_match check ps = Some y"
    using assms by (cases v) (auto simp: stage_def ready_def)
  note cases = this
  have wf: "inspector_wf (fst (handle_read_pending pi'))" "snd (handle_read_pending pi') = Err n \<Longrightarrow> 0 < n" if "inspector_wf pi'" for pi' n
    using that by (auto simp: handle_read_pending_eq inspector_wf_def list_all_iff split: list.splits)
  have np: "snd (handle_read_pending pi') \<noteq> Panic" for pi'
    by (simp add: handle_read_pending_eq split: list.split)
  have c: "conclude (pi', Ok None) = (fst (handle_read_pending pi'),
      (case snd (handle_read_pending pi') of Ok _ \<Rightarrow> Ok PrUnknown | Err n \<Rightarrow> Err n | Panic \<Rightarrow> Panic))" for pi'
    by (simp add: conclude_def split: prod.split rs.split)
  have c2: "conclude (pi', Ok (Some y)) = (pi', Ok y)" for pi' y by (simp add: conclude_def)
  show "inspector_wf (fst (conclude v))" using cases by cases (simp_all add: c c2 wf(1))
  show "snd (conclude v) \<noteq> Panic" using cases np by cases (auto simp: c c2 split: rs.split)
  show "snd (conclude v) = Err n \<Longrightarrow> 0 < n" using cases wf(2) by cases (auto simp: c c2 split: rs.splits)
  show "snd (conclude v) = Err n \<Longrightarrow> pi_pending (fst (conclude v)) = [] \<and> pending_candidates (fst (conclude v)) \<noteq> []"
    using cases by cases (auto simp: c c2 handle_read_pending_eq pending_candidates_def split: rs.splits list.splits)
  show "snd (conclude v) = Ok x \<Longrightarrow> x = PrUnknown \<or> (\<exists>p \<in> set ps. own_verdict check p = Ok (Some x))"
    using cases by cases (auto simp: c c2 split: rs.splits)
  show "S \<Longrightarrow> x \<noteq> PrUnknown \<Longrightarrow> snd (conclude v) = Ok x \<longleftrightarrow> first_match check ps = Some x"
    using cases by cases (auto simp: c c2 split: rs.splits)
qed

lemma client_round:
  assumes wf: "inspector_wf pi"
    and S: "S \<Longrightarrow> exclusions_sound (check_client_initial_data_for_protocol sl d) (set (client_candidates pi port)) pi"
      "S \<Longrightarrow> unconfused (set (client_candidates pi port))"
  shows "\<exists>v. stage (check_client_initial_data_for_protocol sl d) pi (set (client_candidates pi port)) S (client_candidates pi port) v \<and>
    check_client_initial_data sl port pi d = conclude v"
proof -
  let ?c = "check_client_initial_data_for_protocol sl d" and ?C = "set (client_candidates pi port)"
  have r: "ready ?c pi ?C S pi" using wf S(1) by (simp add: ready_def same_config_def)
  have u: "unconfused ?C \<or> \<not> S" using S(2) by blast
  have "stage ?c pi ?C S (client_candidates pi port)
      (and_then (check_current ?c pi) (\<lambda>pi. and_then (check_next ?c pi) (guess_client ?c port)))"
    unfolding client_candidates_def [of pi]
    by (rule client.stage_round [OF r [unfolded client_candidates_def] u [unfolded client_candidates_def]
          candidates_plain(1) [OF wf, of port, unfolded client_candidates_def] _ stage_guess_client])
      (use u candidates_plain(1) [OF wf] in \<open>auto simp: client_candidates_def\<close>)
  then show ?thesis unfolding check_client_initial_data_def Let_def by blast
qed

lemma server_round:
  assumes wf: "inspector_wf pi"
    and S: "S \<Longrightarrow> exclusions_sound (check_server_initial_data_for_protocol np sl d) (set (server_candidates pi port)) pi"
      "S \<Longrightarrow> unconfused (set (server_candidates pi port))"
  shows "\<exists>v. stage (check_server_initial_data_for_protocol np sl d) pi (set (server_candidates pi port)) S (server_candidates pi port) v \<and>
    check_server_initial_data np sl port pi d = conclude v"
proof -
  let ?c = "check_server_initial_data_for_protocol np sl d" and ?C = "set (server_candidates pi port)"
  have r: "ready ?c pi ?C S pi" using wf S(1) by (simp add: ready_def same_config_def)
  have u: "unconfused ?C \<or> \<not> S" using S(2) by blast
  have "stage ?c pi ?C S (server_candidates pi port)
      (and_then (check_current ?c pi) (\<lambda>pi. and_then (check_next ?c pi) (guess_server ?c port)))"
    unfolding server_candidates_def [of pi]
    by (rule server.stage_round [OF r [unfolded server_candidates_def] u [unfolded server_candidates_def]
          candidates_plain(2) [OF wf, of port, unfolded server_candidates_def] _ stage_guess_server])
      (use u candidates_plain(2) [OF wf] in \<open>auto simp: server_candidates_def\<close>)
  then show ?thesis unfolding check_server_initial_data_def Let_def by blast
qed

section \<open>The read loops\<close>

text \<open>What a loop needs of the inspector's function; \<open>sound buf x\<close> justifies the protocol \<open>x\<close> for the data.\<close>

locale data_inspector =
  fixes inspect :: "inspector \<Rightarrow> bytes \<Rightarrow> inspector \<times> (nat, protocol) rs"
    and sound :: "bytes \<Rightarrow> protocol \<Rightarrow> bool"
  assumes inspect_wf: "inspector_wf pi \<Longrightarrow> inspector_wf (fst (inspect pi buf))"
    and inspect_not_Panic: "inspector_wf pi \<Longrightarrow> snd (inspect pi buf) \<noteq> Panic"
    and inspect_sound: "inspector_wf pi \<Longrightarrow> snd (inspect pi buf) = Ok x \<Longrightarrow> x = PrUnknown \<or> sound buf x"
begin

lemma loop_ends:
  assumes "inspector_wf pi" and "inspect_data_loop inspect closed failed limit reads n pi buf = (m, pi', buf', r)"
  shows "n \<le> m \<and> m - n \<le> limit - length buf \<and> buf' = buf @ read_bytes reads n m \<and> inspector_wf pi' \<and> r \<noteq> Panic \<and>
    (\<forall>x. r = Ok x \<longrightarrow> x = PrUnknown \<or> sound buf' x) \<and>
    (\<forall>e. r = Err e \<longrightarrow> n < m \<and> (reads (m - 1) = RdBytes [] \<and> e = closed \<or> reads (m - 1) = RdFailed \<and> e = failed))"
  using assms
proof (induction "limit - length buf" arbitrary: n pi buf rule: less_induct)
  case less
  obtain pi1 v where c: "inspect pi buf = (pi1, v)" by force
  have wf1: "inspector_wf pi1" and np: "v \<noteq> Panic" and ok: "\<And>x. v = Ok x \<Longrightarrow> x = PrUnknown \<or> sound buf x"
    using inspect_wf [OF less.prems(1), of buf] inspect_not_Panic [OF less.prems(1), of buf]
      inspect_sound [OF less.prems(1), of buf] c by simp_all
  note eq = less.prems(2) [unfolded inspect_data_loop.simps [of inspect closed failed limit reads n pi buf] c]
  show ?case
  proof (cases v)
    case (Ok x)
    then show ?thesis using eq wf1 ok [OF Ok] by (auto simp: read_bytes_simps)
  next
    case (Err k)
    show ?thesis
    proof (cases "limit \<le> length buf")
      case True
      then show ?thesis using eq wf1 Err by (auto simp: read_bytes_simps)
    next
      case below: False
      show ?thesis
      proof (cases "reads n")
        case RdFailed
        then show ?thesis using eq wf1 Err below by (auto simp: read_bytes_simps)
      next
        case (RdBytes ch)
        show ?thesis
        proof (cases "ch = []")
          case True
          then show ?thesis using eq wf1 Err below RdBytes by (auto simp: read_bytes_simps)
        next
          case False
          then have grow: "limit - length (buf @ ch) < limit - length buf" using below by (cases ch) auto
          have "inspect_data_loop inspect closed failed limit reads (Suc n) pi1 (buf @ ch) = (m, pi', buf', r)"
            using eq Err below RdBytes False by simp
          note IH = less.hyps [OF grow wf1 this]
          then have "Suc n \<le> m" "m - Suc n \<le> limit - length (buf @ ch)" by blast+
          moreover have "buf' = buf @ read_bytes reads n m"
            using IH RdBytes by (simp add: read_bytes_simps(2))
          ultimately show ?thesis using IH grow by auto
        qed
      qed
    qed
  qed (use np in simp)
qed

end

interpretation client_data: data_inspector "check_client_initial_data sl port"
    "\<lambda>buf x. \<exists>p. plain p \<and> own_verdict (check_client_initial_data_for_protocol sl buf) p = Ok (Some x)" for sl port
proof unfold_locales
  fix pi buf x assume wf: "inspector_wf pi"
  from client_round [OF wf, of False sl buf port] obtain v
    where v: "stage (check_client_initial_data_for_protocol sl buf) pi (set (client_candidates pi port)) False (client_candidates pi port) v"
      "check_client_initial_data sl port pi buf = conclude v" by blast
  note c = conclude_stage [OF v(1)]
  show "inspector_wf (fst (check_client_initial_data sl port pi buf))" "snd (check_client_initial_data sl port pi buf) \<noteq> Panic"
    using c(1,2) v(2) by simp_all
  show "x = PrUnknown \<or> (\<exists>p. plain p \<and> own_verdict (check_client_initial_data_for_protocol sl buf) p = Ok (Some x))"
    if "snd (check_client_initial_data sl port pi buf) = Ok x"
    using c(5) [of x] that v(2) candidates_plain(1) [OF wf, of port] by auto
qed

interpretation server_data: data_inspector "check_server_initial_data np sl port"
    "\<lambda>buf x. \<exists>p. plain p \<and> own_verdict (check_server_initial_data_for_protocol np sl buf) p = Ok (Some x)" for np sl port
proof unfold_locales
  fix pi buf x assume wf: "inspector_wf pi"
  from server_round [OF wf, of False np sl buf port] obtain v
    where v: "stage (check_server_initial_data_for_protocol np sl buf) pi (set (server_candidates pi port)) False (server_candidates pi port) v"
      "check_server_initial_data np sl port pi buf = conclude v" by blast
  note c = conclude_stage [OF v(1)]
  show "inspector_wf (fst (check_server_initial_data np sl port pi buf))" "snd (check_server_initial_data np sl port pi buf) \<noteq> Panic"
    using c(1,2) v(2) by simp_all
  show "x = PrUnknown \<or> (\<exists>p. plain p \<and> own_verdict (check_server_initial_data_for_protocol np sl buf) p = Ok (Some x))"
    if "snd (check_server_initial_data np sl port pi buf) = Ok x"
    using c(5) [of x] that v(2) candidates_plain(2) [OF wf, of port] by auto
qed

section \<open>Properties\<close>

lemma pv_push_plain: "list_all plain (pv_protocols v) \<Longrightarrow> plain p \<Longrightarrow> list_all plain (pv_protocols (pv_push v p))"
  by (simp add: pv_push_def)

lemma portmap_value_insert_plain:
  assumes "list_all plain (pv_protocols v)" and "p \<noteq> MpMaxSize"
  shows "list_all plain (pv_protocols (portmap_value_insert v p))"
  using assms by (cases p) (simp_all add: portmap_value_insert_def pv_push_plain plain_def)

lemma portmap_entry_plain: "portmap_wf m \<Longrightarrow> list_all plain (pv_protocols (portmap_entry m port))"
  by (simp add: portmap_wf_def portmap_entry_def portmap_value_default_def split: option.split)

lemma portmap_insert_wf: "portmap_wf m \<Longrightarrow> p \<noteq> MpMaxSize \<Longrightarrow> portmap_wf (portmap_insert m port p)"
  using portmap_value_insert_plain [OF portmap_entry_plain]
  by (auto simp: portmap_wf_def portmap_insert_def)

lemma portmap_insert_batch_wf:
  assumes "portmap_wf m" and "MpMaxSize \<notin> set ps"
  shows "portmap_wf (portmap_insert_batch m port ps)"
proof -
  have "list_all plain (pv_protocols (foldl portmap_value_insert v ps))" if "list_all plain (pv_protocols v)" for v
    using that assms(2) by (induction ps arbitrary: v) (auto simp: portmap_value_insert_plain)
  then show ?thesis
    using assms(1) portmap_entry_plain [OF assms(1)] by (auto simp: portmap_wf_def portmap_insert_batch_def)
qed

lemma portmap_fold_wf:
  assumes "portmap_wf m" and "MpMaxSize \<notin> snd ` set xs"
  shows "portmap_wf (foldl (\<lambda>m (port, p). portmap_insert m port p) m xs)"
  using assms by (induction xs arbitrary: m) (auto simp: portmap_insert_wf)

lemma portmap_default_wf [simp]: "portmap_wf Map.empty" "portmap_wf portmap_tcp_server" "portmap_wf portmap_tcp_client"
proof -
  show e: "portmap_wf Map.empty" by (simp add: portmap_wf_def)
  show "portmap_wf portmap_tcp_server" unfolding portmap_tcp_server_def by (rule portmap_fold_wf [OF e]) simp
  show "portmap_wf portmap_tcp_client" unfolding portmap_tcp_client_def by (rule portmap_insert_wf [OF e]) simp
qed

lemma from_str_not_MaxSize: "maybe_protocol_from_str s \<noteq> Some MpMaxSize"
proof
  assume "maybe_protocol_from_str s = Some MpMaxSize"
  then have "MpMaxSize \<in> snd ` set maybe_protocol_names"
    unfolding maybe_protocol_from_str_def by (auto dest!: map_of_SomeD intro: rev_image_eqI)
  then show False by (simp add: maybe_protocol_names_def)
qed

text \<open>
  The arms of the dispatch marked \<open>unreachable!()\<close> are not reached from the configuration. Every port map
  built by inserting protocols read by \<open>from_str\<close> into the default or an empty map holds plain protocols only,
  and an inspector made from it keeps the invariant that all its candidates are plain, also after pushing the
  protocol of an ALPN name.
\<close>

theorem portmap_plain:
  assumes "portmap_wf m" and "list_all (\<lambda>(s, p). maybe_protocol_from_str s = Some p) (zip names ps)"
    and "length names = length ps"
  shows "portmap_wf portmap_tcp_server \<and> portmap_wf portmap_tcp_client \<and> portmap_wf (portmap_insert_batch m port ps) \<and>
    inspector_wf (push_alpn_protocol (inspector_new (portmap_insert_batch m port ps)) a) \<and>
    list_all plain (client_candidates (push_alpn_protocol (inspector_new (portmap_insert_batch m port ps)) a) port')"
proof -
  have "MpMaxSize \<notin> set ps"
  proof
    assume "MpMaxSize \<in> set ps"
    then obtain i where "i < length ps" "ps ! i = MpMaxSize" by (auto simp: in_set_conv_nth)
    then have "(names ! i, MpMaxSize) \<in> set (zip names ps)" using assms(3) by (auto simp: set_zip)
    then show False using assms(2) from_str_not_MaxSize by (auto simp: list_all_iff)
  qed
  then have wf: "portmap_wf (portmap_insert_batch m port ps)" by (rule portmap_insert_batch_wf [OF assms(1)])
  moreover have "plain (maybe_protocol_from_alpn a)" by (cases a) (simp_all add: plain_def)
  ultimately have "inspector_wf (push_alpn_protocol (inspector_new (portmap_insert_batch m port ps)) a)"
    by (simp add: inspector_wf_def push_alpn_protocol_def push_protocol_def inspector_new_def inspect_state_default_def)
  then show ?thesis using wf candidates_plain(1) by (simp add: list_all_iff)
qed

theorem portmap_plain_witness:
  "portmap_wf (portmap_insert_batch portmap_tcp_server 8443 [MpHttps, MpSecureMqtt]) \<and>
   list_all plain (client_candidates (push_alpn_protocol
     (inspector_new (portmap_insert_batch portmap_tcp_server 8443 [MpHttps, MpSecureMqtt])) AlpnMqtt) 8443)"
proof -
  have "list_all (\<lambda>(s, p). maybe_protocol_from_str s = Some p) (zip [''https'', ''Secure-MQTT''] [MpHttps, MpSecureMqtt])"
    by code_simp
  from portmap_plain [OF _ this, of portmap_tcp_server 8443 AlpnMqtt 8443] show ?thesis by simp
qed

text \<open>
  C3: the exclusions that the checks make for each other never change the outcome. On an inspector that has
  excluded nothing yet, the first round finds exactly the protocol of the first candidate whose own check, run
  alone, finds it. The candidates must not hold both SSH and STOMP, whose checks exclude each other too early.
  The same holds for the data of the server.
\<close>

theorem inspector_first_match:
  assumes "inspector_wf pi" and "is_excluded (pi_state pi) = {}" and "x \<noteq> PrUnknown"
    and "unconfused (set (client_candidates pi port))" and "unconfused (set (server_candidates pi port))"
  shows "(snd (check_client_initial_data sl port pi data) = Ok x \<longleftrightarrow>
      first_match (check_client_initial_data_for_protocol sl data) (client_candidates pi port) = Some x) \<and>
    (snd (check_server_initial_data np sl port pi data) = Ok x \<longleftrightarrow>
      first_match (check_server_initial_data_for_protocol np sl data) (server_candidates pi port) = Some x)"
proof -
  have es: "exclusions_sound check C pi" for check C using assms(2) by (simp add: exclusions_sound_def)
  obtain v where v: "stage (check_client_initial_data_for_protocol sl data) pi (set (client_candidates pi port)) True (client_candidates pi port) v"
      "check_client_initial_data sl port pi data = conclude v"
    using client_round [OF assms(1) es assms(4)] by blast
  obtain w where w: "stage (check_server_initial_data_for_protocol np sl data) pi (set (server_candidates pi port)) True (server_candidates pi port) w"
      "check_server_initial_data np sl port pi data = conclude w"
    using server_round [OF assms(1) es assms(5)] by blast
  show ?thesis using conclude_stage(6) [OF v(1) _ assms(3)] conclude_stage(6) [OF w(1) _ assms(3)] v(2) w(2) by simp
qed

definition example_parsers :: net_parsers where
  "example_parsers = \<lparr>np_idna = Some, np_ipv4 = \<lambda>_. None, np_ipv6 = \<lambda>_. None, np_utf8 = \<lambda>_. True\<rparr>"

definition example_request :: bytes where
  "example_request = ascii ''GET / HTTP/1.1'' @ [0x0D, 0x0A] @ ascii ''Host: a'' @ [0x0D, 0x0A, 0x0D, 0x0A]"

lemma inspector_default_wf: "inspector_wf inspector_default"
  by (simp add: inspector_wf_def inspector_default_def inspect_state_default_def)

lemma portmap_tcp_server_80: "portmap_tcp_server 80 = Some \<lparr>pv_check_ssl = False, pv_protocols = [MpHttp]\<rparr>"
  by (simp add: portmap_tcp_server_def portmap_insert_def portmap_entry_def portmap_value_default_def
      portmap_value_insert_def pv_push_def)

lemma default_candidates_80:
  "client_candidates inspector_default 80 = [MpHttp, MpSsl, MpHttp, MpSsh, MpSmpp, MpBitTorrent]"
  "server_candidates inspector_default 80 = [MpHttp, MpSsh, MpFtp, MpNats, MpBitTorrent]"
  by (simp_all add: client_candidates_def server_candidates_def guess_client_candidates_def guess_server_candidates_def
      pending_candidates_def inspector_default_def inspect_state_default_def portmap_tcp_server_80
      guess_protocol_for_client_initial_data_def guess_protocol_for_server_initial_data_def)

lemma example_request_http:
  "own_verdict (check_client_initial_data_for_protocol size_limit_default example_request) MpHttp = Ok (Some PrHttp1)"
  by code_simp

theorem inspector_first_match_witness:
  "snd (check_client_initial_data size_limit_default 80 inspector_default example_request) = Ok PrHttp1"
  using inspector_first_match [OF inspector_default_wf, of PrHttp1 80 size_limit_default example_request]
  by (simp add: default_candidates_80 unconfused_def example_request_http) (simp add: inspector_default_def inspect_state_default_def)



text \<open>
  C6: the loops that read the first bytes of a connection end. Whatever the reads return, they make at most as
  many reads as bytes were missing from the inspection buffer, they do not panic, the buffer they hand over is
  the bytes it had followed by all bytes that were read, an error is returned only for the read that failed or
  that met the end of the stream, and a protocol is reported only if the check of that protocol, run alone on
  all bytes of the buffer, finds it.
\<close>

theorem inspect_data_ends:
  assumes "inspector_wf pi" and "inspect_client_data sl port limit reads pi buf = (n1, pi1, buf1, r1)"
    and "inspect_server_data np sl port limit reads pi buf = (n2, pi2, buf2, r2)"
  shows "n1 \<le> limit - length buf \<and> buf1 = buf @ read_bytes reads 0 n1 \<and> r1 \<noteq> Panic \<and>
    (\<forall>x. r1 = Ok x \<longrightarrow> x = PrUnknown \<or>
      (\<exists>p. plain p \<and> own_verdict (check_client_initial_data_for_protocol sl buf1) p = Ok (Some x))) \<and>
    (\<forall>e. r1 = Err e \<longrightarrow> 0 < n1 \<and> (reads (n1 - 1) = RdBytes [] \<and> e = ClosedByClient \<or>
      reads (n1 - 1) = RdFailed \<and> e = ClientTcpReadFailed)) \<and>
    n2 \<le> limit - length buf \<and> buf2 = buf @ read_bytes reads 0 n2 \<and> r2 \<noteq> Panic \<and>
    (\<forall>x. r2 = Ok x \<longrightarrow> x = PrUnknown \<or>
      (\<exists>p. plain p \<and> own_verdict (check_server_initial_data_for_protocol np sl buf2) p = Ok (Some x))) \<and>
    (\<forall>e. r2 = Err e \<longrightarrow> 0 < n2 \<and> (reads (n2 - 1) = RdBytes [] \<and> e = ClosedByUpstream \<or>
      reads (n2 - 1) = RdFailed \<and> e = UpstreamReadFailed))"
  using client_data.loop_ends [OF assms(1) assms(2) [unfolded inspect_client_data_def]]
    server_data.loop_ends [OF assms(1) assms(3) [unfolded inspect_server_data_def]]
  unfolding minus_nat.diff_0 by blast

lemma surjective_pairing4: "v = (fst v, fst (snd v), fst (snd (snd v)), snd (snd (snd v)))"
  by simp

theorem inspect_data_ends_witness:
  "fst (inspect_client_data size_limit_default 80 16384 (\<lambda>n. RdBytes [0x47]) inspector_default []) \<le> 16384 \<and>
   fst (inspect_server_data example_parsers size_limit_default 80 16384 (\<lambda>n. RdBytes [0x47]) inspector_default []) \<le> 16384"
  using inspect_data_ends [OF inspector_default_wf surjective_pairing4 surjective_pairing4,
      of size_limit_default 80 16384 "\<lambda>n. RdBytes [0x47]" "[]" example_parsers]
  unfolding list.size minus_nat.diff_0 by blast


definition example_partial :: bytes where
  "example_partial = ascii ''GET /aaaaaaaaaaaaaaaaaaaaaaaa''"


end
