(* ===== verification/Dpi_Reset.thy ===== *)
theory Dpi_Reset
  imports Dpi_Rounds
begin

text \<open>
  What \<open>ProtocolInspector::reset_state\<close> leaves behind, and what the mutual exclusion of SSH and STOMP hides.
\<close>

text \<open>The header of a TLS record with the start of a ClientHello, and data of no known protocol.\<close>

definition example_tls_start :: bytes where
  "example_tls_start = [0x16, 0x03, 0x01, 0x01, 0x00, 0x01, 0x00, 0x00, 0xFC, 0x03, 0x03]"

definition example_unknown :: bytes where
  "example_unknown = replicate 68 0x7A"

definition example_ssh_banner :: bytes where
  "example_ssh_banner = ascii ''SSH-2.0-OpenSSH_10.0p2 a-comment-that-makes-the-banner-longer-than-68'' @ [0x0D, 0x0A]"

definition example_inspector :: inspector where
  "example_inspector = inspector_new (portmap_insert Map.empty 554 MpRtsp)"

lemma tls_start_checks:
  "check_rtsp_client_setup_request s example_tls_start = need_more s 14"
  "check_ssl_client_hello s example_tls_start =
     found (exclude_others [MpSsh, MpHttp, MpRtsp, MpMqtt, MpStomp, MpSmpp, MpRtmp, MpBitTorrent, MpLdap] s) PrTlsModern"
  by (simp_all add: example_tls_start_def check_rtsp_client_setup_request_def check_ssl_client_hello_def check_legacy_version_def
      check_fragment_len_def check_ssl_client_hello_full_handshake_header_def be_nat_def Let_def)

lemma unknown_checks:
  "check_rtsp_client_setup_request s example_unknown = no_match s"
  "check_http_request s example_unknown sl = no_match s"
  "check_ssl_client_hello s example_unknown = no_match s"
  "check_ssh_client_protocol_version_exchange s example_unknown = no_match s"
  "check_smpp_session_request s example_unknown = no_match s"
  "check_bittorrent_tcp_handshake s example_unknown = no_match s"
  by (simp_all add: example_unknown_def check_rtsp_client_setup_request_def check_http_request_def check_ssl_client_hello_def
      check_ssh_client_protocol_version_exchange_def check_smpp_session_request_def check_bittorrent_tcp_handshake_def
      rtsp_arms_def http_arms_def http_arms_a_h_def http_arms_l_p_def http_arms_q_v_def)

lemmas round_defs = check_client_initial_data_def Let_def check_current_def check_next.simps guess_client_def check_protocol_def
  and_then_def conclude_def handle_read_pending_def guess_protocol_for_client_initial_data_def
  check_client_initial_data_for_protocol_def excluded_def no_match_def need_more_def found_def exclude_current_def
  exclude_other_def exclude_others_def example_inspector_def inspector_new_def inspect_state_default_def portmap_insert_def
  portmap_value_insert_def portmap_entry_def portmap_value_default_def pv_push_def set_no_explicit_ssl_def
  inspector_reset_state_def state_reset_def

lemma tls_start_round:
  "check_client_initial_data size_limit_default 554 example_inspector example_tls_start =
    (\<lparr>pi_server_portmap = portmap_insert Map.empty 554 MpRtsp,
      pi_state = \<lparr>is_current = Some MpSsl, is_excluded = {MpSsh, MpHttp, MpRtsp, MpMqtt, MpStomp, MpSmpp, MpRtmp, MpBitTorrent, MpLdap}\<rparr>,
      pi_next = [], pi_no_explicit_ssl = False, pi_pending = [\<lparr>rp_size = 14, rp_protocol = MpRtsp\<rparr>], pi_guess = True\<rparr>,
     Ok PrTlsModern)"
  by (auto simp: round_defs tls_start_checks)


text \<open>
  An SSH banner is recognized, but not once STOMP was tried before SSH: the STOMP check excludes SSH on the first
  byte \<open>S\<close>.
\<close>

lemma ssh_banner_checks:
  "check_ssl_client_hello s example_ssh_banner = no_match s"
  "check_http_request s example_ssh_banner sl = no_match (exclude_others [] (http_exclude_by_byte0 s))"
  "check_ssh_client_protocol_version_exchange s example_ssh_banner = found (exclude_others [MpHttp, MpRtsp]
     (exclude_others [MpSsl, MpMqtt, MpStomp, MpSmpp, MpRtmp, MpBitTorrent, MpLdap] s)) PrSsh"
  "check_stomp_client_connect_request s example_ssh_banner =
     no_match (exclude_others [MpSsl, MpSsh, MpMqtt, MpSmpp, MpRtmp, MpBitTorrent, MpLdap] s)"
  by (simp_all add: example_ssh_banner_def check_ssl_client_hello_def check_http_request_def http_arms_def http_arms_a_h_def
      http_arms_l_p_def http_arms_q_v_def check_ssh_client_protocol_version_exchange_def ssh_after_name_def ssh_version_def
      check_stomp_client_connect_request_def check_stomp_stomp_method_def Let_def)

lemma stomp_hides_ssh:
  "snd (check_client_initial_data size_limit_default 22 (inspector_new Map.empty) example_ssh_banner) = Ok PrSsh"
  "snd (check_client_initial_data size_limit_default 22 (push_protocol (inspector_new Map.empty) MpStomp) example_ssh_banner) =
     Ok PrUnknown"
  by (simp_all add: round_defs push_protocol_def http_exclude_by_byte0_def ssh_banner_checks)

end
