(* ===== verification/Sni_Accept.thy ===== *)
theory Sni_Accept
  imports Codec_Hello Net_Types
begin

text \<open>
  The SNI proxy reading the server name of a TLS connection:
  \<open>vey-proxy/src/serve/sni_proxy/task/accept/tls.rs\<close>. The loop reads records from the socket, hands their
  fragments to the handshake coalescer and routes on the \<open>server_name\<close> extension of the ClientHello.
\<close>

section \<open>The accept loop\<close>

datatype accept_error = AcInvalidClientProtocol string | AcClosedByClient | AcClientTcpReadFailed

text \<open>\<open>UpstreamAddr\<close>: the host and the port.\<close>

type_synonym upstream_addr = "host \<times> u16"

definition parse_sni :: "net_parsers \<Rightarrow> client_hello \<Rightarrow> u16 \<Rightarrow> (accept_error, upstream_addr) rs" where
  "parse_sni np ch port =
     (case client_hello_get_ext ch ExServerName of
        Panic \<Rightarrow> Panic
      | Ok (Some data) \<Rightarrow>
          bnd (map_err (\<lambda>_. AcInvalidClientProtocol ''invalid server name in tls client hello message'')
                (server_name_from_extension_value np data)) (\<lambda>sni.
          Ok (HostDomain sni, port))
      | Ok None \<Rightarrow> Err (AcInvalidClientProtocol ''no server name found in tls client hello message'')
      | Err _ \<Rightarrow> Err (AcInvalidClientProtocol ''invalid extension in tls client hello request''))"

text \<open>The saturating arithmetic of \<open>usize\<close>.\<close>

definition saturate :: "nat \<Rightarrow> nat" where
  "saturate n = min n (2 ^ 64 - 1)"

definition max_buf_size :: "nat \<Rightarrow> nat" where
  "max_buf_size max_hello_size = saturate (saturate (max_hello_size * (5 + 1)) + 2 ^ 14)"

text \<open>
  The loop, from the read with number \<open>n\<close> on. It returns the number of the reads made and the buffer, which is
  forwarded to the upstream afterwards.
\<close>

function parse_request_loop ::
    "net_parsers \<Rightarrow> (nat \<Rightarrow> read_result) \<Rightarrow> u16 \<Rightarrow> nat \<Rightarrow> nat \<Rightarrow> bytes \<Rightarrow> nat \<Rightarrow> handshake_coalescer \<Rightarrow>
     nat \<times> bytes \<times> (accept_error, upstream_addr) rs" where
  "parse_request_loop np reads port buf_limit n buf record_offset c =
     (if length buf < record_offset then (n, buf, Panic)
      else case record_parse (drop record_offset buf) of
        Panic \<Rightarrow> (n, buf, Panic)
      | Err (RecNeedMoreData _) \<Rightarrow>
          if buf_limit \<le> length buf
          then (n, buf, Err (AcInvalidClientProtocol ''tls client hello message too large''))
          else (case reads n of
              RdFailed \<Rightarrow> (Suc n, buf, Err AcClientTcpReadFailed)
            | RdBytes chunk \<Rightarrow>
                if chunk = [] then (Suc n, buf, Err AcClosedByClient)
                else parse_request_loop np reads port buf_limit (Suc n) (buf @ chunk) record_offset c)
      | Err _ \<Rightarrow> (n, buf, Err (AcInvalidClientProtocol ''invalid tls client hello request''))
      | Ok record \<Rightarrow>
          (case consume_handshake record c of
             (record', c, Panic) \<Rightarrow> (n, buf, Panic)
           | (record', c, Err _) \<Rightarrow> (n, buf, Err (AcInvalidClientProtocol ''invalid tls client hello request''))
           | (record', c, Ok (Some handshake_msg)) \<Rightarrow>
               (n, buf,
                bnd (map_err (\<lambda>_. AcInvalidClientProtocol ''invalid tls client hello request'')
                      (handshake_parse_client_hello handshake_msg)) (\<lambda>ch. parse_sni np ch port))
           | (record', c, Ok None) \<Rightarrow>
               (case coalescer_parse_client_hello c of
                  Panic \<Rightarrow> (n, buf, Panic)
                | Ok (Some ch) \<Rightarrow> (n, buf, parse_sni np ch port)
                | Ok None \<Rightarrow>
                    if \<not> record_consume_done record'
                    then (n, buf, Err (AcInvalidClientProtocol ''partial fragmented tls client hello request''))
                    else parse_request_loop np reads port buf_limit n buf (record_offset + record_encoded_len record) c
                | Err _ \<Rightarrow> (n, buf, Err (AcInvalidClientProtocol ''invalid fragmented tls client hello request'')))))"
  by pat_completeness auto
termination
  by (relation "measures [\<lambda>(np, reads, port, buf_limit, n, buf, record_offset, c). buf_limit - length buf,
      \<lambda>(np, reads, port, buf_limit, n, buf, record_offset, c). length buf - record_offset]")
    (auto dest!: record_parse_bounds simp: length_greater_0_conv [symmetric] simp del: length_greater_0_conv)

declare parse_request_loop.simps [simp del]

definition parse_request ::
    "net_parsers \<Rightarrow> (nat \<Rightarrow> read_result) \<Rightarrow> bytes \<Rightarrow> u16 \<Rightarrow> nat \<Rightarrow> nat \<times> bytes \<times> (accept_error, upstream_addr) rs" where
  "parse_request np reads clt_r_buf port max_client_hello_size =
     parse_request_loop np reads port (max_buf_size max_client_hello_size) 0 clt_r_buf 0
       (handshake_coalescer_new max_client_hello_size)"

section \<open>The loop ends\<close>

lemma parse_sni_not_io: "parse_sni np ch port \<noteq> Err AcClosedByClient" "parse_sni np ch port \<noteq> Err AcClientTcpReadFailed"
  by (auto simp: parse_sni_def rs_iff split: rs.split option.split)

lemma parse_sni_not_Panic: "parse_sni np ch port \<noteq> Panic"
proof -
  have "server_name_from_extension_value np data \<noteq> Panic" for data
    by (auto simp: server_name_from_extension_value_def Let_def rs_iff domain_parse_def split: if_splits)
  moreover have "client_hello_get_ext ch ExServerName \<noteq> Panic"
    by (simp add: client_hello_get_ext_def extension_list_get_ext_def get_ext_loop_items split: option.split)
  ultimately show ?thesis
    by (auto simp: parse_sni_def rs_iff split: rs.split option.split)
qed

lemma handshake_parse_not_Panic: "handshake_parse_client_hello m \<noteq> Panic"
  by (auto simp: handshake_parse_client_hello_def client_hello_parse_fragment_def Let_def rs_iff
      client_hello_parse_no_panic handshake_header_encoded_len_def)

lemma coalescer_parse_not_Panic: "coalescer_inv c \<Longrightarrow> coalescer_parse_client_hello c \<noteq> Panic"
  by (auto simp: coalescer_parse_client_hello_def rs_iff client_hello_parse_no_panic handshake_header_encoded_len_def
      split: option.split)

lemma consume_cases:
  assumes "coalescer_inv c" and "record_parse data = Ok r"
  obtains (err) r' c' e where "consume_handshake r c = (r', c', Err e)"
  | (ok) r' c' m where "consume_handshake r c = (r', c', Ok m)" "coalescer_inv c'"
proof -
  have off: "rec_consume_offset r = 0" using assms(2) unfolding record_parse_Ok_iff by blast
  show thesis
  proof (cases "rh_content_type (rec_header r) = CtHandshake \<and> \<not> record_consume_done r \<and>
      (if handshake_coalescer_is_empty c then handshake_try_parse_fragment (rec_fragment r) else None) = None")
    case True
    from assms(1) show thesis
      by (rule coalesce_fragment_cases [of c "rec_fragment r"])
        (use True off err ok in \<open>auto simp: consume_handshake_def\<close>)
  next
    case False
    then show thesis using assms(1) off err ok
      by (cases "rh_content_type (rec_header r) = CtHandshake"; cases "record_consume_done r")
        (auto simp: consume_handshake_def)
  qed
qed

text \<open>One turn of the loop.\<close>

lemma turn_cases:
  assumes "coalescer_inv c" and "off \<le> length buf"
  obtains (stop) r where "parse_request_loop np reads port lim n buf off c = (n, buf, r)" "r \<noteq> Panic"
      "r \<noteq> Err AcClosedByClient" "r \<noteq> Err AcClientTcpReadFailed"
  | (fail) e where "parse_request_loop np reads port lim n buf off c = (Suc n, buf, Err e)" "length buf < lim"
      "reads n = RdBytes [] \<and> e = AcClosedByClient \<or> reads n = RdFailed \<and> e = AcClientTcpReadFailed"
  | (read) chunk where "reads n = RdBytes chunk" "chunk \<noteq> []" "length buf < lim"
      "parse_request_loop np reads port lim n buf off c = parse_request_loop np reads port lim (Suc n) (buf @ chunk) off c"
  | (consumed) r c' where "record_parse (drop off buf) = Ok r" "coalescer_inv c'"
      "parse_request_loop np reads port lim n buf off c =
       parse_request_loop np reads port lim n buf (off + record_encoded_len r) c'"
proof (cases "record_parse (drop off buf)")
  case Panic
  then show thesis using record_parse_not_Panic by blast
next
  case (Err e)
  show thesis
  proof (cases e)
    case (RecNeedMoreData k)
    then show thesis
      using stop fail read Err assms(2)
      by (cases "lim \<le> length buf"; cases "reads n")
        (auto simp: parse_request_loop.simps [of np reads port lim n buf off c] split: if_splits)
  qed (use stop Err assms(2) in \<open>simp_all add: parse_request_loop.simps [of np reads port lim n buf off c]\<close>)
next
  case (Ok r)
  note simps = parse_request_loop.simps [of np reads port lim n buf off c]
  from assms(1) Ok show thesis
  proof (cases rule: consume_cases)
    case (err r' c' e)
    then show thesis using stop Ok assms(2) by (simp add: simps)
  next
    case (ok r' c' m)
    show thesis
    proof (cases m)
      case None
      note cp = coalescer_parse_not_Panic [OF ok(2)]
      show thesis
      proof (cases "coalescer_parse_client_hello c' = Ok None \<and> record_consume_done r'")
        case True
        then show thesis using consumed [OF Ok ok(2)] ok Ok assms(2) None by (simp add: simps)
      next
        case False
        then consider e where "coalescer_parse_client_hello c' = Err e"
          | "coalescer_parse_client_hello c' = Ok None" "\<not> record_consume_done r'"
          | ch where "coalescer_parse_client_hello c' = Ok (Some ch)"
          using cp by (cases "coalescer_parse_client_hello c'") auto
        then show thesis
          by cases (rule stop, use ok Ok assms(2) None parse_sni_not_Panic parse_sni_not_io in \<open>auto simp: simps\<close>)+
      qed
    next
      case (Some msg)
      show thesis
        by (rule stop) (use ok Ok assms(2) Some handshake_parse_not_Panic parse_sni_not_Panic parse_sni_not_io in \<open>auto simp: simps rs_iff\<close>)
    qed
  qed
qed

definition loop_order :: "nat \<Rightarrow> ((nat \<times> bytes \<times> nat \<times> handshake_coalescer) \<times> (nat \<times> bytes \<times> nat \<times> handshake_coalescer)) set" where
  "loop_order lim = measures [\<lambda>(n, buf, off, c). lim - length buf, \<lambda>(n, buf, off, c). length buf - off]"

lemma wf_loop_order: "wf (loop_order lim)"
  by (simp add: loop_order_def)

lemma loop_order_read: "chunk \<noteq> [] \<Longrightarrow> length buf < lim \<Longrightarrow> ((m, buf @ chunk, off', c'), (n, buf, off, c)) \<in> loop_order lim"
  by (cases chunk) (auto simp: loop_order_def)

lemma loop_order_record: "off < off' \<Longrightarrow> off' \<le> length buf \<Longrightarrow> ((m, buf, off', c'), (n, buf, off, c)) \<in> loop_order lim"
  by (auto simp: loop_order_def)

lemma record_offset_bounds:
  assumes "record_parse (drop off buf) = Ok r"
  shows "off < off + record_encoded_len r" "off + record_encoded_len r \<le> length buf"
  using record_parse_bounds [OF assms] by auto

lemma accept_loop_ends:
  assumes "coalescer_inv c" and "off \<le> length buf"
    and "parse_request_loop np reads port lim n buf off c = (m, buf', r)"
  shows "n \<le> m \<and> m - n \<le> lim - length buf \<and> buf' = buf @ read_bytes reads n m \<and> r \<noteq> Panic \<and>
    (r = Err AcClosedByClient \<longrightarrow> n < m \<and> reads (m - 1) = RdBytes []) \<and>
    (r = Err AcClientTcpReadFailed \<longrightarrow> n < m \<and> reads (m - 1) = RdFailed)"
  using assms
proof (induction "(n, buf, off, c)" arbitrary: n buf off c rule: wf_induct_rule [OF wf_loop_order [of lim]])
  case 1
  from "1.prems"(1,2) show ?case
  proof (cases rule: turn_cases [where np = np and reads = reads and port = port and lim = lim and n = n])
    case (stop r')
    then show ?thesis using "1.prems"(3) by (auto simp: read_bytes_simps)
  next
    case (fail e)
    then show ?thesis using "1.prems"(3) by (auto simp: read_bytes_simps)
  next
    case (read chunk)
    have o: "((Suc n, buf @ chunk, off, c), (n, buf, off, c)) \<in> loop_order lim" using read by (intro loop_order_read)
    have IH: "Suc n \<le> m \<and> m - Suc n \<le> lim - length (buf @ chunk) \<and> buf' = (buf @ chunk) @ read_bytes reads (Suc n) m \<and> r \<noteq> Panic \<and>
        (r = Err AcClosedByClient \<longrightarrow> Suc n < m \<and> reads (m - 1) = RdBytes []) \<and>
        (r = Err AcClientTcpReadFailed \<longrightarrow> Suc n < m \<and> reads (m - 1) = RdFailed)"
      by (rule "1.hyps" [OF o]) (use "1.prems" read in auto)
    have "lim - length (buf @ chunk) < lim - length buf" using read by (cases chunk) auto
    then show ?thesis using IH read by (auto simp: read_bytes_simps(2))
  next
    case (consumed r1 c')
    note b = record_offset_bounds [OF consumed(1)]
    show ?thesis
      by (rule "1.hyps" [OF loop_order_record [OF b]]) (use "1.prems"(3) consumed b in auto)
  qed
qed

lemma coalescer_new_inv: "coalescer_inv (handshake_coalescer_new m)"
  by (rule coalesced_inv(1) [OF coalesced_Nil])

text \<open>
  C11: the loop that reads the ClientHello of a connection ends on any input. It makes at most as many reads as
  bytes were missing from its buffer limit, it does not panic, the buffer that is forwarded to the upstream is
  exactly what was received, and an I/O error is reported only when the last read was that error.
\<close>

theorem accept_ends:
  "\<exists>m r. parse_request np reads buf port max_hello = (m, buf @ read_bytes reads 0 m, r) \<and>
    m \<le> max_buf_size max_hello - length buf \<and> r \<noteq> Panic \<and>
    (r = Err AcClosedByClient \<longrightarrow> 0 < m \<and> reads (m - 1) = RdBytes []) \<and>
    (r = Err AcClientTcpReadFailed \<longrightarrow> 0 < m \<and> reads (m - 1) = RdFailed)"
proof -
  obtain m buf' r where p: "parse_request np reads buf port max_hello = (m, buf', r)" by (cases "parse_request np reads buf port max_hello")
  from accept_loop_ends [OF coalescer_new_inv _ p [unfolded parse_request_def]] show ?thesis using p by auto
qed

section \<open>The server name of a fragmented ClientHello\<close>

text \<open>The handshake message with a ClientHello, and its bytes cut into the fragments of records.\<close>

definition hello_message :: "bytes \<Rightarrow> bytes" where
  "hello_message payload = 1 # be_bytes 3 (length payload) @ payload"

definition hello_records :: "raw_version \<Rightarrow> bytes list \<Rightarrow> bytes" where
  "hello_records v fragments = concat (map (record_bytes 22 v) fragments)"

lemma hello_message_header:
  assumes "length payload < 2 ^ 24" and "hello_message payload = t @ u"
  shows "handshake_header_try_parse t =
    (if length t < 4 then None else Some \<lparr>hh_msg_type = 1, hh_msg_length = length payload\<rparr>)"
proof (cases "length t < 4")
  case False
  obtain a b c where abc: "be_bytes 3 (length payload) = [a, b, c]"
    using length_be_bytes [of 3 "length payload"] by (auto simp: length_Suc_conv numeral_3_eq_3)
  then have "be_nat [0, a, b, c] = length payload"
    using be_nat_be_bytes [of 3 "length payload"] assms(1) by simp
  moreover have "1 # a # b # c # payload = t @ u" using assms(2) by (simp add: hello_message_def abc)
  then obtain t' where "t = 1 # a # b # c # t'"
    using False by (auto simp: Cons_eq_append_conv)
  ultimately show ?thesis using False by (simp add: handshake_header_try_parse_def)
qed (simp add: handshake_header_None_iff)

lemma length_hello_message: "length (hello_message payload) = 4 + length payload"
  by (simp add: hello_message_def)

lemma hello_prefix_coalesced:
  assumes "length payload < 2 ^ 24" and "hello_message payload = t @ u" and "length payload \<le> max_size"
  shows "coalesced max_size t = Ok \<lparr>hc_max_message_size = max_size, hc_header = handshake_header_try_parse t, hc_buf = t\<rparr>"
proof -
  have "length t \<le> 4 + length payload" using arg_cong [OF assms(2), of length] by (simp add: length_hello_message)
  then show ?thesis
    using assms(3) hello_message_header [OF assms(1,2)]
    by (simp add: coalesced_def handshake_header_encoded_len_def)
qed

lemma hello_message_parse:
  assumes "length payload < 2 ^ 24"
  shows "handshake_try_parse_fragment (hello_message payload) =
      Some \<lparr>hm_header = \<lparr>hh_msg_type = 1, hh_msg_length = length payload\<rparr>, hm_msg_data = hello_message payload\<rparr>"
    and "handshake_parse_client_hello
      \<lparr>hm_header = \<lparr>hh_msg_type = 1, hh_msg_length = length payload\<rparr>, hm_msg_data = hello_message payload\<rparr> =
      client_hello_parse_msg_data payload"
proof -
  have "drop 4 (hello_message payload) = payload"
    using length_be_bytes [of 3 "length payload"] by (simp add: hello_message_def)
  then show "handshake_parse_client_hello
      \<lparr>hm_header = \<lparr>hh_msg_type = 1, hh_msg_length = length payload\<rparr>, hm_msg_data = hello_message payload\<rparr> =
      client_hello_parse_msg_data payload"
    by (simp add: handshake_parse_client_hello_def client_hello_parse_fragment_def handshake_header_encoded_len_def
        length_hello_message)
  show "handshake_try_parse_fragment (hello_message payload) =
      Some \<lparr>hm_header = \<lparr>hh_msg_type = 1, hh_msg_length = length payload\<rparr>, hm_msg_data = hello_message payload\<rparr>"
    using hello_message_header [OF assms, of "hello_message payload" "[]"]
    by (simp add: handshake_try_parse_fragment_def handshake_header_encoded_len_def length_hello_message)
qed

lemma hello_partial_fragment:
  assumes "length payload < 2 ^ 24" and "hello_message payload = t @ u" and "u \<noteq> []"
  shows "handshake_try_parse_fragment t = None"
proof -
  have "length t < 4 + length payload"
    using arg_cong [OF assms(2), of length] assms(3) by (cases u) (simp_all add: length_hello_message)
  then show ?thesis
    using hello_message_header [OF assms(1,2)]
    by (simp add: handshake_try_parse_fragment_def handshake_header_encoded_len_def)
qed

lemma short_record:
  assumes "record_bytes 22 v g = p @ q" and "q \<noteq> []" and "supported_version (rv_major v) (rv_minor v)"
    and "g \<noteq> []" and "length g \<le> 2 ^ 14"
  shows "\<exists>k. record_parse p = Err (RecNeedMoreData k)"
proof (cases "length p < 5")
  case False
  let ?n = "length g"
  have n: "be_nat [of_nat (?n div 256), of_nat ?n] = ?n"
    using be_nat_be_bytes [of 2 ?n] assms(5) by (simp add: be_bytes_pair)
  have "22 # rv_major v # rv_minor v # of_nat (?n div 256) # of_nat ?n # g = p @ q"
    using assms(1) by (simp add: record_bytes_def be_bytes_pair)
  then obtain u where p: "p = 22 # rv_major v # rv_minor v # of_nat (?n div 256) # of_nat ?n # u" and "g = u @ q"
    using False by (auto simp: Cons_eq_append_conv)
  then have "length u < ?n" using assms(2) by simp
  then show ?thesis
    using assms(3,4,5) unfolding record_parse_def record_header_parse_eq [OF p] n
    by (simp add: p content_type_try_from_def)
qed (simp add: record_parse_def)

text \<open>One record of the sequence: the last one gives the server name, any other is absorbed.\<close>

definition handshake_record :: "raw_version \<Rightarrow> bytes \<Rightarrow> tls_record" where
  "handshake_record v g = \<lparr>rec_header = \<lparr>rh_version = v, rh_content_type = CtHandshake, rh_fragment_size = length g\<rparr>,
     rec_fragment = g, rec_consume_offset = 0\<rparr>"

lemma record_parse_bytes:
  assumes "supported_version (rv_major v) (rv_minor v)" and "g \<noteq> []" and "length g \<le> 2 ^ 14"
  shows "record_parse (record_bytes 22 v g @ rest) = Ok (handshake_record v g)"
  using assms unfolding record_parse_Ok_iff
  by (intro exI [of _ 22] exI [of _ rest]) (simp add: handshake_record_def content_type_try_from_def)

lemma absorb_fragment:
  assumes "coalesced max_size s = Ok c" and "coalesced max_size (s @ g) = Ok c'" and "g \<noteq> []"
    and "hc_buf c = s" and "hc_buf c' = s @ g" and "s \<noteq> [] \<or> handshake_try_parse_fragment g = None"
  shows "\<exists>r'. consume_handshake (handshake_record v g) c = (r', c', Ok None) \<and> record_consume_done r'"
proof -
  have "coalesce_fragment c g = (c', Ok (length g))"
    using coalesce_step [OF assms(1), of g] assms(2,4,5) by auto
  then show ?thesis
    using assms(3,4,6)
    by (auto simp: consume_handshake_def handshake_record_def record_consume_done_def handshake_coalescer_is_empty_def)
qed

lemma hello_turn:
  assumes len: "length payload < 2 ^ 24" "length payload \<le> max_size" and msg: "hello_message payload = s @ g @ u"
    and ch: "client_hello_parse_msg_data payload = Ok ch" and g: "g \<noteq> []" "length g \<le> 2 ^ 14"
    and v: "supported_version (rv_major v) (rv_minor v)"
    and c: "c = \<lparr>hc_max_message_size = max_size, hc_header = handshake_header_try_parse s, hc_buf = s\<rparr>"
    and buf: "off \<le> length buf" "drop off buf = record_bytes 22 v g @ rest"
  shows "snd (snd (parse_request_loop np reads port lim n buf off c)) =
    (if u = [] then parse_sni np ch port
     else snd (snd (parse_request_loop np reads port lim n buf (off + length (record_bytes 22 v g))
       \<lparr>hc_max_message_size = max_size, hc_header = handshake_header_try_parse (s @ g), hc_buf = s @ g\<rparr>)))"
proof -
  note simps = parse_request_loop.simps [of np reads port lim n buf off c]
  have rp: "record_parse (drop off buf) = Ok (handshake_record v g)" using buf(2) record_parse_bytes [OF v g] by simp
  have enc: "record_encoded_len (handshake_record v g) = length (record_bytes 22 v g)"
    by (simp add: record_encoded_len_def handshake_record_def length_record_bytes)
  show ?thesis
  proof (cases "s = [] \<and> u = []")
    case True
    then have "g = hello_message payload" using msg by simp
    moreover have "handshake_coalescer_is_empty c" using True c by (simp add: handshake_coalescer_is_empty_def)
    ultimately have "\<exists>r'. consume_handshake (handshake_record v g) c =
        (r', c, Ok (Some \<lparr>hm_header = \<lparr>hh_msg_type = 1, hh_msg_length = length payload\<rparr>, hm_msg_data = hello_message payload\<rparr>))"
      using g hello_message_parse(1) [OF len(1)]
      by (simp add: consume_handshake_def handshake_record_def record_consume_done_def Let_def)
    then show ?thesis using True buf(1) rp hello_message_parse(2) [OF len(1)] ch by (auto simp: simps)
  next
    case False
    let ?c' = "\<lparr>hc_max_message_size = max_size, hc_header = handshake_header_try_parse (s @ g), hc_buf = s @ g\<rparr>"
    have c1: "coalesced max_size s = Ok c" unfolding c by (rule hello_prefix_coalesced [OF len(1) msg len(2)])
    have c2: "coalesced max_size (s @ g) = Ok ?c'"
      by (rule hello_prefix_coalesced [OF len(1) _ len(2), of _ u]) (simp add: msg)
    have "s \<noteq> [] \<or> handshake_try_parse_fragment g = None"
      using False hello_partial_fragment [OF len(1), of g u] msg by auto
    then obtain r' where r': "consume_handshake (handshake_record v g) c = (r', ?c', Ok None)" "record_consume_done r'"
      using absorb_fragment [OF c1 c2 g(1)] c by auto
    have cp: "coalescer_parse_client_hello ?c' = (if u = [] then Ok (Some ch) else Ok None)"
    proof (cases "u = []")
      case True
      then have "s @ g = hello_message payload" using msg by simp
      then show ?thesis
        using parse_whole_eq_coalesced [OF hello_message_parse(1) [OF len(1)] _ c2 [unfolded \<open>s @ g = _\<close>]] len True ch
          hello_message_parse(2) [OF len(1)] by simp
    next
      case False
      then have "length (s @ g) < 4 + length payload"
        using arg_cong [OF msg, of length] by (cases u) (simp_all add: length_hello_message)
      then show ?thesis
        using False hello_message_header [OF len(1), of "s @ g" u] msg
        by (simp add: coalescer_parse_client_hello_def handshake_header_encoded_len_def)
    qed
    show ?thesis using buf(1) rp r' cp enc by (simp add: simps)
  qed
qed

text \<open>Chunks of bytes that the reads from number \<open>n\<close> on deliver.\<close>

fun delivers :: "(nat \<Rightarrow> read_result) \<Rightarrow> nat \<Rightarrow> bytes list \<Rightarrow> bool" where
  "delivers reads n [] \<longleftrightarrow> True"
| "delivers reads n (chunk # chunks) \<longleftrightarrow> reads n = RdBytes chunk \<and> chunk \<noteq> [] \<and> delivers reads (Suc n) chunks"

lemma accept_loop_hello:
  assumes len: "length payload < 2 ^ 24" "length payload \<le> max_size" and ch: "client_hello_parse_msg_data payload = Ok ch"
    and v: "supported_version (rv_major v) (rv_minor v)"
    and fs: "hello_message payload = concat (ds @ gs)" "gs \<noteq> []" "list_all (\<lambda>f. f \<noteq> [] \<and> length f \<le> 2 ^ 14) gs"
    and lim: "length (hello_records v (ds @ gs)) \<le> lim"
    and buf: "off = length (hello_records v ds)" "off \<le> length buf"
      "buf @ concat chunks = hello_records v (ds @ gs) @ more_bytes" "delivers reads n chunks"
    and c: "c = \<lparr>hc_max_message_size = max_size, hc_header = handshake_header_try_parse (concat ds), hc_buf = concat ds\<rparr>"
  shows "snd (snd (parse_request_loop np reads port lim n buf off c)) = parse_sni np ch port"
  using fs lim buf c
proof (induction "(n, buf, off, c)" arbitrary: n buf off c ds gs chunks rule: wf_induct_rule [OF wf_loop_order [of lim]])
  case 1
  note prems = "1.prems"
  obtain g gs' where gs: "gs = g # gs'" using prems(2) by (cases gs) auto
  have g: "g \<noteq> []" "length g \<le> 2 ^ 14" using prems(3) gs by simp_all
  define rest where "rest = drop off buf"
  have tail: "rest @ concat chunks = record_bytes 22 v g @ hello_records v gs' @ more_bytes"
  proof -
    have "drop off (buf @ concat chunks) = drop off (hello_records v (ds @ gs) @ more_bytes)" using prems(7) by simp
    then show ?thesis using prems(5,6) by (simp add: rest_def hello_records_def gs)
  qed
  show ?case
  proof (cases "length (record_bytes 22 v g) \<le> length rest")
    case True
    then have rest: "drop off buf = record_bytes 22 v g @ drop (length (record_bytes 22 v g)) rest"
      using tail unfolding rest_def [symmetric] by (metis append_eq_append_conv_if append_take_drop_id)
    have turn: "snd (snd (parse_request_loop np reads port lim n buf off c)) =
        (if concat gs' = [] then parse_sni np ch port
         else snd (snd (parse_request_loop np reads port lim n buf (off + length (record_bytes 22 v g))
           \<lparr>hc_max_message_size = max_size, hc_header = handshake_header_try_parse (concat ds @ g), hc_buf = concat ds @ g\<rparr>)))"
      by (rule hello_turn [OF len _ ch g v prems(9,6) rest]) (use prems(1) gs in simp)
    show ?thesis
    proof (cases "gs' = []")
      case False
      then have "concat gs' \<noteq> []" using prems(3) gs by (cases gs') auto
      have le: "off + length (record_bytes 22 v g) \<le> length buf" using True prems(6) by (simp add: rest_def)
      have "off < off + length (record_bytes 22 v g)" by (simp add: length_record_bytes)
      then have o: "((n, buf, off + length (record_bytes 22 v g), \<lparr>hc_max_message_size = max_size,
          hc_header = handshake_header_try_parse (concat ds @ g), hc_buf = concat ds @ g\<rparr>), (n, buf, off, c)) \<in> loop_order lim"
        using le by (rule loop_order_record)
      have "snd (snd (parse_request_loop np reads port lim n buf (off + length (record_bytes 22 v g))
          \<lparr>hc_max_message_size = max_size, hc_header = handshake_header_try_parse (concat ds @ g), hc_buf = concat ds @ g\<rparr>)) =
          parse_sni np ch port"
        by (rule "1.hyps" [OF o, of "ds @ [g]" gs' chunks])
          (use prems gs False le in \<open>auto simp: hello_records_def\<close>)
      then show ?thesis using turn by simp
    qed (use turn in simp)
  next
    case False
    obtain q where q: "record_bytes 22 v g = rest @ q" "q \<noteq> []"
    proof -
      have "take (length rest) (record_bytes 22 v g) = rest" using arg_cong [OF tail, of "take (length rest)"] False by simp
      then have "record_bytes 22 v g = rest @ drop (length rest) (record_bytes 22 v g)" by (metis append_take_drop_id)
      then show ?thesis by (rule that) (use False in simp)
    qed
    obtain k where k: "record_parse rest = Err (RecNeedMoreData k)" using short_record [OF q v g] by blast
    have "length buf < length (hello_records v (ds @ gs))"
      using False prems(5,6) by (simp add: rest_def hello_records_def gs)
    then have below: "length buf < lim" using prems(4) by simp
    obtain chunk chunks' where chunks: "chunks = chunk # chunks'"
      using tail q by (cases chunks) auto
    then have r: "reads n = RdBytes chunk" "chunk \<noteq> []" "delivers reads (Suc n) chunks'" using prems(8) by simp_all
    have o: "((Suc n, buf @ chunk, off, c), (n, buf, off, c)) \<in> loop_order lim" by (rule loop_order_read [OF r(2) below])
    have "snd (snd (parse_request_loop np reads port lim (Suc n) (buf @ chunk) off c)) = parse_sni np ch port"
      by (rule "1.hyps" [OF o, of ds gs chunks']) (use prems r chunks in auto)
    then show ?thesis
      using prems(6) k below r unfolding rest_def by (simp add: parse_request_loop.simps [of np reads port lim n buf off c])
  qed
qed

lemma max_buf_size_eq: "max_hello < 2 ^ 32 \<Longrightarrow> max_buf_size max_hello = max_hello * 6 + 2 ^ 14"
  by (simp add: max_buf_size_def saturate_def)

lemma hello_records_length:
  assumes "list_all (\<lambda>f. f \<noteq> [] \<and> length f \<le> 2 ^ 14) fs"
  shows "length (hello_records v fs) \<le> 6 * length (concat fs)"
  using assms by (induction fs) (auto simp: hello_records_def length_record_bytes neq_Nil_conv)

text \<open>
  C2: the SNI proxy finds the server name of every well-formed ClientHello within the size limit, however the
  message is cut into records and however the records are cut into reads, down to one byte each: the limit on the
  raw buffer never refuses such a message. What the proxy answers is decided by the extensions of the ClientHello
  alone, and bytes behind the message do not matter.
\<close>

theorem accept_server_name:
  assumes "client_hello_parse_msg_data payload = Ok ch" and "length payload < 2 ^ 24"
    and "length payload \<le> max_hello" and "max_hello < 2 ^ 32"
    and "concat fragments = hello_message payload" and "list_all (\<lambda>f. f \<noteq> [] \<and> length f \<le> 2 ^ 14) fragments"
    and "supported_version (rv_major v) (rv_minor v)"
    and "received @ concat chunks = hello_records v fragments @ behind" and "delivers reads 0 chunks"
  shows "snd (snd (parse_request np reads received port max_hello)) = parse_sni np ch port"
  unfolding parse_request_def
proof (rule accept_loop_hello [OF assms(2,3,1,7), of "[]" fragments])
  show "fragments \<noteq> []" using assms(5) by (auto simp: hello_message_def)
  show "length (hello_records v ([] @ fragments)) \<le> max_buf_size max_hello"
    using hello_records_length [OF assms(6), of v] assms(3,4,5) by (simp add: max_buf_size_eq length_hello_message)
qed (use assms in \<open>simp_all add: hello_records_def handshake_coalescer_new_def handshake_header_try_parse_def\<close>)

definition example_hello :: bytes where
  "example_hello = [3, 3] @ replicate 32 7 @ [0] @ [0, 2, 0x13, 0x01] @ [1, 0] @ [0, 20, 0, 0, 0, 16, 0, 14, 0, 0, 11] @ ascii ''example.net''"

definition example_client_hello :: client_hello where
  "example_client_hello = \<lparr>ch_legacy_version = \<lparr>rv_major = 3, rv_minor = 3\<rparr>, ch_cipher_suites = [0x13, 0x01],
     ch_compression_methods = Some [0], ch_extensions = Some ([0, 0, 0, 16, 0, 14, 0, 0, 11] @ ascii ''example.net'')\<rparr>"

lemma example_hello_parse: "client_hello_parse_msg_data example_hello = Ok example_client_hello"
  by code_simp

definition example_np :: net_parsers where
  "example_np = \<lparr>np_idna = Some, np_ipv4 = \<lambda>_. None, np_ipv6 = \<lambda>_. None, np_utf8 = \<lambda>_. True\<rparr>"

lemma example_sni: "parse_sni example_np example_client_hello 443 = Ok (HostDomain (DomainName (ascii ''example.net.'')), 443)"
  by code_simp

text \<open>The message in records of one byte each.\<close>

definition example_stream :: bytes where
  "example_stream = hello_records \<lparr>rv_major = 3, rv_minor = 1\<rparr> (map (\<lambda>b. [b]) (hello_message example_hello))"

theorem accept_server_name_witness:
  "snd (snd (parse_request example_np (\<lambda>n. RdBytes example_stream) [] 443 1000)) =
    Ok (HostDomain (DomainName (ascii ''example.net.'')), 443)"
proof -
  have "snd (snd (parse_request example_np (\<lambda>n. RdBytes example_stream) [] 443 1000)) = parse_sni example_np example_client_hello 443"
  proof (rule accept_server_name [OF example_hello_parse, of _ "map (\<lambda>b. [b]) (hello_message example_hello)"
        "\<lparr>rv_major = 3, rv_minor = 1\<rparr>" _ "[example_stream]" "[]"])
    show "concat (map (\<lambda>b. [b]) (hello_message example_hello)) = hello_message example_hello" by simp
    show "delivers (\<lambda>n. RdBytes example_stream) 0 [example_stream]"
      by (simp add: example_stream_def hello_records_def hello_message_def record_bytes_def)
  qed (simp_all add: example_hello_def example_stream_def supported_version_def list_all_iff)
  then show ?thesis unfolding example_sni .
qed

theorem accept_ends_witness:
  "\<exists>m r. parse_request example_np (\<lambda>n. RdBytes [0x16]) [] 443 16384 = (m, read_bytes (\<lambda>n. RdBytes [0x16]) 0 m, r) \<and>
    m \<le> 114688 \<and> r \<noteq> Panic"
  using accept_ends [of example_np "\<lambda>n. RdBytes [0x16]" "[]" 443 16384] by (auto simp: max_buf_size_def saturate_def)

end
