(* ===== verification/Smtp_Text.thy ===== *)
theory Smtp_Text
  imports Vey_Prelude
begin

text \<open>
  The text data of SMTP (\<open>lib/vey-smtp-proto/src/io/\<close>), which ends with a line that holds a single dot: the
  reader that looks for the end (\<open>text_reader.rs\<close>).
\<close>

section \<open>The end of the text\<close>

record end_checker =
  ec_check_empty :: bool
  ec_check_r_n :: bool
  ec_check_n :: bool
  ec_found :: bool

definition end_checker_default :: end_checker where
  "end_checker_default = \<lparr>ec_check_empty = True, ec_check_r_n = False, ec_check_n = False, ec_found = False\<rparr>"

text \<open>
  The match on the bytes left, for one, two and more of them: \<open>Some n\<close> is the return of \<open>offset + n\<close>, \<open>None\<close> goes
  on behind the match.
\<close>

definition check_left :: "end_checker \<Rightarrow> bytes \<Rightarrow> end_checker \<times> nat option" where
  "check_left c left =
     (if ec_check_n c then
        let c = c\<lparr>ec_check_n := False\<rparr> in
        if left ! 0 = 0x0A then (c\<lparr>ec_found := True\<rparr>, Some 1) else (c, None)
      else if ec_check_r_n c then
        let c = c\<lparr>ec_check_r_n := False\<rparr> in
        if length left = 1 then
          if left ! 0 = 0x0D then (c\<lparr>ec_check_n := True\<rparr>, Some 1) else (c, None)
        else if starts_with left [0x0D, 0x0A] then (c\<lparr>ec_found := True\<rparr>, Some 2)
        else (c, None)
      else if ec_check_empty c then
        let c = c\<lparr>ec_check_empty := False\<rparr> in
        if length left = 1 then
          if left ! 0 = 0x2E then (c\<lparr>ec_check_r_n := True\<rparr>, Some 1) else (c, None)
        else if length left = 2 then
          if left = [0x2E, 0x0D] then (c\<lparr>ec_check_n := True\<rparr>, Some 2) else (c, None)
        else if starts_with left [0x2E, 0x0D, 0x0A] then (c\<lparr>ec_found := True\<rparr>, Some 3)
        else (c, None)
      else (c, None))"

function end_checker_check :: "end_checker \<Rightarrow> bytes \<Rightarrow> nat \<Rightarrow> end_checker \<times> nat" where
  "end_checker_check c data offset =
     (let left = drop offset data in
      if left = [] then (c, offset)
      else case check_left c left of
        (c, Some n) \<Rightarrow> (c, offset + n)
      | (c, None) \<Rightarrow>
          (case memchr 0x0A left of
             Some p \<Rightarrow> end_checker_check (c\<lparr>ec_check_empty := True\<rparr>) data (offset + (p + 1))
           | None \<Rightarrow> (c, offset + length left)))"
  by pat_completeness auto
termination
  by (relation "measure (\<lambda>(c, data, offset). length data - offset)") auto

declare end_checker_check.simps [simp del]

text \<open>\<open>TextDataReader::poll_read\<close> on the bytes that the inner reader returns: the bytes handed to the caller.\<close>

definition text_data_reader_poll_read :: "end_checker \<Rightarrow> bytes \<Rightarrow> end_checker \<times> bytes" where
  "text_data_reader_poll_read c read =
     (if ec_found c then (c, [])
      else if read = [] then (c, [])
      else case end_checker_check c read 0 of (c, nr) \<Rightarrow> (c, take nr read))"

fun text_data_read_all :: "end_checker \<Rightarrow> bytes list \<Rightarrow> end_checker \<times> bytes" where
  "text_data_read_all c [] = (c, [])"
| "text_data_read_all c (read # reads) =
     (case text_data_reader_poll_read c read of (c, out) \<Rightarrow>
        case text_data_read_all c reads of (c, out') \<Rightarrow> (c, out @ out'))"

text \<open>
  The reference: the text ends behind the first line break that is behind a line with a single dot.
\<close>

definition line_start :: "bytes \<Rightarrow> bool" where
  "line_start xs \<longleftrightarrow> xs = [] \<or> last xs = 0x0A"

definition ends_text :: "bytes \<Rightarrow> bool" where
  "ends_text xs \<longleftrightarrow>
     drop (length xs - 3) xs = [0x2E, 0x0D, 0x0A] \<and> line_start (take (length xs - 3) xs)"

definition text_end :: "bytes \<Rightarrow> nat option" where
  "text_end d = find (\<lambda>n. ends_text (take n d)) [0..<Suc (length d)]"

text \<open>The checker byte by byte, as an automaton over what the bytes since the last line break are.\<close>

datatype phase = LineStart | Dot | DotCr | Inside | Ended

fun next_phase :: "phase \<Rightarrow> u8 \<Rightarrow> phase" where
  "next_phase LineStart b = (if b = 0x2E then Dot else if b = 0x0A then LineStart else Inside)"
| "next_phase Dot b = (if b = 0x0D then DotCr else if b = 0x0A then LineStart else Inside)"
| "next_phase DotCr b = (if b = 0x0A then Ended else Inside)"
| "next_phase Inside b = (if b = 0x0A then LineStart else Inside)"
| "next_phase Ended b = Ended"

fun run_phase :: "phase \<Rightarrow> bytes \<Rightarrow> phase \<times> nat" where
  "run_phase q [] = (q, 0)"
| "run_phase q (b # bs) = (if q = Ended then (q, 0) else map_prod id Suc (run_phase (next_phase q b) bs))"

definition phase_of :: "end_checker \<Rightarrow> phase" where
  "phase_of c =
     (if ec_found c then Ended else if ec_check_n c then DotCr else if ec_check_r_n c then Dot
      else if ec_check_empty c then LineStart else Inside)"

text \<open>At most one of the flags is set.\<close>

definition end_checker_wf :: "end_checker \<Rightarrow> bool" where
  "end_checker_wf c \<longleftrightarrow> \<not> (ec_check_empty c \<and> ec_check_r_n c) \<and> \<not> (ec_check_empty c \<and> ec_check_n c) \<and>
     \<not> (ec_check_r_n c \<and> ec_check_n c)"

lemma run_phase_Ended [simp]: "run_phase Ended bs = (Ended, 0)"
  by (cases bs) auto

lemma run_phase_bound: "snd (run_phase q bs) \<le> length bs"
  by (induction bs arbitrary: q) auto

lemma run_phase_append:
  "run_phase q (xs @ ys) =
     (case run_phase q xs of (q', n) \<Rightarrow> if q' = Ended then (q', n) else map_prod id ((+) n) (run_phase q' ys))"
proof (induction xs arbitrary: q)
  case (Cons x xs)
  then show ?case by (auto split: prod.splits simp: map_prod_def)
qed (auto simp: map_prod_def split: prod.split)

lemma run_phase_all: "fst (run_phase q xs) \<noteq> Ended \<Longrightarrow> snd (run_phase q xs) = length xs"
  by (induction xs arbitrary: q) (auto split: if_splits)

lemma run_Inside: "0x0A \<notin> set xs \<Longrightarrow> run_phase Inside xs = (Inside, length xs)"
  by (induction xs) auto

lemma run_Inside_line:
  assumes "memchr 0x0A xs = Some p"
  shows "run_phase Inside xs = map_prod id ((+) (p + 1)) (run_phase LineStart (drop (p + 1) xs))"
proof -
  have p: "p < length xs" "xs ! p = 0x0A" "0x0A \<notin> set (take p xs)" using memchr_Some [OF assms] by auto
  then have "xs = take p xs @ 0x0A # drop (p + 1) xs" using id_take_nth_drop [OF p(1)] by simp
  moreover have "run_phase Inside (take p xs @ 0x0A # drop (p + 1) xs) =
      map_prod id ((+) (p + 1)) (run_phase LineStart (drop (p + 1) xs))"
    using run_Inside [OF p(3)] p(1) by (auto simp: run_phase_append map_prod_def split: prod.split)
  ultimately show ?thesis by metis
qed

text \<open>The match for each flag.\<close>

lemma check_left_cases:
  "ec_check_n c \<Longrightarrow> check_left c (a # l) =
     (let c = c\<lparr>ec_check_n := False\<rparr> in if a = 0x0A then (c\<lparr>ec_found := True\<rparr>, Some 1) else (c, None))"
  "\<not> ec_check_n c \<Longrightarrow> ec_check_r_n c \<Longrightarrow> check_left c (a # l) =
     (let c = c\<lparr>ec_check_r_n := False\<rparr> in
      if a = 0x0D \<and> l = [] then (c\<lparr>ec_check_n := True\<rparr>, Some 1)
      else if a = 0x0D \<and> hd l = 0x0A then (c\<lparr>ec_found := True\<rparr>, Some 2) else (c, None))"
  "\<not> ec_check_n c \<Longrightarrow> \<not> ec_check_r_n c \<Longrightarrow> ec_check_empty c \<Longrightarrow> check_left c (a # l) =
     (let c = c\<lparr>ec_check_empty := False\<rparr> in
      if a = 0x2E \<and> l = [] then (c\<lparr>ec_check_r_n := True\<rparr>, Some 1)
      else if a = 0x2E \<and> l = [0x0D] then (c\<lparr>ec_check_n := True\<rparr>, Some 2)
      else if a = 0x2E \<and> starts_with l [0x0D, 0x0A] then (c\<lparr>ec_found := True\<rparr>, Some 3) else (c, None))"
  "\<not> ec_check_n c \<Longrightarrow> \<not> ec_check_r_n c \<Longrightarrow> \<not> ec_check_empty c \<Longrightarrow> check_left c left = (c, None)"
proof -
  show "\<not> ec_check_n c \<Longrightarrow> ec_check_r_n c \<Longrightarrow> check_left c (a # l) =
     (let c = c\<lparr>ec_check_r_n := False\<rparr> in
      if a = 0x0D \<and> l = [] then (c\<lparr>ec_check_n := True\<rparr>, Some 1)
      else if a = 0x0D \<and> hd l = 0x0A then (c\<lparr>ec_found := True\<rparr>, Some 2) else (c, None))"
    by (cases l) (simp_all add: check_left_def Let_def)
  show "\<not> ec_check_n c \<Longrightarrow> \<not> ec_check_r_n c \<Longrightarrow> ec_check_empty c \<Longrightarrow> check_left c (a # l) =
     (let c = c\<lparr>ec_check_empty := False\<rparr> in
      if a = 0x2E \<and> l = [] then (c\<lparr>ec_check_r_n := True\<rparr>, Some 1)
      else if a = 0x2E \<and> l = [0x0D] then (c\<lparr>ec_check_n := True\<rparr>, Some 2)
      else if a = 0x2E \<and> starts_with l [0x0D, 0x0A] then (c\<lparr>ec_found := True\<rparr>, Some 3) else (c, None))"
    by (cases l; cases "tl l") (auto simp: check_left_def Let_def)
qed (simp_all add: check_left_def Let_def)

lemma check_left_Some:
  assumes "check_left c left = (c', Some n)" "end_checker_wf c" "\<not> ec_found c" "left \<noteq> []"
  shows "end_checker_wf c' \<and> run_phase (phase_of c) left = (phase_of c', n)"
proof -
  obtain a l where l: "left = a # l" using assms(4) by (cases left) auto
  note d = l Let_def phase_of_def end_checker_wf_def check_left_cases
  consider "ec_check_n c" | "\<not> ec_check_n c" "ec_check_r_n c" | "\<not> ec_check_n c" "\<not> ec_check_r_n c" "ec_check_empty c"
    | "\<not> ec_check_n c" "\<not> ec_check_r_n c" "\<not> ec_check_empty c" by blast
  then show ?thesis
  proof cases
    case 1
    then show ?thesis using assms by (auto simp: d split: if_splits)
  next
    case 2
    then show ?thesis using assms by (cases l) (auto simp: d split: if_splits)
  next
    case 3
    then show ?thesis using assms by (cases l; cases "tl l") (auto simp: d split: if_splits)
  next
    case 4
    then show ?thesis using assms by (simp add: check_left_cases)
  qed
qed

lemma check_left_None:
  assumes "check_left c left = (c', None)" "end_checker_wf c" "\<not> ec_found c" "left \<noteq> []"
  shows "end_checker_wf c' \<and> \<not> ec_found c' \<and> phase_of c' = Inside \<and> run_phase (phase_of c) left = run_phase Inside left"
proof -
  obtain a l where l: "left = a # l" using assms(4) by (cases left) auto
  note d = l Let_def phase_of_def end_checker_wf_def check_left_cases
  consider "ec_check_n c" | "\<not> ec_check_n c" "ec_check_r_n c" | "\<not> ec_check_n c" "\<not> ec_check_r_n c" "ec_check_empty c"
    | "\<not> ec_check_n c" "\<not> ec_check_r_n c" "\<not> ec_check_empty c" by blast
  then show ?thesis
  proof cases
    case 1
    then show ?thesis using assms by (auto simp: d split: if_splits)
  next
    case 2
    then show ?thesis using assms by (cases l) (auto simp: d split: if_splits)
  next
    case 3
    then show ?thesis using assms by (cases l; cases "tl l") (auto simp: d split: if_splits)
  next
    case 4
    then show ?thesis using assms by (auto simp: d)
  qed
qed

lemma check_runs:
  assumes "end_checker_wf c" "\<not> ec_found c" "offset \<le> length data"
  shows "\<exists>c' n. end_checker_check c data offset = (c', offset + n) \<and> end_checker_wf c' \<and>
    run_phase (phase_of c) (drop offset data) = (phase_of c', n)"
  using assms
proof (induction c data offset rule: end_checker_check.induct)
  case (1 c data offset)
  let ?l = "drop offset data"
  show ?case
  proof (cases "?l = []")
    case True
    then show ?thesis using 1(2) by (simp add: end_checker_check.simps)
  next
    case False
    obtain c1 r where cl: "check_left c ?l = (c1, r)" by (cases "check_left c ?l")
    show ?thesis
    proof (cases r)
      case (Some n)
      then show ?thesis using cl check_left_Some [OF _ 1(2,3) False] False
        by (subst end_checker_check.simps) (simp add: Let_def)
    next
      case None
      note c1 = check_left_None [OF cl [unfolded None] 1(2,3) False]
      show ?thesis
      proof (cases "memchr 0x0A ?l")
        case None': None
        then have "run_phase Inside ?l = (Inside, length ?l)" using run_Inside memchr_None_iff by blast
        then show ?thesis using None None' cl c1 False by (subst end_checker_check.simps) (simp add: Let_def)
      next
        case (Some p)
        let ?c = "c1\<lparr>ec_check_empty := True\<rparr>"
        have wf: "end_checker_wf ?c" "\<not> ec_found ?c" "phase_of ?c = LineStart" "offset + (p + 1) \<le> length data"
          using c1 memchr_Some [OF Some] by (auto simp: end_checker_wf_def phase_of_def split: if_splits)
        obtain c' n where "end_checker_check ?c data (offset + (p + 1)) = (c', offset + (p + 1) + n)"
          "end_checker_wf c'" "run_phase LineStart (drop (offset + (p + 1)) data) = (phase_of c', n)"
          using 1(1) [OF refl False cl [symmetric] None Some wf(1,2,4)] wf(3) by auto
        then show ?thesis using None cl c1 False Some run_Inside_line [OF Some]
          by (subst end_checker_check.simps) (simp add: Let_def add.commute)
      qed
    qed
  qed
qed


lemma ends_text_iff: "ends_text xs \<longleftrightarrow> (\<exists>ys. xs = ys @ [0x2E, 0x0D, 0x0A] \<and> line_start ys)"
proof
  assume "ends_text xs"
  then show "\<exists>ys. xs = ys @ [0x2E, 0x0D, 0x0A] \<and> line_start ys"
    using append_take_drop_id [of "length xs - 3" xs] by (metis ends_text_def)
qed (auto simp: ends_text_def)

lemma run_phase_snoc:
  "fst (run_phase q (xs @ [b])) = next_phase (fst (run_phase q xs)) b"
  by (cases "run_phase q xs") (auto simp: run_phase_append)

text \<open>What the automaton remembers of the bytes that it has seen, as long as the text has not ended.\<close>

lemma run_LineStart:
  assumes "\<And>n. n < length xs \<Longrightarrow> \<not> ends_text (take n xs)"
  shows "fst (run_phase LineStart xs) =
    (if ends_text xs then Ended
     else if line_start xs then LineStart
     else if \<exists>ys. xs = ys @ [0x2E] \<and> line_start ys then Dot
     else if \<exists>ys. xs = ys @ [0x2E, 0x0D] \<and> line_start ys then DotCr else Inside)"
  using assms
proof (induction xs rule: rev_induct)
  case Nil
  then show ?case by (simp add: ends_text_iff line_start_def)
next
  case (snoc b xs)
  have split3: "xs @ [b] = ys @ [x, y, z] \<longleftrightarrow> xs = ys @ [x, y] \<and> b = z"
    and split2: "xs @ [b] = ys @ [x, y] \<longleftrightarrow> xs = ys @ [x] \<and> b = y" for ys x y z
    using append1_eq_conv [of xs b "ys @ [x, y]" z] append1_eq_conv [of xs b "ys @ [x]" y] by auto
  define D R where "D \<longleftrightarrow> (\<exists>ys. xs = ys @ [0x2E] \<and> line_start ys)"
    and "R \<longleftrightarrow> (\<exists>ys. xs = ys @ [0x2E, 0x0D] \<and> line_start ys)"
  have "\<not> ends_text (take n xs)" if "n \<le> length xs" for n using snoc.prems [of n] that by simp
  then have ih: "fst (run_phase LineStart xs) =
      (if line_start xs then LineStart else if D then Dot else if R then DotCr else Inside)"
    using snoc.IH unfolding D_def R_def by (metis less_imp_le order_refl take_all)
  have now: "ends_text (xs @ [b]) \<longleftrightarrow> b = 0x0A \<and> R" "line_start (xs @ [b]) \<longleftrightarrow> b = 0x0A"
    "(\<exists>ys. xs @ [b] = ys @ [0x2E] \<and> line_start ys) \<longleftrightarrow> b = 0x2E \<and> line_start xs"
    "(\<exists>ys. xs @ [b] = ys @ [0x2E, 0x0D] \<and> line_start ys) \<longleftrightarrow> b = 0x0D \<and> D"
    unfolding ends_text_iff split3 split2 D_def R_def by (auto simp: line_start_def)
  have ex: "\<not> (line_start xs \<and> D)" "\<not> (line_start xs \<and> R)" "\<not> (D \<and> R)"
    by (auto simp: line_start_def D_def R_def)
  show ?case unfolding run_phase_snoc ih now using ex by auto
qed

lemma find_upt_Some:
  "find P [0..<Suc m] = Some n \<longleftrightarrow> n \<le> m \<and> P n \<and> (\<forall>i<n. \<not> P i)"
  unfolding find_Some_iff by (auto simp: less_Suc_eq_le simp del: upt_Suc)

lemma text_end_None: "text_end d = None \<longleftrightarrow> (\<forall>n\<le>length d. \<not> ends_text (take n d))"
  unfolding text_end_def find_None_iff by (auto simp: less_Suc_eq_le simp del: upt_Suc)

lemma run_not_ended:
  assumes "\<And>n. n \<le> length xs \<Longrightarrow> \<not> ends_text (take n xs)"
  shows "fst (run_phase LineStart xs) \<noteq> Ended"
proof -
  have "\<not> ends_text xs" using assms [of "length xs"] by simp
  then show ?thesis using run_LineStart [OF assms [OF less_imp_le]] by auto
qed

lemma run_text_end:
  "case text_end d of
     Some e \<Rightarrow> run_phase LineStart d = (Ended, e)
   | None \<Rightarrow> fst (run_phase LineStart d) \<noteq> Ended"
proof (cases "text_end d")
  case None
  then have no: "\<not> ends_text (take n d)" if "n \<le> length d" for n using that text_end_None by blast
  have "fst (run_phase LineStart d) \<noteq> Ended" by (rule run_not_ended [OF no])
  then show ?thesis using None by simp
next
  case (Some e)
  then have e: "e \<le> length d" "ends_text (take e d)" "\<And>i. i < e \<Longrightarrow> \<not> ends_text (take i d)"
    unfolding text_end_def find_upt_Some by auto
  have no: "\<not> ends_text (take n (take e d))" if "n < length (take e d)" for n using e(3) [of n] that by simp
  have "fst (run_phase LineStart (take e d)) = Ended" using run_LineStart [OF no] e(2) by simp
  moreover have "snd (run_phase LineStart (take e d)) = e"
  proof -
    have pos: "0 < e" using e(2) by (cases e) (auto simp: ends_text_iff)
    let ?b = "take (e - 1) d"
    have sp: "take e d = ?b @ [d ! (e - 1)]" using pos e(1) by (metis Suc_pred' less_le_trans diff_less less_one take_Suc_conv_app_nth)
    have no: "\<not> ends_text (take i ?b)" if "i \<le> length ?b" for i
    proof -
      have "i < e" using that pos by simp linarith
      then show ?thesis using e(3) [of i] that by simp
    qed
    have b: "fst (run_phase LineStart ?b) \<noteq> Ended" by (rule run_not_ended [OF no])
    then have "snd (run_phase LineStart ?b) = e - 1" using run_phase_all e(1) by fastforce
    with sp show ?thesis using pos b
      by (cases "run_phase LineStart ?b") (auto simp: run_phase_append)
  qed
  ultimately have "run_phase LineStart (take e d) = (Ended, e)" by (metis prod.collapse)
  then have "run_phase LineStart (take e d @ drop e d) = (Ended, e)" unfolding run_phase_append by simp
  then show ?thesis using Some by simp
qed

lemma poll_read_phase:
  assumes "end_checker_wf c"
  shows "\<exists>c' n. text_data_reader_poll_read c read = (c', take n read) \<and> end_checker_wf c' \<and>
    run_phase (phase_of c) read = (phase_of c', n)"
proof (cases "ec_found c \<or> read = []")
  case True
  then show ?thesis using assms by (auto simp: text_data_reader_poll_read_def phase_of_def)
next
  case False
  then show ?thesis using check_runs [of c 0 read] assms by (auto simp: text_data_reader_poll_read_def)
qed

lemma read_all_phase:
  assumes "end_checker_wf c"
  shows "\<exists>c' n. text_data_read_all c reads = (c', take n (concat reads)) \<and> end_checker_wf c' \<and>
    run_phase (phase_of c) (concat reads) = (phase_of c', n)"
  using assms
proof (induction reads arbitrary: c)
  case (Cons read reads)
  obtain c1 n1 where 1: "text_data_reader_poll_read c read = (c1, take n1 read)" "end_checker_wf c1"
    "run_phase (phase_of c) read = (phase_of c1, n1)"
    using poll_read_phase [OF Cons.prems] by blast
  obtain c2 n2 where 2: "text_data_read_all c1 reads = (c2, take n2 (concat reads))" "end_checker_wf c2"
    "run_phase (phase_of c1) (concat reads) = (phase_of c2, n2)"
    using Cons.IH [OF 1(2)] by blast
  show ?case
  proof (cases "phase_of c1 = Ended")
    case True
    then show ?thesis using 1 2 run_phase_bound [of "phase_of c" read]
      by (intro exI [of _ c2] exI [of _ n1]) (auto simp: run_phase_append)
  next
    case False
    then have "n1 = length read" using 1(3) run_phase_all [of "phase_of c" read] by simp
    then show ?thesis using 1 2 False
      by (intro exI [of _ c2] exI [of _ "n1 + n2"]) (auto simp: run_phase_append)
  qed
qed (auto simp: run_phase_append)

lemma phase_of_Ended: "phase_of c = Ended \<longleftrightarrow> ec_found c" "Ended = phase_of c \<longleftrightarrow> ec_found c"
  by (simp_all add: phase_of_def)

text \<open>
  C9: However the text is split over the reads, the reader of text data hands out exactly the bytes up to the first
  line that holds a single dot, that line included, and is finished then; as long as there is no such line it hands
  out every byte and is not finished.
\<close>

theorem text_reader_finds_end:
  "snd (text_data_read_all end_checker_default reads) =
     (case text_end (concat reads) of Some e \<Rightarrow> take e (concat reads) | None \<Rightarrow> concat reads) \<and>
   ec_found (fst (text_data_read_all end_checker_default reads)) = (text_end (concat reads) \<noteq> None)"
proof -
  have "phase_of end_checker_default = LineStart" "end_checker_wf end_checker_default"
    by (simp_all add: end_checker_default_def phase_of_def end_checker_wf_def)
  then obtain c n where c: "text_data_read_all end_checker_default reads = (c, take n (concat reads))"
    "run_phase LineStart (concat reads) = (phase_of c, n)"
    using read_all_phase [of end_checker_default reads] by auto
  then show ?thesis using run_text_end [of "concat reads"] run_phase_all [of LineStart "concat reads"]
    by (auto simp: phase_of_Ended split: option.splits)
qed

end
