(* ===== verification/Smtp_Encode.thy ===== *)
theory Smtp_Encode
  imports Smtp_Text
begin

text \<open>
  The encoder of SMTP text data (\<open>lib/vey-smtp-proto/src/io/text_encoder.rs\<close>): a copy from a reader to a writer that
  doubles a dot at the start of a line and appends the line that ends the text. The reader and the writer are
  the events that their polls return; the relation \<open>encode_run\<close> takes the loop of \<open>poll_copy\<close> through any sequence
  of them.
\<close>

section \<open>The encoding\<close>

fun dot_stuff :: "bool \<Rightarrow> bytes \<Rightarrow> bytes" where
  "dot_stuff s [] = []"
| "dot_stuff s (b # bs) = (if s \<and> b = 0x2E then [0x2E] else []) @ b # dot_stuff (b = 0x0A) bs"

definition text_trailer :: "bytes \<Rightarrow> bytes" where
  "text_trailer t = (if line_start t then [0x2E, 0x0D, 0x0A] else [0x0D, 0x0A, 0x2E, 0x0D, 0x0A])"

definition encode_text :: "bytes \<Rightarrow> bytes" where
  "encode_text t = dot_stuff True t @ text_trailer t"

lemma dot_stuff_append:
  "dot_stuff s (xs @ ys) = dot_stuff s xs @ dot_stuff (if xs = [] then s else last xs = 0x0A) ys"
  by (induction xs arbitrary: s) auto

lemma dot_stuff_text: "dot_stuff True (xs @ ys) = dot_stuff True xs @ dot_stuff (line_start xs) ys"
  by (simp add: dot_stuff_append line_start_def)

lemma dot_stuff_line:
  "xs \<noteq> [] \<Longrightarrow> 0x0A \<notin> set (butlast xs) \<Longrightarrow> dot_stuff s xs = (if s \<and> hd xs = 0x2E then [0x2E] else []) @ xs"
proof (induction xs arbitrary: s)
  case (Cons x xs)
  then show ?case by (cases xs) (auto split: if_splits)
qed simp

section \<open>The copy buffer\<close>

datatype copy_error = ReadFailed | WriteFailed | WriteZero

datatype read_event = RdReady bytes | RdPending | RdError

datatype write_event = WrReady nat | WrPending | WrError

datatype flush_event = FlReady | FlPending | FlError

datatype 'a poll = Ready 'a | Pending

record encode_buf =
  eb_read_done :: bool
  eb_buf :: bytes
  eb_yield_size :: nat
  eb_r_off :: nat
  eb_w_off :: nat
  eb_total :: u64
  eb_need_flush :: bool
  eb_active :: bool
  eb_line_end :: nat
  eb_check_line :: bool
  eb_write_dot :: bool
  eb_read_end_ok :: bool
  eb_write_append_line :: bool

definition encode_buf_new :: "bytes \<Rightarrow> nat \<Rightarrow> encode_buf" where
  "encode_buf_new buf yield_size =
     \<lparr>eb_read_done = False, eb_buf = buf, eb_yield_size = yield_size, eb_r_off = 0, eb_w_off = 0, eb_total = 0,
      eb_need_flush = False, eb_active = False, eb_line_end = 0, eb_check_line = True, eb_write_dot = False,
      eb_read_end_ok = True, eb_write_append_line = False\<rparr>"

text \<open>
  The reader fills at most the free part of the buffer; what it read is the second component of the result.
\<close>

definition encode_fill_buf :: "encode_buf \<Rightarrow> read_event \<Rightarrow> (copy_error, encode_buf \<times> bytes \<times> unit poll) rs" where
  "encode_fill_buf st rd =
     (if length (eb_buf st) \<le> eb_r_off st + 16 then Ok (st, [], Ready ())
      else case rd of
        RdPending \<Rightarrow> Ok (st, [], Pending)
      | RdError \<Rightarrow> Err ReadFailed
      | RdReady c \<Rightarrow>
          let c = take (length (eb_buf st) - eb_r_off st) c in
          if c = [] then Ok (st\<lparr>eb_read_done := True\<rparr>, [], Ready ())
          else bnd (copy_at (eb_buf st) (eb_r_off st) c) (\<lambda>buf.
            Ok (st\<lparr>eb_buf := buf, eb_r_off := eb_r_off st + length c, eb_read_end_ok := (last c = 0x0A),
                  eb_active := True\<rparr>, c, Ready ())))"

text \<open>The writer takes at most the bytes it is given.\<close>

definition encode_poll_write :: "write_event \<Rightarrow> bytes \<Rightarrow> (copy_error, bytes poll) rs" where
  "encode_poll_write w data =
     (case w of
        WrPending \<Rightarrow> Ok Pending
      | WrError \<Rightarrow> Err WriteFailed
      | WrReady n \<Rightarrow> if take n data = [] then Err WriteZero else Ok (Ready (take n data)))"

definition encode_write_dot :: "encode_buf \<Rightarrow> write_event \<Rightarrow> (copy_error, encode_buf \<times> bytes \<times> nat poll) rs" where
  "encode_write_dot st w =
     bnd (encode_poll_write w [0x2E]) (\<lambda>p. case p of
       Pending \<Rightarrow> Ok (st, [], Pending)
     | Ready b \<Rightarrow>
         Ok (st\<lparr>eb_total := eb_total st + of_nat (length b), eb_need_flush := True, eb_active := True\<rparr>, b,
             Ready (length b)))"

definition encode_write_line :: "encode_buf \<Rightarrow> write_event \<Rightarrow> (copy_error, encode_buf \<times> bytes \<times> nat poll) rs" where
  "encode_write_line st w =
     bnd (slice (eb_buf st) (eb_w_off st) (eb_line_end st)) (\<lambda>data.
     bnd (encode_poll_write w data) (\<lambda>p. case p of
       Pending \<Rightarrow> Ok (st, [], Pending)
     | Ready b \<Rightarrow>
         Ok (st\<lparr>eb_w_off := eb_w_off st + length b, eb_total := eb_total st + of_nat (length b),
               eb_need_flush := True, eb_active := True\<rparr>, b, Ready (length b))))"

text \<open>The body of the loop of \<open>poll_write_buf\<close>, in its order: the dot that is due, the line, the end of the line.\<close>

definition encode_due_dot ::
  "encode_buf \<Rightarrow> write_event list \<Rightarrow> (copy_error, encode_buf \<times> write_event list \<times> bytes \<times> nat poll) rs" where
  "encode_due_dot st ws =
     (if eb_write_dot st then
        case ws of
          [] \<Rightarrow> Ok (st, [], [], Pending)
        | w # ws \<Rightarrow>
            bnd (encode_write_dot st w) (\<lambda>(st, b, p). case p of
              Pending \<Rightarrow> Ok (st, ws, b, Pending)
            | Ready i \<Rightarrow> Ok (st\<lparr>eb_write_dot := False\<rparr>, ws, b, Ready i))
      else Ok (st, ws, [], Ready 0))"

definition encode_select_line :: "encode_buf \<Rightarrow> (copy_error, encode_buf \<times> bool) rs" where
  "encode_select_line st =
     bnd (slice (eb_buf st) (eb_w_off st) (eb_r_off st)) (\<lambda>left.
       let st = (if eb_line_end st \<le> eb_w_off st
                 then st\<lparr>eb_line_end := (case memchr 0x0A left of
                        Some p \<Rightarrow> eb_w_off st + p + 1 | None \<Rightarrow> eb_r_off st)\<rparr>
                 else st) in
       if eb_check_line st then
         bnd (idx left 0) (\<lambda>b.
           if b = 0x2E then Ok (st\<lparr>eb_check_line := False, eb_write_dot := True\<rparr>, True)
           else Ok (st\<lparr>eb_check_line := False\<rparr>, False))
       else Ok (st, False))"

definition encode_end_line :: "encode_buf \<Rightarrow> (copy_error, encode_buf) rs" where
  "encode_end_line st =
     (if eb_line_end st \<le> eb_w_off st then
        bnd (usub (eb_line_end st) 1) (\<lambda>i. bnd (idx (eb_buf st) i) (\<lambda>b.
          Ok (if b = 0x0A then st\<lparr>eb_check_line := True\<rparr> else st)))
      else Ok st)"

definition encode_write_once ::
  "encode_buf \<Rightarrow> write_event list \<Rightarrow> (copy_error, encode_buf \<times> write_event list \<times> bytes \<times> unit poll) rs" where
  "encode_write_once st ws =
     bnd (encode_due_dot st ws) (\<lambda>(st, ws, b, p). case p of
       Pending \<Rightarrow> Ok (st, ws, b, Pending)
     | Ready i \<Rightarrow>
         bnd (encode_select_line st) (\<lambda>(st, again).
           if again then Ok (st, ws, b, Ready ())
           else case ws of
             [] \<Rightarrow> Ok (st, [], b, Pending)
           | w # ws \<Rightarrow>
               bnd (encode_write_line st w) (\<lambda>(st, b', p). case p of
                 Pending \<Rightarrow> Ok (st, ws, b @ b', Pending)
               | Ready j \<Rightarrow> bnd (encode_end_line st) (\<lambda>st. Ok (st, ws, b @ b', Ready ())))))"

lemma encode_due_dot_shrinks:
  "encode_due_dot st ws = Ok (st', ws', b, p) \<Longrightarrow>
     eb_check_line st' = eb_check_line st \<and> length ws' \<le> length ws"
  by (auto simp: encode_due_dot_def encode_write_dot_def encode_poll_write_def rs_iff
      split: if_splits list.splits write_event.splits poll.splits)

lemma encode_select_line_again:
  "encode_select_line st = Ok (st', True) \<Longrightarrow> eb_check_line st \<and> \<not> eb_check_line st'"
  by (auto simp: encode_select_line_def rs_iff Let_def split: if_splits)

lemma encode_write_once_cases:
  assumes run: "encode_write_once st ws = Ok (st', ws', b, q)"
  obtains (dot) "encode_due_dot st ws = Ok (st', ws', b, Pending)" "q = Pending"
  | (again) st1 i where "encode_due_dot st ws = Ok (st1, ws', b, Ready i)" "encode_select_line st1 = Ok (st', True)"
      "q = Ready ()"
  | (blocked) st1 i where "encode_due_dot st ws = Ok (st1, [], b, Ready i)"
      "encode_select_line st1 = Ok (st', False)" "q = Pending"
  | (waiting) st1 b1 i st2 w b2 where "encode_due_dot st ws = Ok (st1, w # ws', b1, Ready i)"
      "encode_select_line st1 = Ok (st2, False)" "encode_write_line st2 w = Ok (st', b2, Pending)"
      "b = b1 @ b2" "q = Pending"
  | (written) st1 b1 i st2 w st3 b2 j where "encode_due_dot st ws = Ok (st1, w # ws', b1, Ready i)"
      "encode_select_line st1 = Ok (st2, False)" "encode_write_line st2 w = Ok (st3, b2, Ready j)"
      "encode_end_line st3 = Ok st'" "b = b1 @ b2" "q = Ready ()"
proof -
  note d = run [unfolded encode_write_once_def]
  obtain st1 ws1 b1 p where due: "encode_due_dot st ws = Ok (st1, ws1, b1, p)"
    using d by (cases "encode_due_dot st ws") auto
  show thesis
  proof (cases p)
    case Pending
    then have "encode_due_dot st ws = Ok (st', ws', b, Pending)" "q = Pending" using d due by simp_all
    then show thesis by (rule dot)
  next
    case i: (Ready i)
    obtain st2 a where sel: "encode_select_line st1 = Ok (st2, a)"
      using d due i by (cases "encode_select_line st1") auto
    show thesis
    proof (cases a)
      case True
      then have "encode_due_dot st ws = Ok (st1, ws', b, Ready i)" "encode_select_line st1 = Ok (st', True)" "q = Ready ()"
        using d due i sel by simp_all
      then show thesis by (rule again)
    next
      case no: False
      show thesis
      proof (cases ws1)
        case Nil
        then have "encode_due_dot st ws = Ok (st1, [], b, Ready i)" "encode_select_line st1 = Ok (st', False)" "q = Pending"
          using d due i sel no by simp_all
        then show thesis by (rule blocked)
      next
        case (Cons w ws2)
        obtain st3 b2 r where wr: "encode_write_line st2 w = Ok (st3, b2, r)"
          using d due i sel no Cons by (cases "encode_write_line st2 w") auto
        show thesis
        proof (cases r)
          case Pending
          then have "encode_due_dot st ws = Ok (st1, w # ws', b1, Ready i)" "encode_select_line st1 = Ok (st2, False)"
            "encode_write_line st2 w = Ok (st', b2, Pending)" "b = b1 @ b2" "q = Pending"
            using d due i sel no Cons wr by simp_all
          then show thesis by (rule waiting)
        next
          case (Ready j)
          then have "encode_end_line st3 = Ok st'" "ws' = ws2" "b = b1 @ b2" "q = Ready ()"
            using d due i sel no Cons wr by (cases "encode_end_line st3"; simp)+
          then show thesis using written [OF _ _ wr [unfolded Ready]] due i sel no Cons by simp
        qed
      qed
    qed
  qed
qed

lemma encode_write_once_shrinks:
  assumes "encode_write_once st ws = Ok (st', ws', b, Ready u)"
  shows "length ws' < length ws \<or> length ws' = length ws \<and> eb_check_line st \<and> \<not> eb_check_line st'"
  using assms by (cases rule: encode_write_once_cases)
    (auto dest!: encode_due_dot_shrinks encode_select_line_again)

function encode_write_buf ::
  "encode_buf \<Rightarrow> write_event list \<Rightarrow> bytes \<Rightarrow> (copy_error, encode_buf \<times> bytes \<times> nat poll) rs" where
  "encode_write_buf st ws out =
     (if eb_w_off st < eb_r_off st then
        bnd (encode_write_once st ws) (\<lambda>(st1, ws1, b, p). case p of
          Pending \<Rightarrow> Ok (st1, out @ b, Pending)
        | Ready u \<Rightarrow> encode_write_buf st1 ws1 (out @ b))
      else Ok (if eb_line_end st = eb_r_off st then st\<lparr>eb_line_end := 0\<rparr> else st, out, Ready (length out)))"
  by pat_completeness auto
termination
proof (relation "measures [\<lambda>(st, ws, out). length ws, \<lambda>(st, ws, out). if eb_check_line st then 1 else 0]", goal_cases)
  case 1
  then show ?case by simp
qed (auto dest!: encode_write_once_shrinks)

declare encode_write_buf.simps [simp del]

section \<open>The loop\<close>

definition encode_flush :: "encode_buf \<Rightarrow> flush_event \<Rightarrow> (copy_error, encode_buf \<times> unit poll) rs" where
  "encode_flush st fl =
     (if eb_need_flush st then
        case fl of FlReady \<Rightarrow> Ok (st, Ready ()) | FlPending \<Rightarrow> Ok (st, Pending) | FlError \<Rightarrow> Err WriteFailed
      else Ok (st, Ready ()))"

definition encode_read_first ::
  "encode_buf \<Rightarrow> read_event \<Rightarrow> flush_event \<Rightarrow> (copy_error, encode_buf \<times> bytes \<times> unit poll) rs" where
  "encode_read_first st rd fl =
     (if eb_read_done st then Ok (st, [], Ready ())
      else
        let st = (if eb_w_off st = eb_r_off st then st\<lparr>eb_w_off := 0, eb_r_off := 0\<rparr> else st) in
        bnd (encode_fill_buf st rd) (\<lambda>(st, got, p). case p of
          Ready u \<Rightarrow> Ok (st, got, Ready ())
        | Pending \<Rightarrow>
            if eb_r_off st \<le> eb_w_off st then
              bnd (encode_flush st fl) (\<lambda>(st, f). case f of
                Ready u \<Rightarrow> Ok (st\<lparr>eb_need_flush := False\<rparr>, got, Pending)
              | Pending \<Rightarrow> Ok (st, got, Pending))
            else Ok (st, got, Ready ())))"

definition encode_append_line :: "encode_buf \<Rightarrow> (copy_error, encode_buf) rs" where
  "encode_append_line st =
     (if eb_read_done st \<and> eb_w_off st = eb_r_off st then
        let line = (if eb_read_end_ok st then [0x2E, 0x0D, 0x0A] else [0x0D, 0x0A, 0x2E, 0x0D, 0x0A]) in
        bnd (copy_at (eb_buf st) 0 line) (\<lambda>buf.
          Ok (st\<lparr>eb_w_off := 0, eb_buf := buf, eb_line_end := length line, eb_r_off := length line,
                eb_write_append_line := True\<rparr>))
      else Ok st)"

text \<open>
  One iteration of the loop of \<open>poll_copy\<close>: \<open>Again\<close> goes on with the loop, \<open>Yield\<close> returns \<open>Poll::Pending\<close> and the
  next poll starts the loop anew, \<open>Done\<close> returns the total. The two lists of bytes are what was read and what was
  written.
\<close>

datatype progress = Again nat | Yield | Done u64

definition encode_poll_copy ::
  "encode_buf \<Rightarrow> nat \<Rightarrow> read_event \<Rightarrow> write_event list \<Rightarrow> flush_event \<Rightarrow>
     (copy_error, encode_buf \<times> bytes \<times> bytes \<times> progress) rs" where
  "encode_poll_copy st copied rd ws fl =
     (if eb_write_append_line st then
        case ws of
          [] \<Rightarrow> Ok (st, [], [], Yield)
        | w # ws \<Rightarrow>
            bnd (encode_write_line st w) (\<lambda>(st, b, p). case p of
              Pending \<Rightarrow> Ok (st, [], b, Yield)
            | Ready nw \<Rightarrow>
                if eb_r_off st \<le> eb_w_off st then
                  bnd (encode_flush st fl) (\<lambda>(st, f). case f of
                    Pending \<Rightarrow> Ok (st, [], b, Yield)
                  | Ready u \<Rightarrow> Ok (st, [], b, Done (eb_total st)))
                else Ok (st, [], b, Again (copied + nw)))
      else
        bnd (encode_read_first st rd fl) (\<lambda>(st, got, p). case p of
          Pending \<Rightarrow> Ok (st, got, [], Yield)
        | Ready u \<Rightarrow>
            bnd (encode_write_buf st ws []) (\<lambda>(st, b, p). case p of
              Pending \<Rightarrow> Ok (st, got, b, Yield)
            | Ready nw \<Rightarrow>
                if eb_yield_size st \<le> copied + nw then Ok (st, got, b, Yield)
                else bnd (encode_append_line st) (\<lambda>st. Ok (st, got, b, Again (copied + nw))))))"

text \<open>The states of a transfer, with what has been read and what has been written so far.\<close>

inductive encode_run :: "bytes \<Rightarrow> nat \<Rightarrow> encode_buf \<Rightarrow> nat \<Rightarrow> bytes \<Rightarrow> bytes \<Rightarrow> bool" for buf yield_size where
  start: "encode_run buf yield_size (encode_buf_new buf yield_size) 0 [] []"
| again: "encode_run buf yield_size st copied t out \<Longrightarrow>
    encode_poll_copy st copied rd ws fl = Ok (st', got, b, Again copied') \<Longrightarrow>
    encode_run buf yield_size st' copied' (t @ got) (out @ b)"
| yielded: "encode_run buf yield_size st copied t out \<Longrightarrow>
    encode_poll_copy st copied rd ws fl = Ok (st', got, b, Yield) \<Longrightarrow>
    encode_run buf yield_size st' 0 (t @ got) (out @ b)"


section \<open>The invariant\<close>

text \<open>The bytes that are read and not yet written.\<close>

definition eb_pending :: "encode_buf \<Rightarrow> bytes" where
  "eb_pending st = drop (eb_w_off st) (take (eb_r_off st) (eb_buf st))"

text \<open>A dot that is already written and whose line is not.\<close>

definition dot_written :: "encode_buf \<Rightarrow> bytes \<Rightarrow> bytes" where
  "dot_written st p =
     (if line_start p \<and> \<not> eb_check_line st \<and> \<not> eb_write_dot st \<and> hd (eb_pending st) = 0x2E then [0x2E] else [])"

definition encode_bounds :: "encode_buf \<Rightarrow> bool" where
  "encode_bounds st \<longleftrightarrow> eb_w_off st \<le> eb_r_off st \<and> eb_line_end st \<le> eb_r_off st \<and> eb_r_off st \<le> length (eb_buf st) \<and>
     16 < length (eb_buf st)"

text \<open>
  While the text \<open>t\<close> is copied: \<open>p\<close> is the part of it that is written.
\<close>

definition encode_sent :: "encode_buf \<Rightarrow> bytes \<Rightarrow> bytes \<Rightarrow> bytes \<Rightarrow> bool" where
  "encode_sent st t out p \<longleftrightarrow>
     t = p @ eb_pending st \<and> out = dot_stuff True p @ dot_written st p \<and>
     (eb_check_line st \<longrightarrow> line_start p \<and> \<not> eb_write_dot st) \<and>
     (eb_write_dot st \<longrightarrow> line_start p \<and> hd (eb_pending st) = 0x2E) \<and>
     (\<not> eb_check_line st \<longrightarrow> line_start p \<longrightarrow> eb_w_off st < eb_line_end st) \<and>
     0x0A \<notin> set (take (eb_line_end st - 1 - eb_w_off st) (eb_pending st))"

definition encode_copying :: "encode_buf \<Rightarrow> bytes \<Rightarrow> bytes \<Rightarrow> bool" where
  "encode_copying st t out \<longleftrightarrow>
     encode_bounds st \<and> \<not> eb_write_append_line st \<and> (eb_read_end_ok st \<longleftrightarrow> line_start t) \<and>
     eb_total st = of_nat (length out) \<and> (\<exists>p. encode_sent st t out p)"

definition encode_idle_line :: "encode_buf \<Rightarrow> bool" where
  "encode_idle_line st \<longleftrightarrow> (eb_w_off st = eb_r_off st \<longrightarrow> eb_line_end st = 0)"

definition encode_ending :: "encode_buf \<Rightarrow> bytes \<Rightarrow> bytes \<Rightarrow> bool" where
  "encode_ending st t out \<longleftrightarrow>
     encode_bounds st \<and> eb_write_append_line st \<and> eb_line_end st = eb_r_off st \<and>
     take (eb_r_off st) (eb_buf st) = text_trailer t \<and> eb_total st = of_nat (length out) \<and>
     out = dot_stuff True t @ take (eb_w_off st) (text_trailer t)"

definition encode_inv :: "encode_buf \<Rightarrow> bytes \<Rightarrow> bytes \<Rightarrow> bool" where
  "encode_inv st t out \<longleftrightarrow> (encode_copying st t out \<and> encode_idle_line st) \<or> encode_ending st t out"

lemma length_pending [simp]:
  "encode_bounds st \<Longrightarrow> length (eb_pending st) = eb_r_off st - eb_w_off st"
  by (simp add: eb_pending_def encode_bounds_def)

lemma pending_Cons: "encode_bounds st \<Longrightarrow> eb_w_off st < eb_r_off st \<Longrightarrow> eb_pending st \<noteq> []"
  by (metis length_pending list.size(3) zero_less_diff less_numeral_extra(3))

lemma pending_Nil: "encode_bounds st \<Longrightarrow> eb_w_off st = eb_r_off st \<Longrightarrow> eb_pending st = []"
  by (metis diff_self_eq_0 length_0_conv length_pending)

lemma pending_slice: "encode_bounds st \<Longrightarrow> slice (eb_buf st) (eb_w_off st) (eb_r_off st) = Ok (eb_pending st)"
  by (simp add: eb_pending_def encode_bounds_def drop_take)

lemma pending_line:
  "encode_bounds st \<Longrightarrow> eb_w_off st \<le> eb_line_end st \<Longrightarrow>
   slice (eb_buf st) (eb_w_off st) (eb_line_end st) = Ok (take (eb_line_end st - eb_w_off st) (eb_pending st))"
  by (auto simp: eb_pending_def encode_bounds_def drop_take min_def)

text \<open>What each part of the loop body does to it.\<close>

lemma due_dot_copying:
  assumes "encode_copying st t out" "eb_w_off st < eb_r_off st"
  shows "encode_due_dot st ws \<noteq> Panic"
    and "encode_due_dot st ws = Ok (st', ws', b, q) \<Longrightarrow>
      encode_copying st' t (out @ b) \<and> eb_w_off st' = eb_w_off st \<and> eb_r_off st' = eb_r_off st \<and>
      eb_read_done st' = eb_read_done st \<and> eb_yield_size st' = eb_yield_size st \<and>
      (q \<noteq> Pending \<longrightarrow> \<not> eb_write_dot st')"
proof -
  show "encode_due_dot st ws \<noteq> Panic"
    by (auto simp: encode_due_dot_def encode_write_dot_def encode_poll_write_def rs_iff
        split: list.splits write_event.splits poll.splits)
  assume run: "encode_due_dot st ws = Ok (st', ws', b, q)"
  show "encode_copying st' t (out @ b) \<and> eb_w_off st' = eb_w_off st \<and> eb_r_off st' = eb_r_off st \<and>
      eb_read_done st' = eb_read_done st \<and> eb_yield_size st' = eb_yield_size st \<and>
      (q \<noteq> Pending \<longrightarrow> \<not> eb_write_dot st')"
  proof (cases "b = []")
    case True
    then have "st' = st \<and> (q = Pending \<or> \<not> eb_write_dot st)" using run
      by (auto simp: encode_due_dot_def encode_write_dot_def encode_poll_write_def rs_iff
          split: if_splits list.splits write_event.splits poll.splits)
    then show ?thesis using assms True by auto
  next
    case False
    then have st': "eb_write_dot st" "b = [0x2E]" "st' = st\<lparr>eb_total := eb_total st + 1, eb_need_flush := True,
        eb_active := True, eb_write_dot := False\<rparr>" using run
      by (auto simp: encode_due_dot_def encode_write_dot_def encode_poll_write_def rs_iff take_Cons'
          split: if_splits list.splits write_event.splits poll.splits)
    then show ?thesis using assms
      by (auto simp: encode_copying_def encode_bounds_def encode_sent_def dot_written_def eb_pending_def)
  qed
qed

lemma select_line_copying:
  assumes "encode_copying st t out" "eb_w_off st < eb_r_off st" "\<not> eb_write_dot st"
  shows "\<exists>st' again. encode_select_line st = Ok (st', again) \<and> encode_copying st' t out \<and>
    eb_w_off st' = eb_w_off st \<and> eb_r_off st' = eb_r_off st \<and> eb_read_done st' = eb_read_done st \<and>
    eb_yield_size st' = eb_yield_size st \<and> \<not> eb_check_line st' \<and>
    eb_w_off st' < eb_line_end st' \<and> (again \<longleftrightarrow> eb_write_dot st')"
proof -
  have b: "encode_bounds st" using assms(1) by (simp add: encode_copying_def)
  obtain x xs where left: "eb_pending st = x # xs" using pending_Cons [OF b assms(2)] by (cases "eb_pending st") auto
  define l where "l = (if eb_line_end st \<le> eb_w_off st then
      (case memchr 0x0A (eb_pending st) of Some p \<Rightarrow> eb_w_off st + p + 1 | None \<Rightarrow> eb_r_off st) else eb_line_end st)"
  have l: "eb_w_off st < l" "l \<le> eb_r_off st"
    using b assms(2)
    by (auto simp: l_def encode_bounds_def length_pending [OF b] split: option.split dest!: memchr_Some)
  have no: "0x0A \<notin> set (take (l - 1 - eb_w_off st) (eb_pending st))"
  proof (cases "eb_line_end st \<le> eb_w_off st")
    case True
    show ?thesis
    proof (cases "memchr 0x0A (eb_pending st)")
      case None
      then have "0x0A \<notin> set (eb_pending st)" using memchr_None_iff by blast
      then show ?thesis using in_set_takeD by fast
    next
      case (Some k)
      then have "l - 1 - eb_w_off st = k" using True by (simp add: l_def)
      then show ?thesis using memchr_Some [OF Some] by simp
    qed
  next
    case False
    then show ?thesis using assms(1) by (auto simp: l_def encode_copying_def encode_sent_def)
  qed
  let ?st = "st\<lparr>eb_line_end := l, eb_check_line := False, eb_write_dot := eb_check_line st \<and> x = 0x2E\<rparr>"
  have "encode_select_line st = Ok (?st, eb_check_line st \<and> x = 0x2E)"
    unfolding encode_select_line_def pending_slice [OF b] using assms(3)
    by (auto simp: left l_def Let_def)
  moreover have "encode_copying ?st t out"
  proof -
    obtain p where p: "encode_sent st t out p" using assms(1) by (auto simp: encode_copying_def)
    have "eb_pending ?st = eb_pending st" by (simp add: eb_pending_def)
    then have "encode_sent ?st t out p" using p l(1) no left assms(3) by (auto simp: encode_sent_def dot_written_def)
    then show ?thesis using assms(1) l(2) by (auto simp: encode_copying_def encode_bounds_def)
  qed
  ultimately show ?thesis using l by auto
qed


lemma write_line_result:
  assumes run: "encode_write_line st w = Ok (st', b, q)" and bounds: "encode_bounds st" "eb_w_off st \<le> eb_line_end st"
  shows "(st' = st \<and> b = [] \<and> q = Pending) \<or>
    (\<exists>n. 0 < n \<and> n \<le> eb_line_end st - eb_w_off st \<and> b = take n (eb_pending st) \<and> length b = n \<and> q = Ready n \<and>
      st' = st\<lparr>eb_w_off := eb_w_off st + n, eb_total := eb_total st + of_nat n, eb_need_flush := True,
              eb_active := True\<rparr>)"
proof (cases w)
  case (WrReady k)
  define line n where "line = take (eb_line_end st - eb_w_off st) (eb_pending st)" and "n = length b"
  have r: "take k line \<noteq> []" "b = take k line" "q = Ready n"
    "st' = st\<lparr>eb_w_off := eb_w_off st + n, eb_total := eb_total st + of_nat n, eb_need_flush := True,
              eb_active := True\<rparr>"
    using run WrReady unfolding encode_write_line_def pending_line [OF bounds] encode_poll_write_def n_def line_def [symmetric]
    by (auto split: if_splits)
  have "eb_line_end st - eb_w_off st \<le> length (eb_pending st)" using bounds by (auto simp: encode_bounds_def)
  then have "n = min k (eb_line_end st - eb_w_off st)" using r(2) by (simp add: n_def line_def)
  then have "n \<le> eb_line_end st - eb_w_off st" "b = take n (eb_pending st)" using r(2) by (simp_all add: line_def)
  moreover have "0 < n" "length b = n" using r(1,2) by (simp_all add: n_def)
  ultimately show ?thesis using r(3,4) by blast
next
  case WrPending
  then show ?thesis using run unfolding encode_write_line_def pending_line [OF bounds] encode_poll_write_def by simp
next
  case WrError
  then show ?thesis using run unfolding encode_write_line_def pending_line [OF bounds] encode_poll_write_def by simp
qed

lemma write_line_no_panic:
  "encode_bounds st \<Longrightarrow> eb_w_off st \<le> eb_line_end st \<Longrightarrow> encode_write_line st w \<noteq> Panic"
  by (cases w) (auto simp: encode_write_line_def pending_line encode_poll_write_def)

lemma write_line_copying:
  assumes inv: "encode_copying st t out" and line: "eb_w_off st < eb_line_end st"
    and flags: "\<not> eb_check_line st" "\<not> eb_write_dot st" and n: "0 < n" "n \<le> eb_line_end st - eb_w_off st"
    and st': "st' = st\<lparr>eb_w_off := eb_w_off st + n, eb_total := eb_total st + of_nat n, eb_need_flush := True,
              eb_active := True\<rparr>"
  shows "\<exists>st''. encode_end_line st' = Ok st'' \<and> encode_copying st'' t (out @ take n (eb_pending st)) \<and>
    eb_r_off st'' = eb_r_off st \<and> eb_w_off st'' = eb_w_off st + n \<and> eb_line_end st'' = eb_line_end st \<and>
    eb_read_done st'' = eb_read_done st \<and> eb_yield_size st'' = eb_yield_size st"
proof -
  let ?l = "eb_pending st" let ?b = "take n ?l" and ?last = "eb_line_end st - 1"
  have b: "encode_bounds st" and tot: "eb_total st = of_nat (length out)"
    using inv by (auto simp: encode_copying_def)
  have len: "n \<le> length ?l" "length ?b = n" using n b by (auto simp: encode_bounds_def)
  obtain p where p: "encode_sent st t out p" using inv by (auto simp: encode_copying_def)
  have no: "0x0A \<notin> set (take (?last - eb_w_off st) ?l)" using p by (simp add: encode_sent_def)
  have "set (butlast ?b) \<subseteq> set (take (?last - eb_w_off st) ?l)"
    using n len by (auto simp: butlast_take intro: set_take_subset_set_take [THEN subsetD, rotated])
  then have bl: "0x0A \<notin> set (butlast ?b)" using no by blast
  have nn: "?b \<noteq> []" "hd ?b = hd ?l" using n(1) len by (auto simp: hd_take)
  have pend: "eb_pending st' = drop n ?l" by (simp add: st' eb_pending_def add.commute)
  have out: "out @ ?b = dot_stuff True (p @ ?b)"
    using p nn dot_stuff_line [OF nn(1) bl] flags by (auto simp: dot_stuff_text encode_sent_def dot_written_def)
  have t: "t = (p @ ?b) @ drop n ?l" using p by (simp add: encode_sent_def)
  have last_b: "last ?b = eb_buf st ! (eb_w_off st + n - 1)"
    using n len b by (auto simp: last_conv_nth eb_pending_def encode_bounds_def)
  have ls: "line_start (p @ ?b) \<longleftrightarrow> last ?b = 0x0A" using nn(1) by (simp add: line_start_def)
  show ?thesis
  proof (cases "eb_line_end st \<le> eb_w_off st + n")
    case True
    then have e: "eb_w_off st + n = eb_line_end st" using n(2) line by linarith
    let ?st = "if last ?b = 0x0A then st'\<lparr>eb_check_line := True\<rparr> else st'"
    have "eb_line_end st - Suc 0 < length (eb_buf st)" "Suc 0 \<le> eb_line_end st"
      using line b by (auto simp: encode_bounds_def)
    then have "encode_end_line st' = Ok ?st" using e last_b by (simp add: encode_end_line_def st')
    moreover have "encode_sent ?st t (out @ ?b) (p @ ?b)"
      using out t pend ls flags e by (auto simp: encode_sent_def dot_written_def st' eb_pending_def)
    ultimately show ?thesis using inv tot len e b
      by (auto simp: encode_copying_def encode_bounds_def st')
  next
    case False
    have "last ?b \<in> set (take (?last - eb_w_off st) ?l)"
      using False nn(1) len n by (auto simp: last_conv_nth in_set_conv_nth min_def intro!: exI [of _ "n - 1"])
    then have "last ?b \<noteq> 0x0A" using no by metis
    moreover have "take (?last - eb_w_off st') (drop n ?l) = drop n (take (?last - eb_w_off st) ?l)"
      using False by (simp add: st' drop_take)
    then have "0x0A \<notin> set (take (?last - eb_w_off st') (drop n ?l))" using no in_set_dropD by metis
    ultimately have "encode_sent st' t (out @ ?b) (p @ ?b)"
      using out t pend ls flags by (auto simp: encode_sent_def dot_written_def st')
    moreover have "encode_end_line st' = Ok st'" using False by (simp add: encode_end_line_def st')
    ultimately show ?thesis using inv tot len n b
      by (auto simp: encode_copying_def encode_bounds_def st')
  qed
qed


lemma copying_end:
  assumes "encode_copying st t out" "eb_w_off st = eb_r_off st"
  shows "encode_copying (if eb_line_end st = eb_r_off st then st\<lparr>eb_line_end := 0\<rparr> else st) t out"
  using assms
  by (auto simp: encode_copying_def encode_bounds_def encode_sent_def dot_written_def eb_pending_def)

lemma write_line_step:
  assumes inv: "encode_copying st t out" "eb_w_off st < eb_line_end st" "\<not> eb_check_line st" "\<not> eb_write_dot st"
    and run: "encode_write_line st w = Ok (st', b, Ready j)"
  shows "\<exists>st''. encode_end_line st' = Ok st'' \<and> encode_copying st'' t (out @ b) \<and>
      eb_r_off st'' = eb_r_off st \<and> eb_w_off st'' \<le> eb_line_end st'' \<and>
      eb_read_done st'' = eb_read_done st \<and> eb_yield_size st'' = eb_yield_size st"
proof -
  have "encode_bounds st" using inv(1) by (simp add: encode_copying_def)
  from write_line_result [OF run this less_imp_le [OF inv(2)]]
  obtain n where n: "0 < n" "n \<le> eb_line_end st - eb_w_off st" "b = take n (eb_pending st)"
    "st' = st\<lparr>eb_w_off := eb_w_off st + n, eb_total := eb_total st + of_nat n, eb_need_flush := True,
              eb_active := True\<rparr>" by blast
  from write_line_copying [OF inv n(1,2,4)] obtain st'' where
    "encode_end_line st' = Ok st''" "encode_copying st'' t (out @ b)" "eb_r_off st'' = eb_r_off st"
    "eb_w_off st'' = eb_w_off st + n" "eb_line_end st'' = eb_line_end st"
    "eb_read_done st'' = eb_read_done st" "eb_yield_size st'' = eb_yield_size st" unfolding n(3) by blast
  then show ?thesis using n(2) inv(2) by auto
qed

lemma due_select_copying:
  assumes inv: "encode_copying st t out" and lt: "eb_w_off st < eb_r_off st"
    and run: "encode_due_dot st ws = Ok (st1, ws1, b1, Ready i)"
  shows "\<exists>st2 a. encode_select_line st1 = Ok (st2, a) \<and> encode_copying st2 t (out @ b1) \<and>
      eb_w_off st2 = eb_w_off st \<and> eb_r_off st2 = eb_r_off st \<and> eb_read_done st2 = eb_read_done st \<and>
      eb_yield_size st2 = eb_yield_size st \<and> \<not> eb_check_line st2 \<and>
      eb_w_off st2 < eb_line_end st2 \<and> (a \<longleftrightarrow> eb_write_dot st2)"
  using due_dot_copying(2) [OF inv lt run] select_line_copying [of st1 t "out @ b1"] lt by auto

lemma write_once_no_panic:
  assumes inv: "encode_copying st t out" and lt: "eb_w_off st < eb_r_off st"
  shows "encode_write_once st ws \<noteq> Panic"
proof
  assume panic: "encode_write_once st ws = Panic"
  obtain st1 ws1 b1 p where dp: "encode_due_dot st ws = Ok (st1, ws1, b1, p)"
    using due_dot_copying(1) [OF inv lt, of ws] panic
    by (cases "encode_due_dot st ws") (auto simp: encode_write_once_def)
  obtain i where "p = Ready i" using panic dp by (cases p) (auto simp: encode_write_once_def)
  note d = dp [unfolded this]
  from due_select_copying [OF inv lt d] obtain st2 a where s: "encode_select_line st1 = Ok (st2, a)" "encode_copying st2 t (out @ b1)"
    "\<not> eb_check_line st2" "eb_w_off st2 < eb_line_end st2" "a \<longleftrightarrow> eb_write_dot st2" by blast
  have "\<not> a" using panic d s(1) by (auto simp: encode_write_once_def)
  then have nd: "\<not> eb_write_dot st2" using s(5) by simp
  obtain w ws2 where w: "ws1 = w # ws2" using panic d s(1) \<open>\<not> a\<close> by (cases ws1) (auto simp: encode_write_once_def)
  have "encode_write_line st2 w \<noteq> Panic"
    using s(2,4) by (intro write_line_no_panic) (auto simp: encode_copying_def)
  then obtain st3 b2 q where q: "encode_write_line st2 w = Ok (st3, b2, q)"
    using panic d s(1) \<open>\<not> a\<close> w by (cases "encode_write_line st2 w") (auto simp: encode_write_once_def)
  then obtain j where r: "encode_write_line st2 w = Ok (st3, b2, Ready j)" "encode_end_line st3 = Panic"
    using panic d s(1) \<open>\<not> a\<close> w by (cases q) (auto simp: encode_write_once_def bnd_Panic_iff)
  then show False using write_line_step [OF s(2,4,3) nd r(1)] by auto
qed

lemma write_once_copying:
  assumes inv: "encode_copying st t out" and lt: "eb_w_off st < eb_r_off st"
    and run: "encode_write_once st ws = Ok (st', ws', b, q)"
  shows "encode_copying st' t (out @ b) \<and> eb_r_off st' = eb_r_off st \<and> eb_read_done st' = eb_read_done st \<and>
      eb_yield_size st' = eb_yield_size st \<and> (q = Pending \<longrightarrow> eb_w_off st' < eb_r_off st') \<and>
      (eb_w_off st' = eb_r_off st' \<longrightarrow> eb_line_end st' = eb_r_off st')"
  using run
proof (cases rule: encode_write_once_cases)
  case dot
  then show ?thesis using due_dot_copying(2) [OF inv lt dot(1)] lt by simp
next
  case (again st1 i)
  then show ?thesis using due_select_copying [OF inv lt again(1)] lt by auto
next
  case (blocked st1 i)
  then show ?thesis using due_select_copying [OF inv lt blocked(1)] lt by auto
next
  case (waiting st1 b1 i st2 w b2)
  then have st2: "encode_copying st2 t (out @ b1)" "eb_w_off st2 < eb_line_end st2" "eb_w_off st2 = eb_w_off st"
    "eb_r_off st2 = eb_r_off st" "eb_read_done st2 = eb_read_done st" "eb_yield_size st2 = eb_yield_size st"
    using due_select_copying [OF inv lt waiting(1)] by auto
  then have "st' = st2" "b2 = []" using write_line_result [OF waiting(3)] by (auto simp: encode_copying_def)
  then show ?thesis using st2 waiting lt by auto
next
  case (written st1 b1 i st2 w st3 b2 j)
  then have st2: "encode_copying st2 t (out @ b1)" "eb_w_off st2 < eb_line_end st2" "\<not> eb_check_line st2"
    "\<not> eb_write_dot st2" "eb_r_off st2 = eb_r_off st" "eb_read_done st2 = eb_read_done st"
    "eb_yield_size st2 = eb_yield_size st"
    using due_select_copying [OF inv lt written(1)] by auto
  then have "encode_copying st' t ((out @ b1) @ b2)" "eb_r_off st' = eb_r_off st" "eb_w_off st' \<le> eb_line_end st'"
    "eb_read_done st' = eb_read_done st" "eb_yield_size st' = eb_yield_size st"
    using write_line_step [OF st2(1-4) written(3)] written(4) by auto
  then show ?thesis using written(5,6) by (auto simp: encode_copying_def encode_bounds_def)
qed

lemma write_buf_copying:
  assumes "encode_copying st t (pre @ out)"
    "eb_w_off st = eb_r_off st \<longrightarrow> eb_line_end st = eb_r_off st \<or> eb_line_end st = 0"
  shows "encode_write_buf st ws out \<noteq> Panic \<and> (\<forall>st' b q. encode_write_buf st ws out = Ok (st', b, q) \<longrightarrow>
     encode_copying st' t (pre @ b) \<and> encode_idle_line st' \<and> eb_read_done st' = eb_read_done st \<and>
     eb_yield_size st' = eb_yield_size st \<and> (q \<noteq> Pending \<longrightarrow> eb_w_off st' = eb_r_off st'))"
  using assms
proof (induction st ws out rule: encode_write_buf.induct)
  case (1 st ws out)
  note inv = "1.prems"(1)
  show ?case
  proof (cases "eb_w_off st < eb_r_off st")
    case False
    then have eq: "eb_w_off st = eb_r_off st" using inv by (auto simp: encode_copying_def encode_bounds_def)
    let ?st = "if eb_line_end st = eb_r_off st then st\<lparr>eb_line_end := 0\<rparr> else st"
    have "encode_copying ?st t (pre @ out)" using inv eq by (rule copying_end)
    moreover have "encode_idle_line ?st" using "1.prems"(2) eq by (auto simp: encode_idle_line_def)
    moreover have "encode_write_buf st ws out = Ok (?st, out, Ready (length out))"
      using False by (subst encode_write_buf.simps) simp
    ultimately show ?thesis using eq by auto
  next
    case lt: True
    show ?thesis
    proof (cases "encode_write_once st ws")
      case (Ok r)
      obtain st1 ws1 b p where r: "encode_write_once st ws = Ok (st1, ws1, b, p)" using Ok by (cases r) auto
      note d = write_once_copying [OF inv lt r]
      show ?thesis
      proof (cases p)
        case Pending
        then have eq: "encode_write_buf st ws out = Ok (st1, out @ b, Pending)"
          using lt r by (subst encode_write_buf.simps) simp
        show ?thesis using d Pending unfolding eq by (auto simp: encode_idle_line_def)
      next
        case (Ready u)
        have eq: "encode_write_buf st ws out = encode_write_buf st1 ws1 (out @ b)"
          using lt r Ready by (subst encode_write_buf.simps) simp
        have st1: "encode_copying st1 t (pre @ out @ b)" "eb_read_done st = eb_read_done st1"
          "eb_yield_size st = eb_yield_size st1"
          "eb_w_off st1 = eb_r_off st1 \<longrightarrow> eb_line_end st1 = eb_r_off st1 \<or> eb_line_end st1 = 0"
          using d by simp_all
        show ?thesis using "1.IH" [OF lt r refl refl refl Ready st1(1,4)] unfolding eq st1(2,3) .
      qed
    next
      case (Err x)
      then have "encode_write_buf st ws out = Err x" using lt by (subst encode_write_buf.simps) simp
      then show ?thesis by simp
    next
      case Panic
      then show ?thesis using write_once_no_panic [OF inv lt] by simp
    qed
  qed
qed


lemma copying_flags [simp]:
  "encode_copying (st\<lparr>eb_read_done := x\<rparr>) t out = encode_copying st t out"
  "encode_copying (st\<lparr>eb_need_flush := x\<rparr>) t out = encode_copying st t out"
  by (simp_all add: encode_copying_def encode_bounds_def encode_sent_def dot_written_def eb_pending_def)

lemma encode_fill_buf_result:
  assumes "encode_fill_buf st rd = Ok (st', got, q)"
  shows "(got = [] \<and> (st' = st \<or> st' = st\<lparr>eb_read_done := True\<rparr> \<and> q = Ready ())) \<or>
    (got \<noteq> [] \<and> q = Ready () \<and> eb_r_off st + length got \<le> length (eb_buf st) \<and>
     st' = st\<lparr>eb_buf := take (eb_r_off st) (eb_buf st) @ got @ drop (eb_r_off st + length got) (eb_buf st),
       eb_r_off := eb_r_off st + length got, eb_read_end_ok := (last got = 0x0A), eb_active := True\<rparr>)"
proof (cases "length (eb_buf st) \<le> eb_r_off st + 16")
  case True
  then show ?thesis using assms by (simp add: encode_fill_buf_def)
next
  case False
  show ?thesis
  proof (cases rd)
    case (RdReady c)
    define d where "d = take (length (eb_buf st) - eb_r_off st) c"
    then have "eb_r_off st + length d \<le> length (eb_buf st)" using False by simp
    moreover have "encode_fill_buf st rd = (if d = [] then Ok (st\<lparr>eb_read_done := True\<rparr>, [], Ready ())
          else bnd (copy_at (eb_buf st) (eb_r_off st) d) (\<lambda>buf.
            Ok (st\<lparr>eb_buf := buf, eb_r_off := eb_r_off st + length d, eb_read_end_ok := (last d = 0x0A),
                  eb_active := True\<rparr>, d, Ready ())))"
      using False by (simp add: encode_fill_buf_def Let_def d_def RdReady)
    ultimately show ?thesis using assms by (auto split: if_splits)
  qed (use assms False in \<open>simp_all add: encode_fill_buf_def\<close>)
qed

lemma fill_copying:
  assumes inv: "encode_copying st t out" and run: "encode_fill_buf st rd = Ok (st', got, q)"
  shows "encode_copying st' (t @ got) out \<and> (eb_pending st' = eb_pending st @ got) \<and>
    eb_w_off st' = eb_w_off st \<and> eb_line_end st' = eb_line_end st \<and> eb_r_off st' = eb_r_off st + length got \<and>
    eb_yield_size st' = eb_yield_size st \<and> (q = Pending \<longrightarrow> st' = st)"
proof (cases "got = []")
  case True
  then have "st' = st \<or> st' = st\<lparr>eb_read_done := True\<rparr> \<and> q = Ready ()"
    using encode_fill_buf_result [OF run] by auto
  then show ?thesis
  proof (elim disjE conjE)
    assume "st' = st\<lparr>eb_read_done := True\<rparr>" "q = Ready ()"
    then show ?thesis using inv True by (simp add: eb_pending_def)
  qed (use inv True in simp)
next
  case False
  then have r: "eb_r_off st + length got \<le> length (eb_buf st)" "q = Ready ()"
    "st' = st\<lparr>eb_buf := take (eb_r_off st) (eb_buf st) @ got @ drop (eb_r_off st + length got) (eb_buf st),
       eb_r_off := eb_r_off st + length got, eb_read_end_ok := (last got = 0x0A), eb_active := True\<rparr>"
    using encode_fill_buf_result [OF run] by auto
  have f: "eb_check_line st' = eb_check_line st" "eb_write_dot st' = eb_write_dot st" "eb_w_off st' = eb_w_off st"
    "eb_line_end st' = eb_line_end st" "eb_r_off st' = eb_r_off st + length got" "eb_total st' = eb_total st"
    "eb_read_end_ok st' = (last got = 0x0A)" "eb_write_append_line st' = eb_write_append_line st"
    "eb_yield_size st' = eb_yield_size st" using r(3) by simp_all
  obtain p where p: "encode_sent st t out p" and b: "encode_bounds st" using inv by (auto simp: encode_copying_def)
  have pend: "eb_pending st' = eb_pending st @ got" using r b by (simp add: eb_pending_def encode_bounds_def)
  have ne: "eb_pending st \<noteq> []" if "eb_w_off st < eb_line_end st"
    using pending_Cons [OF b] that b by (auto simp: encode_bounds_def)
  have dw: "dot_written st' p = dot_written st p"
  proof (cases "line_start p \<and> \<not> eb_check_line st")
    case True
    then have "eb_pending st \<noteq> []" using p ne unfolding encode_sent_def by blast
    then show ?thesis using pend f by (simp add: dot_written_def)
  qed (auto simp: dot_written_def f)
  have "eb_line_end st - 1 - eb_w_off st \<le> length (eb_pending st)" using b by (auto simp: encode_bounds_def)
  then have tk: "take (eb_line_end st - 1 - eb_w_off st) (eb_pending st @ got) =
      take (eb_line_end st - 1 - eb_w_off st) (eb_pending st)" by simp
  have dot: "eb_write_dot st \<longrightarrow> hd (eb_pending st @ got) = 0x2E"
    using p ne unfolding encode_sent_def by (metis hd_append2)
  have "encode_sent st' (t @ got) out p"
    using p dot unfolding encode_sent_def pend dw f tk append_assoc [symmetric] by blast
  moreover have "encode_bounds st'" using b r(1) by (simp add: encode_bounds_def r(3))
  ultimately have "encode_copying st' (t @ got) out" using inv False f
    by (auto simp: encode_copying_def line_start_def)
  then show ?thesis using pend r(2) f by simp
qed

lemma reset_copying:
  assumes "encode_copying st t out" "encode_idle_line st"
  defines "st' \<equiv> (if eb_w_off st = eb_r_off st then st\<lparr>eb_w_off := 0, eb_r_off := 0\<rparr> else st)"
  shows "encode_copying st' t out \<and> encode_idle_line st'"
  using assms
  by (auto simp: encode_copying_def encode_bounds_def encode_sent_def dot_written_def eb_pending_def encode_idle_line_def)


lemma encode_flush_result:
  "encode_flush st fl \<noteq> Panic" "encode_flush st fl = Ok (st', f) \<Longrightarrow> st' = st"
  by (auto simp: encode_flush_def split: if_splits flush_event.splits)

lemma fill_no_panic: "encode_fill_buf st rd \<noteq> Panic"
  by (auto simp: encode_fill_buf_def Let_def copy_at_def split: read_event.split)

lemma read_first_copying:
  assumes inv: "encode_copying st t out" "encode_idle_line st"
  shows "encode_read_first st rd fl \<noteq> Panic"
    and "encode_read_first st rd fl = Ok (st', got, q) \<Longrightarrow>
      encode_copying st' (t @ got) out \<and> eb_yield_size st' = eb_yield_size st \<and>
      (eb_w_off st' = eb_r_off st' \<longrightarrow> eb_line_end st' = 0)"
proof -
  let ?st = "if eb_w_off st = eb_r_off st then st\<lparr>eb_w_off := 0, eb_r_off := 0\<rparr> else st"
  have r: "encode_copying ?st t out" "encode_idle_line ?st" "eb_yield_size ?st = eb_yield_size st"
    using reset_copying [OF inv] by auto
  have bounds: "eb_w_off s \<le> eb_r_off s" if "encode_copying s t' out" for s t'
    using that by (simp add: encode_copying_def encode_bounds_def)
  show "encode_read_first st rd fl \<noteq> Panic"
    using fill_no_panic [of ?st rd] encode_flush_result(1)
    by (auto simp: encode_read_first_def Let_def rs_iff split: poll.splits if_splits)
  assume run: "encode_read_first st rd fl = Ok (st', got, q)"
  show "encode_copying st' (t @ got) out \<and> eb_yield_size st' = eb_yield_size st \<and>
      (eb_w_off st' = eb_r_off st' \<longrightarrow> eb_line_end st' = 0)"
  proof (cases "eb_read_done st")
    case True
    then show ?thesis using run inv by (auto simp: encode_read_first_def encode_idle_line_def)
  next
    case False
    obtain st1 g p where f: "encode_fill_buf ?st rd = Ok (st1, g, p)"
      using run False by (cases "encode_fill_buf ?st rd") (auto simp: encode_read_first_def Let_def)
    note fc = fill_copying [OF r(1) f]
    have idle: "eb_w_off st1 = eb_r_off st1 \<longrightarrow> eb_line_end st1 = 0"
      using fc r(2) bounds [OF r(1)] unfolding encode_idle_line_def by auto
    have "got = g \<and> (st' = st1 \<or> st' = st1\<lparr>eb_need_flush := False\<rparr>)"
    proof (cases p)
      case (Ready u)
      then show ?thesis using run False f by (simp add: encode_read_first_def Let_def)
    next
      case Pending
      then show ?thesis using run False f
        by (cases "encode_flush st1 fl")
          (auto simp: encode_read_first_def Let_def rs_iff split: if_splits poll.splits dest!: encode_flush_result(2))
    qed
    then show ?thesis using fc r(3) idle by auto
  qed
qed

lemma append_line_inv:
  assumes inv: "encode_copying st t out" "encode_idle_line st"
  shows "\<exists>st'. encode_append_line st = Ok st' \<and> encode_inv st' t out \<and> eb_yield_size st' = eb_yield_size st"
proof (cases "eb_read_done st \<and> eb_w_off st = eb_r_off st")
  case False
  then have "encode_append_line st = Ok st" by (auto simp: encode_append_line_def)
  then show ?thesis using inv by (auto simp: encode_inv_def)
next
  case True
  have b: "encode_bounds st" and e: "eb_read_end_ok st \<longleftrightarrow> line_start t" and tot: "eb_total st = of_nat (length out)"
    using inv(1) by (auto simp: encode_copying_def)
  obtain p where p: "encode_sent st t out p" using inv(1) by (auto simp: encode_copying_def)
  have "eb_pending st = []" using pending_Nil [OF b] True by simp
  moreover have "dot_written st p = []" using p inv(2) True by (auto simp: dot_written_def encode_sent_def encode_idle_line_def)
  ultimately have out: "out = dot_stuff True t" using p by (simp add: encode_sent_def)
  have len: "length (text_trailer t) \<le> 5" by (simp add: text_trailer_def)
  let ?st = "st\<lparr>eb_w_off := 0, eb_buf := text_trailer t @ drop (length (text_trailer t)) (eb_buf st),
    eb_line_end := length (text_trailer t), eb_r_off := length (text_trailer t), eb_write_append_line := True\<rparr>"
  have "encode_append_line st = Ok ?st" using True b e
    by (simp add: encode_append_line_def Let_def text_trailer_def encode_bounds_def)
  moreover have "encode_ending ?st t out" using b tot out len by (simp add: encode_ending_def encode_bounds_def)
  ultimately show ?thesis by (auto simp: encode_inv_def)
qed


text \<open>A write of the last line.\<close>

lemma ending_write:
  assumes inv: "encode_ending st t out" and run: "encode_write_line st w = Ok (st', b, q)"
  shows "encode_ending st' t (out @ b) \<and> (eb_r_off st' \<le> eb_w_off st' \<longrightarrow> out @ b = encode_text t)"
proof -
  have b: "encode_bounds st" "eb_w_off st \<le> eb_line_end st" using inv by (auto simp: encode_ending_def encode_bounds_def)
  have pend: "eb_pending st = drop (eb_w_off st) (text_trailer t)" using inv by (simp add: eb_pending_def encode_ending_def)
  have r: "length (text_trailer t) = eb_r_off st" using inv b(1)
    by (metis encode_ending_def encode_bounds_def length_take min.absorb2)
  have full: "out' = encode_text t" if "encode_ending s t out'" "length (text_trailer t) \<le> eb_w_off s" for s out'
    using that by (simp add: encode_ending_def encode_text_def)
  have "encode_ending st' t (out @ b)" "eb_r_off st' = eb_r_off st"
  proof -
    from write_line_result [OF run b] have "encode_ending st' t (out @ b) \<and> eb_r_off st' = eb_r_off st"
    proof (elim disjE exE conjE)
      fix n
      assume n: "0 < n" "n \<le> eb_line_end st - eb_w_off st" "b = take n (eb_pending st)" "length b = n"
        "st' = st\<lparr>eb_w_off := eb_w_off st + n, eb_total := eb_total st + of_nat n, eb_need_flush := True,
              eb_active := True\<rparr>"
      have "take (eb_w_off st) (text_trailer t) @ b = take (eb_w_off st + n) (text_trailer t)"
        by (simp add: n(3) pend take_add)
      then have "out @ b = dot_stuff True t @ take (eb_w_off st') (text_trailer t)"
        using inv n(5) by (simp add: encode_ending_def)
      moreover have "eb_total st = of_nat (length out)" using inv unfolding encode_ending_def by blast
      then have "eb_total st' = of_nat (length (out @ b))" using n(4,5) by simp
      moreover have "encode_bounds st'" using b inv n(2,5) by (auto simp: encode_ending_def encode_bounds_def)
      moreover have "eb_write_append_line st'" "eb_line_end st' = eb_r_off st'" "eb_r_off st' = eb_r_off st"
        "take (eb_r_off st') (eb_buf st') = text_trailer t" using inv n(5) by (simp_all add: encode_ending_def)
      ultimately show ?thesis unfolding encode_ending_def by blast
    qed (use inv in auto)
    then show "encode_ending st' t (out @ b)" "eb_r_off st' = eb_r_off st" by auto
  qed
  then show ?thesis using full r by metis
qed

lemma poll_copy_ending:
  assumes inv: "encode_ending st t out"
  shows "encode_poll_copy st copied rd ws fl \<noteq> Panic"
    and "encode_poll_copy st copied rd ws fl = Ok (st', got, b, pr) \<Longrightarrow>
      got = [] \<and> encode_ending st' t (out @ b) \<and> (\<forall>n. pr = Done n \<longrightarrow> out @ b = encode_text t \<and> n = of_nat (length (out @ b)))"
proof -
  have ap: "eb_write_append_line st" and b: "encode_bounds st" "eb_w_off st \<le> eb_line_end st"
    using inv by (auto simp: encode_ending_def encode_bounds_def)
  show "encode_poll_copy st copied rd ws fl \<noteq> Panic"
  proof (cases ws)
    case (Cons w ws2)
    then show ?thesis using ap write_line_no_panic [OF b, of w] encode_flush_result(1)
      by (auto simp: encode_poll_copy_def rs_iff split: poll.splits if_splits)
  qed (use ap in \<open>simp add: encode_poll_copy_def\<close>)
  assume run: "encode_poll_copy st copied rd ws fl = Ok (st', got, b, pr)"
  show "got = [] \<and> encode_ending st' t (out @ b) \<and> (\<forall>n. pr = Done n \<longrightarrow> out @ b = encode_text t \<and> n = of_nat (length (out @ b)))"
  proof (cases ws)
    case Nil
    then show ?thesis using run ap inv by (simp add: encode_poll_copy_def)
  next
    case (Cons w ws2)
    obtain st1 b1 p where wl: "encode_write_line st w = Ok (st1, b1, p)"
      using run ap Cons by (cases "encode_write_line st w") (auto simp: encode_poll_copy_def)
    have "got = [] \<and> st' = st1 \<and> b = b1 \<and> (\<forall>n. pr = Done n \<longrightarrow> eb_r_off st1 \<le> eb_w_off st1 \<and> n = eb_total st1)"
    proof (cases p)
      case Pending
      then show ?thesis using run ap Cons wl by (simp add: encode_poll_copy_def)
    next
      case (Ready k)
      then show ?thesis using run ap Cons wl
        by (cases "encode_flush st1 fl")
          (auto simp: encode_poll_copy_def split: if_splits poll.splits dest!: encode_flush_result(2))
    qed
    moreover have "eb_total st1 = of_nat (length (out @ b1))"
      using ending_write [OF inv wl] unfolding encode_ending_def by blast
    ultimately show ?thesis using ending_write [OF inv wl] by metis
  qed
qed

lemma poll_copy_copying:
  assumes inv: "encode_copying st t out" "encode_idle_line st"
  shows "encode_poll_copy st copied rd ws fl \<noteq> Panic"
    and "encode_poll_copy st copied rd ws fl = Ok (st', got, b, pr) \<Longrightarrow>
      encode_inv st' (t @ got) (out @ b) \<and> (\<forall>n. pr \<noteq> Done n)"
proof -
  have ap: "\<not> eb_write_append_line st" using inv by (simp add: encode_copying_def)
  note rf = read_first_copying [OF inv]
  have wb: "encode_write_buf s ws [] \<noteq> Panic \<and> (\<forall>s' b q. encode_write_buf s ws [] = Ok (s', b, q) \<longrightarrow>
      encode_copying s' (t @ g) (out @ b) \<and> encode_idle_line s')"
    if "encode_read_first st rd fl = Ok (s, g, p)" for s g p
    using write_buf_copying [of s "t @ g" out "[]" ws] rf(2) [OF that] by simp
  show "encode_poll_copy st copied rd ws fl \<noteq> Panic"
  proof
    assume panic: "encode_poll_copy st copied rd ws fl = Panic"
    obtain s g p where sp: "encode_read_first st rd fl = Ok (s, g, p)"
      using panic ap rf(1) [of rd fl] by (cases "encode_read_first st rd fl") (auto simp: encode_poll_copy_def)
    obtain u where "p = Ready u" using panic ap sp by (cases p) (auto simp: encode_poll_copy_def)
    note s = sp [unfolded this]
    obtain s1 b1 q where s1: "encode_write_buf s ws [] = Ok (s1, b1, q)"
      using panic ap s wb [OF s] by (cases "encode_write_buf s ws []") (auto simp: encode_poll_copy_def)
    then have "encode_append_line s1 \<noteq> Panic" using wb [OF s] append_line_inv [of s1 "t @ g" "out @ b1"] by auto
    then show False using panic ap s s1 by (cases q) (auto simp: encode_poll_copy_def rs_iff split: if_splits)
  qed
  assume run: "encode_poll_copy st copied rd ws fl = Ok (st', got, b, pr)"
  obtain s g p where s: "encode_read_first st rd fl = Ok (s, g, p)"
    using run ap by (cases "encode_read_first st rd fl") (auto simp: encode_poll_copy_def)
  show "encode_inv st' (t @ got) (out @ b) \<and> (\<forall>n. pr \<noteq> Done n)"
  proof (cases p)
    case Pending
    then show ?thesis using run ap s rf(2) [OF s] by (auto simp: encode_poll_copy_def encode_inv_def encode_idle_line_def)
  next
    case (Ready u)
    obtain s1 b1 q where s1: "encode_write_buf s ws [] = Ok (s1, b1, q)"
      using run ap s Ready by (cases "encode_write_buf s ws []") (auto simp: encode_poll_copy_def)
    then have c: "encode_copying s1 (t @ g) (out @ b1)" "encode_idle_line s1" using wb [OF s] by auto
    obtain s2 where a: "encode_append_line s1 = Ok s2" "encode_inv s2 (t @ g) (out @ b1)"
      using append_line_inv [OF c] by auto
    have "got = g \<and> b = b1 \<and> (st' = s1 \<or> st' = s2) \<and> (\<forall>n. pr \<noteq> Done n)"
      using run ap s Ready s1 a(1) by (cases q) (auto simp: encode_poll_copy_def split: if_splits)
    then show ?thesis using c a(2) by (auto simp: encode_inv_def)
  qed
qed

lemma poll_copy_inv:
  assumes "encode_inv st t out"
  shows "encode_poll_copy st copied rd ws fl \<noteq> Panic"
    and "encode_poll_copy st copied rd ws fl = Ok (st', got, b, pr) \<Longrightarrow> encode_inv st' (t @ got) (out @ b)"
    and "encode_poll_copy st copied rd ws fl = Ok (st', got, b, Done n) \<Longrightarrow>
      got = [] \<and> out @ b = encode_text t \<and> n = of_nat (length (out @ b))"
proof -
  consider (copying) "encode_copying st t out" "encode_idle_line st" | (ending) "encode_ending st t out"
    using assms unfolding encode_inv_def by blast
  then show "encode_poll_copy st copied rd ws fl \<noteq> Panic"
    by cases (use poll_copy_copying(1) poll_copy_ending(1) in blast)+
  show "encode_inv st' (t @ got) (out @ b)" if run: "encode_poll_copy st copied rd ws fl = Ok (st', got, b, pr)"
    using assms poll_copy_copying(2) [OF _ _ run] poll_copy_ending(2) [OF _ run] unfolding encode_inv_def by auto
  show "got = [] \<and> out @ b = encode_text t \<and> n = of_nat (length (out @ b))"
    if run: "encode_poll_copy st copied rd ws fl = Ok (st', got, b, Done n)"
    using assms poll_copy_copying(2) [OF _ _ run] poll_copy_ending(2) [OF _ run] unfolding encode_inv_def by blast
qed

lemma encode_run_inv:
  assumes "encode_run buf yield_size st copied t out" "16 < length buf"
  shows "encode_inv st t out"
  using assms
proof (induction rule: encode_run.induct)
  case start
  then show ?case
    by (auto simp: encode_inv_def encode_copying_def encode_bounds_def encode_sent_def dot_written_def eb_pending_def
        encode_idle_line_def encode_buf_new_def line_start_def)
next
  case (again st copied t out rd ws fl st' got b copied')
  then show ?case using poll_copy_inv(2) by blast
next
  case (yielded st copied t out rd ws fl st' got b)
  then show ?case using poll_copy_inv(2) by blast
qed

text \<open>
  C15: However the reads, the writes and the flushes of an encoding transfer of SMTP text are split, delayed and
  interleaved, no step of it panics, and when it returns, the bytes that the writer has taken are the text with a dot
  doubled at the start of every line and the line with a single dot behind it, on a line of its own; the total is
  their number.
\<close>

theorem encode_transfer:
  assumes "encode_run buf yield_size st copied t out" "16 < length buf"
  shows "encode_poll_copy st copied rd ws fl \<noteq> Panic \<and>
    (\<forall>st' got b n. encode_poll_copy st copied rd ws fl = Ok (st', got, b, Done n) \<longrightarrow>
       got = [] \<and> out @ b = encode_text t \<and> n = of_nat (length (out @ b)))"
  using poll_copy_inv [OF encode_run_inv [OF assms]] by blast


lemma write_buf_unfold:
  "eb_w_off st < eb_r_off st \<Longrightarrow> encode_write_buf st ws out =
     bnd (encode_write_once st ws) (\<lambda>(st1, ws1, b, p). case p of
       Pending \<Rightarrow> Ok (st1, out @ b, Pending) | Ready u \<Rightarrow> encode_write_buf st1 ws1 (out @ b))"
  "\<not> eb_w_off st < eb_r_off st \<Longrightarrow> encode_write_buf st ws out =
     Ok (if eb_line_end st = eb_r_off st then st\<lparr>eb_line_end := 0\<rparr> else st, out, Ready (length out))"
  by (subst encode_write_buf.simps, simp)+

lemmas encode_run_simps = encode_poll_copy_def encode_read_first_def encode_fill_buf_def write_buf_unfold
  encode_write_once_def encode_due_dot_def encode_select_line_def encode_end_line_def encode_write_dot_def
  encode_write_line_def encode_poll_write_def encode_append_line_def encode_flush_def Let_def

text \<open>A run: the text is a single dot, and the writer blocks behind the dot that is added.\<close>

definition example_buf :: "bytes \<Rightarrow> bool \<Rightarrow> nat \<Rightarrow> bool \<Rightarrow> encode_buf" where
  "example_buf data done_reading line_end due =
     \<lparr>eb_read_done = done_reading, eb_buf = data @ replicate (20 - length data) 0, eb_yield_size = 1000,
      eb_r_off = length data, eb_w_off = 0, eb_total = (if due then 0 else 1), eb_need_flush = \<not> due, eb_active = True,
      eb_line_end = line_end, eb_check_line = False, eb_write_dot = due, eb_read_end_ok = False,
      eb_write_append_line = False\<rparr>"

definition example_st :: encode_buf where
  "example_st =
     \<lparr>eb_read_done = True, eb_buf = [0x0D, 0x0A, 0x2E, 0x0D, 0x0A] @ replicate 15 0, eb_yield_size = 1000, eb_r_off = 5,
      eb_w_off = 0, eb_total = 2, eb_need_flush = True, eb_active = True, eb_line_end = 5, eb_check_line = False,
      eb_write_dot = False, eb_read_end_ok = False, eb_write_append_line = True\<rparr>"

lemma example_run: "encode_run (replicate 20 0) 1000 example_st 1 [0x2E] [0x2E, 0x2E]"
proof -
  define st0 where "st0 = (example_buf [0x2E] False 0 True)\<lparr>eb_check_line := True, eb_write_dot := False\<rparr>"
  define st1 where "st1 = example_buf [0x2E] False 1 True"
  define st2 where "st2 = example_buf [0x2E] False 1 False"
  define st3 where "st3 = example_buf [0x2E] True 1 False"
  define st4 where "st4 = st3\<lparr>eb_w_off := 1, eb_total := 2\<rparr>"
  note defs = st0_def st1_def st2_def st3_def st4_def example_buf_def
  have "encode_read_first (encode_buf_new (replicate 20 0) 1000) (RdReady [0x2E]) FlReady = Ok (st0, [0x2E], Ready ())"
    by (simp add: defs encode_buf_new_def encode_read_first_def encode_fill_buf_def)
  moreover have w: "encode_write_once st0 [WrReady 1] = Ok (st1, [WrReady 1], [], Ready ())"
    "encode_write_once st1 [WrReady 1] = Ok (st2, [], [0x2E], Pending)"
    "encode_write_once st3 [WrReady 9] = Ok (st4, [], [0x2E], Ready ())"
    by (simp_all add: defs encode_run_simps)
  have "encode_write_buf st0 [WrReady 1] [] = Ok (st2, [0x2E], Pending)"
  proof -
    have "eb_w_off st0 < eb_r_off st0" "eb_w_off st1 < eb_r_off st1" by (simp_all add: defs)
    then show ?thesis using w(1,2) by (simp add: write_buf_unfold(1))
  qed
  ultimately have "encode_poll_copy (encode_buf_new (replicate 20 0) 1000) 0 (RdReady [0x2E]) [WrReady 1] FlReady =
      Ok (st2, [0x2E], [0x2E], Yield)"
    by (simp add: encode_poll_copy_def encode_buf_new_def)
  note run = encode_run.yielded [OF encode_run.start this]
  have "encode_read_first st2 (RdReady []) FlReady = Ok (st3, [], Ready ())"
    by (simp add: defs encode_read_first_def encode_fill_buf_def)
  moreover have "encode_write_buf st3 [WrReady 9] [] = Ok (st4\<lparr>eb_line_end := 0\<rparr>, [0x2E], Ready 1)"
  proof -
    have "eb_w_off st3 < eb_r_off st3" "\<not> eb_w_off st4 < eb_r_off st4" "eb_line_end st4 = eb_r_off st4" by (simp_all add: defs)
    then show ?thesis using w(3) by (simp add: write_buf_unfold)
  qed
  moreover have "encode_append_line (st4\<lparr>eb_line_end := 0\<rparr>) = Ok example_st"
    by (simp add: defs example_st_def encode_append_line_def)
  moreover have "\<not> eb_write_append_line st2" "eb_yield_size st4 = 1000" by (simp_all add: defs)
  ultimately have "encode_poll_copy st2 0 (RdReady []) [WrReady 9] FlReady = Ok (example_st, [], [0x2E], Again 1)"
    by (simp add: encode_poll_copy_def)
  from encode_run.again [OF run this] show ?thesis by simp
qed

theorem encode_transfer_witness:
  "\<exists>st'. encode_poll_copy example_st 1 RdPending [WrReady 9] FlReady = Ok (st', [], [0x0D, 0x0A, 0x2E, 0x0D, 0x0A], Done 7) \<and>
     [0x2E, 0x2E] @ [0x0D, 0x0A, 0x2E, 0x0D, 0x0A] = encode_text [0x2E]"
proof -
  let ?st = "example_st\<lparr>eb_w_off := 5, eb_total := 7\<rparr>"
  have run: "encode_poll_copy example_st 1 RdPending [WrReady 9] FlReady = Ok (?st, [], [0x0D, 0x0A, 0x2E, 0x0D, 0x0A], Done 7)"
    by (simp add: example_st_def encode_run_simps)
  have "16 < length (replicate 20 (0 :: u8))" by simp
  from encode_transfer [OF example_run this, THEN conjunct2, rule_format, OF run] show ?thesis using run by blast
qed

text \<open>
  C24: When the writer has taken the last byte and its flush is not ready, the transfer can no longer return: the next
  poll offers the writer an empty slice, and the zero bytes that it takes of it are reported as a failed write.
\<close>

theorem flush_retry_fails:
  assumes "encode_run buf yield_size st copied t out" "16 < length buf"
    and "eb_write_append_line st" "eb_w_off st = eb_r_off st"
  shows "out = encode_text t \<and> (\<forall>k rd n ws fl. encode_poll_copy st k rd (WrReady n # ws) fl = Err WriteZero)"
proof -
  have e: "encode_ending st t out"
    using encode_run_inv [OF assms(1,2)] assms(3) by (auto simp: encode_inv_def encode_copying_def)
  then have "length (text_trailer t) = eb_r_off st" by (metis encode_ending_def encode_bounds_def length_take min.absorb2)
  then have "out = encode_text t" using e assms(4) by (simp add: encode_ending_def encode_text_def)
  moreover have "encode_write_line st (WrReady n) = Err WriteZero" for n
    using e assms(4) by (simp add: encode_write_line_def encode_poll_write_def encode_ending_def encode_bounds_def)
  ultimately show ?thesis using assms(3) by (simp add: encode_poll_copy_def)
qed

theorem flush_retry_fails_witness:
  "\<exists>st'. encode_poll_copy example_st 1 RdPending [WrReady 9] FlPending = Ok (st', [], [0x0D, 0x0A, 0x2E, 0x0D, 0x0A], Yield) \<and>
     encode_poll_copy st' 0 RdPending [WrReady 9] FlReady = Err WriteZero"
proof -
  define st' where "st' = example_st\<lparr>eb_w_off := 5, eb_total := 7\<rparr>"
  have run: "encode_poll_copy example_st 1 RdPending [WrReady 9] FlPending = Ok (st', [], [0x0D, 0x0A, 0x2E, 0x0D, 0x0A], Yield)"
    by (simp add: st'_def example_st_def encode_run_simps)
  have "16 < length (replicate 20 (0 :: u8))" "eb_write_append_line st'" "eb_w_off st' = eb_r_off st'"
    by (simp_all add: st'_def example_st_def)
  then show ?thesis using flush_retry_fails [OF encode_run.yielded [OF example_run run]] run by blast
qed

end
