(* ===== verification/Smtp_Decode.thy ===== *)
theory Smtp_Decode
  imports Smtp_Encode
begin

text \<open>
  The decoder of SMTP text data (\<open>lib/vey-smtp-proto/src/io/text_decoder.rs\<close>): a buffered reader that hands out the
  lines of the text without the dots that the sender added and ends at the line with a single dot; and the round
  trip through the encoder.
\<close>

section \<open>The decoding\<close>

fun dot_unstuff :: "bool \<Rightarrow> bytes \<Rightarrow> bytes" where
  "dot_unstuff s [] = []"
| "dot_unstuff s (b # bs) = (if s \<and> b = 0x2E then dot_unstuff False bs else b # dot_unstuff (b = 0x0A) bs)"

lemma dot_unstuff_stuff: "dot_unstuff s (dot_stuff s t) = t"
  by (induction t arbitrary: s) auto

lemma dot_unstuff_append:
  "xs = [] \<and> s \<or> xs \<noteq> [] \<and> last xs = 0x0A \<Longrightarrow> dot_unstuff s (xs @ ys) = dot_unstuff s xs @ dot_unstuff True ys"
proof (induction xs arbitrary: s)
  case (Cons x xs)
  then show ?case by (cases "xs = []") (auto split: if_splits)
qed simp

lemma dot_unstuff_line: "0x0A \<notin> set xs \<Longrightarrow> dot_unstuff False (xs @ [0x0A]) = xs @ [0x0A]"
  by (induction xs) auto

section \<open>The buffer\<close>

datatype decode_error = LineTooLong | UnexpectedEof | DecodeReadFailed

record decode_buf =
  db_buf :: bytes
  db_start :: nat
  db_end :: nat
  db_cache_data :: "(nat \<times> nat) option"
  db_read_done :: bool

definition decode_buf_new :: "bytes \<Rightarrow> decode_buf" where
  "decode_buf_new buf = \<lparr>db_buf = buf, db_start = 0, db_end = 0, db_cache_data = None, db_read_done = False\<rparr>"

text \<open>The reader fills at most the free part of the buffer; what it read is the second component of the result.\<close>

definition decode_fill_buf :: "decode_buf \<Rightarrow> read_event \<Rightarrow> (decode_error, decode_buf \<times> bytes \<times> nat poll) rs" where
  "decode_fill_buf st rd =
     bnd (slice_from (db_buf st) (db_end st)) (\<lambda>free. case rd of
       RdPending \<Rightarrow> Ok (st, [], Pending)
     | RdError \<Rightarrow> Err DecodeReadFailed
     | RdReady c \<Rightarrow>
         let c = take (length free) c in
         bnd (copy_at (db_buf st) (db_end st) c) (\<lambda>buf.
           Ok (st\<lparr>db_buf := buf, db_end := db_end st + length c\<rparr>, c, Ready (length c))))"

definition decode_get_line :: "decode_buf \<Rightarrow> (decode_error, (nat \<times> nat) option) rs" where
  "decode_get_line st =
     (if db_end st \<le> db_start st then Ok None
      else bnd (slice (db_buf st) (db_start st) (db_end st)) (\<lambda>src.
        Ok (map_option (\<lambda>p. (db_start st, db_start st + p + 1)) (memchr 0x0A src))))"

definition decode_make_room :: "decode_buf \<Rightarrow> (decode_error, decode_buf) rs" where
  "decode_make_room st =
     (if 0 < db_start st then
        bnd (slice (db_buf st) (db_start st) (db_end st)) (\<lambda>src.
        bnd (copy_at (db_buf st) 0 src) (\<lambda>buf.
        bnd (usub (db_end st) (db_start st)) (\<lambda>n.
          Ok (st\<lparr>db_buf := buf, db_end := n, db_start := 0\<rparr>))))
      else if length (db_buf st) \<le> db_end st then Err LineTooLong
      else Ok st)"

fun decode_poll_line ::
  "decode_buf \<Rightarrow> read_event list \<Rightarrow> (decode_error, decode_buf \<times> bytes \<times> (nat \<times> nat) poll) rs" where
  "decode_poll_line st rds =
     bnd (decode_get_line st) (\<lambda>v. case v of
       Some v \<Rightarrow> Ok (st, [], Ready v)
     | None \<Rightarrow>
         bnd (decode_make_room st) (\<lambda>st. case rds of
           [] \<Rightarrow> Ok (st, [], Pending)
         | rd # rds \<Rightarrow>
             bnd (decode_fill_buf st rd) (\<lambda>(st, got, p). case p of
               Pending \<Rightarrow> Ok (st, got, Pending)
             | Ready nr \<Rightarrow>
                 if nr = 0 then Err UnexpectedEof
                 else map_ok (\<lambda>(st, got', v). (st, got @ got', v)) (decode_poll_line st rds))))"

declare decode_poll_line.simps [simp del]

text \<open>What \<open>poll_get_cache\<close> and the loop of \<open>poll_read\<close> do with a line.\<close>

definition decode_take_line :: "decode_buf \<Rightarrow> nat \<Rightarrow> nat \<Rightarrow> (decode_error, decode_buf) rs" where
  "decode_take_line st a e =
     bnd (slice (db_buf st) a e) (\<lambda>line.
     bnd (idx line 0) (\<lambda>b.
       if b = 0x2E then
         if line = [0x2E, 0x0D, 0x0A] then Ok (st\<lparr>db_read_done := True\<rparr>)
         else Ok (st\<lparr>db_cache_data := Some (a + 1, e)\<rparr>)
       else Ok (st\<lparr>db_cache_data := Some (a, e)\<rparr>)))"

definition decode_get_cache ::
  "decode_buf \<Rightarrow> read_event list \<Rightarrow> (decode_error, decode_buf \<times> bytes \<times> unit poll) rs" where
  "decode_get_cache st rds =
     (if db_read_done st then Ok (st, [], Ready ())
      else if db_cache_data st \<noteq> None then Ok (st, [], Ready ())
      else bnd (decode_poll_line st rds) (\<lambda>(st, got, p). case p of
        Pending \<Rightarrow> Ok (st, got, Pending)
      | Ready (a, e) \<Rightarrow> bnd (decode_take_line st a e) (\<lambda>st. Ok (st, got, Ready ()))))"

definition decode_cache :: "decode_buf \<Rightarrow> (decode_error, bytes) rs" where
  "decode_cache st = (case db_cache_data st of Some (a, e) \<Rightarrow> slice (db_buf st) a e | None \<Rightarrow> Ok [])"

definition decode_consume_cache :: "decode_buf \<Rightarrow> nat \<Rightarrow> (decode_error, decode_buf) rs" where
  "decode_consume_cache st amt =
     (case db_cache_data st of
        Some (a, e) \<Rightarrow>
          bnd (usub e a) (\<lambda>n.
            Ok (if amt < n then st\<lparr>db_cache_data := Some (a + amt, e)\<rparr>
                else st\<lparr>db_cache_data := None, db_start := e\<rparr>))
      | None \<Rightarrow> Ok st)"

text \<open>
  One pass of the loop of \<open>poll_read\<close>, with room for \<open>room\<close> bytes in the buffer of the caller: the bytes copied to
  it, and \<open>Ready True\<close> when the loop goes on, \<open>Ready False\<close> when it returns.
\<close>

definition decode_copy_cache :: "decode_buf \<Rightarrow> nat \<Rightarrow> (decode_error, decode_buf \<times> bytes \<times> bool) rs" where
  "decode_copy_cache st room =
     (case db_cache_data st of
        None \<Rightarrow> Ok (st, [], True)
      | Some (a, e) \<Rightarrow>
          bnd (slice (db_buf st) a e) (\<lambda>cache.
            if room \<le> length cache then Ok (st\<lparr>db_cache_data := Some (a + room, e)\<rparr>, take room cache, False)
            else Ok (st\<lparr>db_cache_data := None, db_start := e\<rparr>, cache, True)))"

definition decode_read_once ::
  "decode_buf \<Rightarrow> nat \<Rightarrow> read_event list \<Rightarrow> (decode_error, decode_buf \<times> bytes \<times> bytes \<times> bool poll) rs" where
  "decode_read_once st room rds =
     bnd (decode_copy_cache st room) (\<lambda>(st, copied, more).
       if \<not> more then Ok (st, [], copied, Ready False)
       else bnd (decode_poll_line st rds) (\<lambda>(st, got, p). case p of
         Pending \<Rightarrow> Ok (st, got, copied, Pending)
       | Ready (a, e) \<Rightarrow>
           bnd (decode_take_line st a e) (\<lambda>st. Ok (st, got, copied, Ready (\<not> db_read_done st)))))"

text \<open>
  The states of a reader behind its \<open>AsyncBufRead\<close> interface, with the bytes that were read from the inner reader and
  the bytes that were consumed: polls of the buffer and consumption of a part of it, in any order.
\<close>

inductive decode_run :: "bytes \<Rightarrow> decode_buf \<Rightarrow> bytes \<Rightarrow> bytes \<Rightarrow> bool" for buf where
  start: "decode_run buf (decode_buf_new buf) [] []"
| polled: "decode_run buf st inp out \<Longrightarrow> decode_get_cache st rds = Ok (st', got, p) \<Longrightarrow>
    decode_run buf st' (inp @ got) out"
| consumed: "decode_run buf st inp out \<Longrightarrow> decode_cache st = Ok c \<Longrightarrow> amt \<le> length c \<Longrightarrow>
    decode_consume_cache st amt = Ok st' \<Longrightarrow> decode_run buf st' inp (out @ take amt c)"

section \<open>Lines\<close>

lemma run_line:
  assumes "0x0A \<notin> set xs"
  shows "run_phase LineStart (xs @ [0x0A]) = (if xs = [0x2E, 0x0D] then (Ended, 3) else (LineStart, length xs + 1))"
proof -
  have inside: "run_phase Inside (ys @ [0x0A]) = (LineStart, length ys + 1)" if "0x0A \<notin> set ys" for ys
    using run_Inside [OF that] by (simp add: run_phase_append)
  consider "xs = []" | a where "xs = [a]" | a b where "xs = [a, b]" | a b c ys where "xs = a # b # c # ys"
    by (metis list.exhaust)
  then show ?thesis using assms by cases (auto simp: inside)
qed

lemma unstuff_line:
  "0x0A \<notin> set xs \<Longrightarrow> dot_unstuff True (xs @ [0x0A]) =
     (if hd (xs @ [0x0A]) = 0x2E then tl (xs @ [0x0A]) else xs @ [0x0A])"
  by (cases xs) (auto simp: dot_unstuff_line)


lemma run_LineStart_line_start:
  assumes "run_phase LineStart xs = (LineStart, n)"
  shows "line_start xs"
proof (cases xs rule: rev_cases)
  case (snoc ys b)
  have "next_phase (fst (run_phase LineStart ys)) b = LineStart" using assms run_phase_snoc [of LineStart ys b] snoc by simp
  then have "b = 0x0A" by (cases "fst (run_phase LineStart ys)") (auto split: if_splits)
  then show ?thesis using snoc by (simp add: line_start_def)
qed (simp add: line_start_def)

section \<open>The invariant\<close>

text \<open>The bytes of the buffer that are not part of a consumed line.\<close>

definition db_pending :: "decode_buf \<Rightarrow> bytes" where
  "db_pending st = take (db_end st - db_start st) (drop (db_start st) (db_buf st))"

definition decode_bounds :: "decode_buf \<Rightarrow> bool" where
  "decode_bounds st \<longleftrightarrow> db_start st \<le> db_end st \<and> db_end st \<le> length (db_buf st)"

text \<open>The lines \<open>l\<close> are consumed, and none of them ends the text.\<close>

definition decode_idle :: "decode_buf \<Rightarrow> bytes \<Rightarrow> bytes \<Rightarrow> bytes \<Rightarrow> bool" where
  "decode_idle st inp out l \<longleftrightarrow>
     decode_bounds st \<and> inp = l @ db_pending st \<and> run_phase LineStart l = (LineStart, length l) \<and>
     out = dot_unstuff True l \<and> db_cache_data st = None"

text \<open>The line up to \<open>e\<close> is being consumed, and what is left of it is cached.\<close>

definition decode_cached :: "decode_buf \<Rightarrow> bytes \<Rightarrow> bytes \<Rightarrow> bytes \<Rightarrow> bool" where
  "decode_cached st inp out l \<longleftrightarrow>
     decode_bounds st \<and> inp = l @ db_pending st \<and> run_phase LineStart l = (LineStart, length l) \<and>
     (\<exists>a e line. db_cache_data st = Some (a, e) \<and> a < e \<and> db_start st < e \<and> e \<le> db_end st \<and>
        line = take (e - db_start st) (db_pending st) \<and> run_phase LineStart line = (LineStart, length line) \<and>
        out @ take (e - a) (drop a (db_buf st)) = dot_unstuff True (l @ line))"

definition decode_inv :: "decode_buf \<Rightarrow> bytes \<Rightarrow> bytes \<Rightarrow> bool" where
  "decode_inv st inp out \<longleftrightarrow>
     (\<exists>l. if db_read_done st then decode_idle st inp out l \<and> starts_with (db_pending st) [0x2E, 0x0D, 0x0A]
          else decode_idle st inp out l \<or> decode_cached st inp out l)"

lemma length_db_pending [simp]: "decode_bounds st \<Longrightarrow> length (db_pending st) = db_end st - db_start st"
  by (auto simp: db_pending_def decode_bounds_def)

lemma db_pending_slice: "decode_bounds st \<Longrightarrow> slice (db_buf st) (db_start st) (db_end st) = Ok (db_pending st)"
  by (simp add: db_pending_def decode_bounds_def)

lemma get_line_pending:
  "decode_bounds st \<Longrightarrow> decode_get_line st =
     Ok (map_option (\<lambda>p. (db_start st, db_start st + p + 1)) (memchr 0x0A (db_pending st)))"
proof (cases "db_end st \<le> db_start st")
  case True
  then have "db_pending st = []" by (simp add: db_pending_def)
  then show ?thesis using True by (simp add: decode_get_line_def)
qed (simp add: decode_get_line_def db_pending_slice)

lemma make_room_pending:
  assumes "decode_bounds st"
  shows "decode_make_room st = Err LineTooLong \<or>
    (\<exists>st'. decode_make_room st = Ok st' \<and> decode_bounds st' \<and> db_pending st' = db_pending st \<and>
       db_cache_data st' = db_cache_data st \<and> db_read_done st' = db_read_done st)"
proof (cases "0 < db_start st")
  case True
  let ?n = "db_end st - db_start st"
  let ?st = "st\<lparr>db_buf := db_pending st @ drop ?n (db_buf st), db_end := ?n, db_start := 0\<rparr>"
  have b: "?n \<le> length (db_buf st)" "db_start st \<le> db_end st" using assms by (auto simp: decode_bounds_def)
  have "decode_make_room st = Ok ?st" using True b length_db_pending [OF assms]
    by (simp add: decode_make_room_def db_pending_slice [OF assms])
  moreover have "decode_bounds ?st" "db_pending ?st = db_pending st"
    using b length_db_pending [OF assms] by (auto simp: decode_bounds_def db_pending_def)
  ultimately show ?thesis by auto
qed (use assms in \<open>auto simp: decode_make_room_def\<close>)

lemma decode_fill_pending:
  assumes b: "decode_bounds st"
  shows "decode_fill_buf st rd \<noteq> Panic"
    and "decode_fill_buf st rd = Ok (st', got, p) \<Longrightarrow> decode_bounds st' \<and> db_pending st' = db_pending st @ got \<and>
      db_cache_data st' = db_cache_data st \<and> db_read_done st' = db_read_done st"
proof -
  define fill where "fill c = (let d = take (length (db_buf st) - db_end st) c in
      (st\<lparr>db_buf := take (db_end st) (db_buf st) @ d @ drop (db_end st + length d) (db_buf st),
          db_end := db_end st + length d\<rparr>, d, Ready (length d)))" for c
  have e: "db_end st \<le> length (db_buf st)" using b by (simp add: decode_bounds_def)
  have run: "decode_fill_buf st rd = (case rd of RdPending \<Rightarrow> Ok (st, [], Pending)
      | RdError \<Rightarrow> Err DecodeReadFailed | RdReady c \<Rightarrow> Ok (fill c))"
    using e by (auto simp: decode_fill_buf_def fill_def Let_def split: read_event.split)
  show "decode_fill_buf st rd \<noteq> Panic" unfolding run by (simp split: read_event.split)
  assume ok: "decode_fill_buf st rd = Ok (st', got, p)"
  show "decode_bounds st' \<and> db_pending st' = db_pending st @ got \<and>
      db_cache_data st' = db_cache_data st \<and> db_read_done st' = db_read_done st"
  proof (cases rd)
    case (RdReady c)
    define d where "d = take (length (db_buf st) - db_end st) c"
    have d: "db_end st + length d \<le> length (db_buf st)" using e by (simp add: d_def)
    have "got = d" "st' = st\<lparr>db_buf := take (db_end st) (db_buf st) @ d @ drop (db_end st + length d) (db_buf st),
          db_end := db_end st + length d\<rparr>"
      using ok [unfolded run] by (auto simp: RdReady fill_def Let_def d_def)
    then show ?thesis using b d by (simp add: decode_bounds_def db_pending_def drop_take)
  qed (use ok [unfolded run] b in auto)
qed


text \<open>A line is found, or the bytes that were read are behind those that were pending.\<close>

lemma poll_line_pending:
  assumes "decode_bounds st"
  shows "decode_poll_line st rds \<noteq> Panic \<and> (\<forall>st' got p. decode_poll_line st rds = Ok (st', got, p) \<longrightarrow>
    decode_bounds st' \<and> db_pending st' = db_pending st @ got \<and> db_cache_data st' = db_cache_data st \<and>
    db_read_done st' = db_read_done st \<and>
    (\<forall>a e. p = Ready (a, e) \<longrightarrow> a = db_start st' \<and> a < e \<and> memchr 0x0A (db_pending st') = Some (e - a - 1)))"
  using assms
proof (induction rds arbitrary: st)
  case Nil
  show ?case
  proof (cases "memchr 0x0A (db_pending st)")
    case None
    then show ?thesis using make_room_pending [OF Nil] get_line_pending [OF Nil]
      by (auto simp: decode_poll_line.simps)
  next
    case (Some p)
    then show ?thesis using get_line_pending [OF Nil] Nil by (auto simp: decode_poll_line.simps)
  qed
next
  case (Cons rd rds)
  show ?case
  proof (cases "memchr 0x0A (db_pending st)")
    case None
    from make_room_pending [OF Cons.prems] show ?thesis
    proof (elim disjE exE conjE)
      fix s assume s: "decode_make_room st = Ok s" "decode_bounds s" "db_pending s = db_pending st"
        "db_cache_data s = db_cache_data st" "db_read_done s = db_read_done st"
      have step: "decode_poll_line st (rd # rds) = bnd (decode_fill_buf s rd) (\<lambda>(st, got, p). case p of
               Pending \<Rightarrow> Ok (st, got, Pending)
             | Ready nr \<Rightarrow>
                 if nr = 0 then Err UnexpectedEof
                 else map_ok (\<lambda>(st, got', v). (st, got @ got', v)) (decode_poll_line st rds))"
        using s(1) None get_line_pending [OF Cons.prems] by (subst decode_poll_line.simps) simp
      show ?thesis
      proof (cases "decode_fill_buf s rd")
        case (Ok r)
        obtain s1 g q where f: "decode_fill_buf s rd = Ok (s1, g, q)" using Ok by (cases r) auto
        note fp = decode_fill_pending(2) [OF s(2) f]
        show ?thesis
        proof (cases q)
          case Pending
          then show ?thesis using step f fp s by simp
        next
          case (Ready nr)
          then show ?thesis using step f fp s Cons.IH [of s1]
            by (cases "decode_poll_line s1 rds") (auto simp: case_prod_beta)
        qed
      qed (use step decode_fill_pending(1) [OF s(2)] in auto)
    qed (use None get_line_pending [OF Cons.prems] in \<open>simp add: decode_poll_line.simps\<close>)
  next
    case (Some p)
    then show ?thesis using get_line_pending [OF Cons.prems] Cons.prems by (auto simp: decode_poll_line.simps)
  qed
qed

lemma take_line_inv:
  assumes idle: "decode_idle st inp out l" and nd: "\<not> db_read_done st"
    and line: "db_start st < e" "memchr 0x0A (db_pending st) = Some (e - db_start st - 1)"
  shows "\<exists>st'. decode_take_line st (db_start st) e = Ok st' \<and> decode_inv st' inp out"
proof -
  define k xs where "k = e - db_start st" and "xs = take (k - 1) (db_pending st)"
  have b: "decode_bounds st" and c: "db_cache_data st = None" using idle by (auto simp: decode_idle_def)
  note m = memchr_Some [OF line(2)]
  have k: "0 < k" "k - 1 < length (db_pending st)" "e = db_start st + k" using m line(1) by (auto simp: k_def)
  have e: "e \<le> db_end st" using k length_db_pending [OF b] by auto
  have split: "take k (db_pending st) = xs @ [0x0A]"
    using m k(1,2) take_Suc_conv_app_nth [OF k(2)] unfolding xs_def k_def [symmetric] by simp
  have no: "0x0A \<notin> set xs" using m by (simp add: xs_def k_def)
  have sl: "slice (db_buf st) (db_start st) e = (Ok (xs @ [0x0A]) :: (decode_error, bytes) rs)"
  proof -
    have "take (e - db_start st) (drop (db_start st) (db_buf st)) = take k (db_pending st)"
      using e by (simp add: db_pending_def k_def)
    then show ?thesis using b e line(1) split by (simp add: slice_def decode_bounds_def)
  qed
  have ls: "line_start l" using idle run_LineStart_line_start by (auto simp: decode_idle_def)
  have un: "dot_unstuff True (l @ xs @ [0x0A]) = out @ dot_unstuff True (xs @ [0x0A])"
    using idle ls dot_unstuff_append [of l True] by (auto simp: decode_idle_def line_start_def)
  show ?thesis
  proof (cases "xs = [0x2E, 0x0D]")
    case True
    then have "decode_take_line st (db_start st) e = Ok (st\<lparr>db_read_done := True\<rparr>)"
      using sl by (simp add: decode_take_line_def)
    moreover have "starts_with (db_pending st) [0x2E, 0x0D, 0x0A]"
      using split True append_take_drop_id [of k "db_pending st"] unfolding starts_with_iff by (metis append_Cons append_Nil)
    ultimately show ?thesis using idle
      by (auto simp: decode_inv_def decode_idle_def decode_bounds_def db_pending_def)
  next
    case False
    define a where "a = (if hd (xs @ [0x0A]) = 0x2E then db_start st + 1 else db_start st)"
    let ?st = "st\<lparr>db_cache_data := Some (a, e)\<rparr>"
    have take: "decode_take_line st (db_start st) e = Ok ?st"
      using sl False by (cases xs) (auto simp: decode_take_line_def a_def)
    have "length xs = k - 1" using k(2) by (simp add: xs_def)
    then have a: "a < e" using k(1,3) by (cases xs) (auto simp: a_def)
    have "take (e - a) (drop a (db_buf st)) = dot_unstuff True (xs @ [0x0A])"
    proof -
      have full: "take (e - db_start st) (drop (db_start st) (db_buf st)) = xs @ [0x0A]"
        using sl by (simp add: slice_def split: if_splits)
      then have "take (e - (db_start st + 1)) (drop (db_start st + 1) (db_buf st)) = tl (xs @ [0x0A])"
        unfolding full [symmetric] by (simp add: tl_take drop_Suc tl_drop [symmetric])
      then show ?thesis using full unstuff_line [OF no] by (simp add: a_def)
    qed
    then have "out @ take (e - a) (drop a (db_buf ?st)) = dot_unstuff True (l @ take (e - db_start ?st) (db_pending ?st))"
      using un split by (simp add: k_def db_pending_def)
    moreover have "run_phase LineStart (take (e - db_start ?st) (db_pending ?st)) =
        (LineStart, length (take (e - db_start ?st) (db_pending ?st)))"
      using run_line [OF no] False split by (simp add: k_def db_pending_def)
    moreover have "decode_bounds ?st" "db_pending ?st = db_pending st" using b by (simp_all add: decode_bounds_def db_pending_def)
    ultimately have "decode_cached ?st inp out l"
      using idle e a line(1) unfolding decode_cached_def decode_idle_def by auto
    then show ?thesis using take nd by (auto simp: decode_inv_def)
  qed
qed


lemma get_cache_inv:
  assumes inv: "decode_inv st inp out"
  shows "decode_get_cache st rds \<noteq> Panic \<and>
    (\<forall>st' got p. decode_get_cache st rds = Ok (st', got, p) \<longrightarrow> decode_inv st' (inp @ got) out)"
proof (cases "db_read_done st \<or> db_cache_data st \<noteq> None")
  case True
  then show ?thesis using inv by (auto simp: decode_get_cache_def)
next
  case False
  then have nd: "\<not> db_read_done st" by simp
  then obtain l where l: "decode_idle st inp out l"
    using inv False by (auto simp: decode_inv_def decode_cached_def)
  have b: "decode_bounds st" using l by (simp add: decode_idle_def)
  have idle: "decode_idle s (inp @ g) out l" "\<not> db_read_done s" if "decode_poll_line st rds = Ok (s, g, p)" for s g p
    using poll_line_pending [OF b, of rds] that l nd by (auto simp: decode_idle_def)
  show ?thesis
  proof (cases "decode_poll_line st rds")
    case (Ok r)
    obtain s g p where r: "decode_poll_line st rds = Ok (s, g, p)" using Ok by (cases r) auto
    show ?thesis
    proof (cases p)
      case Pending
      then show ?thesis using r idle [OF r] False by (auto simp: decode_get_cache_def decode_inv_def)
    next
      case (Ready v)
      obtain a e where v: "v = (a, e)" by (cases v)
      then have "a = db_start s" "db_start s < e" "memchr 0x0A (db_pending s) = Some (e - db_start s - 1)"
        using poll_line_pending [OF b, of rds] r Ready by auto
      then obtain s' where "decode_take_line s a e = Ok s'" "decode_inv s' (inp @ g) out"
        using take_line_inv [OF idle [OF r]] by auto
      then show ?thesis using r Ready v False by (auto simp: decode_get_cache_def)
    qed
  qed (use poll_line_pending [OF b, of rds] False in \<open>auto simp: decode_get_cache_def\<close>)
qed

lemma cached_slice:
  assumes "decode_cached st inp out l" "db_cache_data st = Some (a, e)"
  shows "decode_cache st = Ok (take (e - a) (drop a (db_buf st)))" "length (take (e - a) (drop a (db_buf st))) = e - a" "a < e"
  using assms by (auto simp: decode_cached_def decode_cache_def decode_bounds_def slice_def)

lemma consume_inv:
  assumes inv: "decode_inv st inp out"
  shows "\<exists>c. decode_cache st = Ok c \<and>
    (\<forall>amt \<le> length c. \<exists>st'. decode_consume_cache st amt = Ok st' \<and> decode_inv st' inp (out @ take amt c))"
proof (cases "db_cache_data st")
  case None
  then show ?thesis using inv by (auto simp: decode_cache_def decode_consume_cache_def)
next
  case (Some ae)
  then obtain a e where ae: "db_cache_data st = Some (a, e)" by (cases ae) auto
  then have nd: "\<not> db_read_done st" using inv by (auto simp: decode_inv_def decode_idle_def)
  then obtain l where l: "decode_cached st inp out l" using inv ae by (auto simp: decode_inv_def decode_idle_def)
  note c = cached_slice [OF l ae]
  let ?c = "take (e - a) (drop a (db_buf st))" and ?line = "take (e - db_start st) (db_pending st)"
  have b: "decode_bounds st" "inp = l @ db_pending st" "run_phase LineStart l = (LineStart, length l)"
    "db_start st < e" "e \<le> db_end st" "run_phase LineStart ?line = (LineStart, length ?line)"
    "out @ ?c = dot_unstuff True (l @ ?line)"
    using l ae by (auto simp: decode_cached_def)
  have "\<exists>st'. decode_consume_cache st amt = Ok st' \<and> decode_inv st' inp (out @ take amt ?c)" if "amt \<le> length ?c" for amt
  proof (cases "amt < e - a")
    case True
    let ?st = "st\<lparr>db_cache_data := Some (a + amt, e)\<rparr>"
    have "take amt ?c @ take (e - (a + amt)) (drop (a + amt) (db_buf st)) = ?c"
    proof -
      have amt: "take amt ?c = take amt (drop a (db_buf st))" using True by simp
      show ?thesis unfolding amt using True take_add [of amt "e - a - amt" "drop a (db_buf st)"] by (simp add: add.commute)
    qed
    moreover have "decode_bounds ?st" "db_pending ?st = db_pending st" using b(1) by (auto simp: decode_bounds_def db_pending_def)
    ultimately have "decode_cached ?st inp (out @ take amt ?c) l"
      using b True unfolding decode_cached_def by auto
    then have "decode_inv ?st inp (out @ take amt ?c)" using nd by (auto simp: decode_inv_def)
    moreover have "decode_consume_cache st amt = Ok ?st" using True ae c(3) by (simp add: decode_consume_cache_def)
    ultimately show ?thesis by blast
  next
    case False
    let ?st = "st\<lparr>db_cache_data := None, db_start := e\<rparr>"
    have "take amt ?c = ?c" using False c(2) by (intro take_all) simp
    then have "out @ take amt ?c = dot_unstuff True (l @ ?line)" using b(7) by metis
    moreover have "decode_bounds ?st" using b(1,5) by (simp add: decode_bounds_def)
    moreover have "db_pending ?st = drop (e - db_start st) (db_pending st)"
      using b(4,5) by (simp add: db_pending_def drop_take)
    then have "inp = (l @ ?line) @ db_pending ?st" using b(2) by simp
    moreover have "run_phase LineStart (l @ ?line) = (LineStart, length (l @ ?line))"
      using b(3,6) by (simp add: run_phase_append)
    ultimately have "decode_idle ?st inp (out @ take amt ?c) (l @ ?line)" by (simp add: decode_idle_def)
    then have "decode_inv ?st inp (out @ take amt ?c)" using nd by (auto simp: decode_inv_def)
    moreover have "decode_consume_cache st amt = Ok ?st" using False ae c(3) by (simp add: decode_consume_cache_def)
    ultimately show ?thesis by blast
  qed
  then show ?thesis using c(1) by blast
qed

lemma decode_run_inv:
  assumes "decode_run buf st inp out"
  shows "decode_inv st inp out"
  using assms
proof (induction rule: decode_run.induct)
  case start
  have "decode_idle (decode_buf_new buf) [] [] []"
    by (simp add: decode_idle_def decode_buf_new_def decode_bounds_def db_pending_def)
  then show ?case by (auto simp: decode_inv_def decode_buf_new_def)
next
  case (polled st inp out rds st' got p)
  then show ?case using get_cache_inv by blast
next
  case (consumed st inp out c amt st')
  then show ?case using consume_inv [OF consumed.IH] by auto
qed


lemma idle_end:
  assumes "decode_idle st inp out l" "starts_with (db_pending st) [0x2E, 0x0D, 0x0A]"
  shows "\<exists>rest. inp = l @ [0x2E, 0x0D, 0x0A] @ rest \<and> text_end inp = Some (length l + 3) \<and> out = dot_unstuff True l"
proof -
  obtain rest where "db_pending st = [0x2E, 0x0D, 0x0A] @ rest" using assms(2) unfolding starts_with_iff by blast
  then have inp: "inp = l @ [0x2E, 0x0D, 0x0A] @ rest" using assms(1) by (simp add: decode_idle_def)
  have "run_phase LineStart l = (LineStart, length l)" using assms(1) by (simp add: decode_idle_def)
  then have "run_phase LineStart inp = (Ended, length l + 3)" unfolding inp by (simp add: run_phase_append)
  then have "text_end inp = Some (length l + 3)" using run_text_end [of inp] by (auto split: option.splits)
  moreover have "out = dot_unstuff True l" using assms(1) by (simp add: decode_idle_def)
  ultimately show ?thesis using inp by blast
qed

section \<open>Theorems\<close>


lemma run_dot_stuff:
  "run_phase (if s then LineStart else Inside) (dot_stuff s t) =
     (if t = [] \<and> s \<or> t \<noteq> [] \<and> last t = 0x0A then LineStart else Inside, length (dot_stuff s t))"
proof (induction t arbitrary: s)
  case (Cons b t)
  show ?case using Cons [of "b = 0x0A"] by (cases s) (auto split: if_splits)
qed simp

lemma run_encode_text: "run_phase LineStart (encode_text t @ rest) = (Ended, length (encode_text t))"
  using run_dot_stuff [of True t]
  by (auto simp: encode_text_def text_trailer_def run_phase_append line_start_def split: if_splits)

lemma encode_text_lines:
  "encode_text t = dot_stuff True (t @ (if line_start t then [] else [0x0D, 0x0A])) @ [0x2E, 0x0D, 0x0A]"
  by (simp add: encode_text_def text_trailer_def dot_stuff_text)

lemma decode_encoded:
  assumes run: "decode_run buf st inp out" "db_read_done st" and inp: "inp @ later = encode_text t @ rest"
  shows "out = t @ (if line_start t then [] else [0x0D, 0x0A])"
proof -
  obtain l rest' where l: "inp = l @ [0x2E, 0x0D, 0x0A] @ rest'" "text_end inp = Some (length l + 3)" "out = dot_unstuff True l"
    using decode_run_inv [OF run(1)] run(2) idle_end by (fastforce simp: decode_inv_def)
  have "run_phase LineStart inp = (Ended, length l + 3)" using run_text_end [of inp] l(2) by simp
  then have "run_phase LineStart (inp @ later) = (Ended, length l + 3)" by (simp add: run_phase_append)
  then have "length l + 3 = length (encode_text t)" using run_encode_text [of t rest] unfolding inp by simp
  then have "length (l @ [0x2E, 0x0D, 0x0A]) = length (encode_text t)" by simp
  moreover have "(l @ [0x2E, 0x0D, 0x0A]) @ rest' @ later = encode_text t @ rest" using inp l(1) by simp
  ultimately have "l @ [0x2E, 0x0D, 0x0A] = encode_text t" using append_eq_append_conv by blast
  then show ?thesis using l(3) unfolding encode_text_lines by (simp add: dot_unstuff_stuff)
qed

text \<open>
  C8: A text that went through an encoding transfer that returned, and then through a decoder that saw the end of
  what the transfer wrote, comes back as it was, with a line break behind it if it had none.
\<close>

theorem text_round_trip:
  assumes "encode_run ebuf yield_size est copied t written" "16 < length ebuf"
    and "encode_poll_copy est copied rd ws fl = Ok (est', got, b, Done n)"
    and "decode_run dbuf dst inp out" "db_read_done dst"
    and "inp @ later = (written @ b) @ rest"
  shows "out = t @ (if line_start t then [] else [0x0D, 0x0A])"
proof -
  have "written @ b = encode_text t" using poll_copy_inv(3) [OF encode_run_inv [OF assms(1,2)] assms(3)] by blast
  then show ?thesis using decode_encoded [OF assms(4,5)] assms(6) by metis
qed


text \<open>A run of the decoder over what the example of the encoder writes, in two reads and two steps of consumption.\<close>

definition example_db :: "nat \<Rightarrow> (nat \<times> nat) option \<Rightarrow> bool \<Rightarrow> decode_buf" where
  "example_db start cache read_done =
     \<lparr>db_buf = [0x2E, 0x2E, 0x0D, 0x0A, 0x2E, 0x0D, 0x0A] @ replicate 9 0, db_start = start, db_end = 7,
      db_cache_data = cache, db_read_done = read_done\<rparr>"

lemma example_decode: "decode_run (replicate 16 0) (example_db 4 None True) [0x2E, 0x2E, 0x0D, 0x0A, 0x2E, 0x0D, 0x0A] [0x2E, 0x0D, 0x0A]"
proof -
  have "decode_get_cache (decode_buf_new (replicate 16 0)) [RdReady [0x2E, 0x2E], RdReady [0x0D, 0x0A, 0x2E, 0x0D, 0x0A]] =
      Ok (example_db 0 (Some (1, 4)) False, [0x2E, 0x2E, 0x0D, 0x0A, 0x2E, 0x0D, 0x0A], Ready ())"
    by code_simp
  note run = decode_run.polled [OF decode_run.start this]
  have "decode_cache (example_db 0 (Some (1, 4)) False) = Ok [0x2E, 0x0D, 0x0A]"
    "decode_consume_cache (example_db 0 (Some (1, 4)) False) 1 = Ok (example_db 0 (Some (2, 4)) False)"
    by (simp_all add: example_db_def decode_cache_def decode_consume_cache_def)
  note run = decode_run.consumed [OF run this(1) _ this(2)]
  have "decode_cache (example_db 0 (Some (2, 4)) False) = Ok [0x0D, 0x0A]"
    "decode_consume_cache (example_db 0 (Some (2, 4)) False) 2 = Ok (example_db 4 None False)"
    by (simp_all add: example_db_def decode_cache_def decode_consume_cache_def)
  note run = decode_run.consumed [OF run this(1) _ this(2)]
  have "decode_get_cache (example_db 4 None False) [] = Ok (example_db 4 None True, [], Ready ())"
    by code_simp
  from decode_run.polled [OF run this] show ?thesis by simp
qed


theorem text_round_trip_witness:
  "\<exists>st' b. encode_poll_copy example_st 1 RdPending [WrReady 9] FlReady = Ok (st', [], b, Done 7) \<and>
     decode_run (replicate 16 0) (example_db 4 None True) ([0x2E, 0x2E] @ b) [0x2E, 0x0D, 0x0A] \<and>
     [0x2E, 0x0D, 0x0A] = [0x2E :: u8] @ (if line_start [0x2E] then [] else [0x0D, 0x0A])"
proof -
  let ?c = "[0x0D, 0x0A, 0x2E, 0x0D, 0x0A]"
  have run: "encode_poll_copy example_st 1 RdPending [WrReady 9] FlReady =
      Ok (example_st\<lparr>eb_w_off := 5, eb_total := 7\<rparr>, [], ?c, Done 7)"
    by (simp add: example_st_def encode_run_simps)
  have "[0x2E, 0x0D, 0x0A] = [0x2E :: u8] @ (if line_start [0x2E] then [] else [0x0D, 0x0A])"
    by (rule text_round_trip [OF example_run _ run example_decode, where later = "[]" and rest = "[]"])
      (simp_all add: example_db_def)
  then show ?thesis using run example_decode by (metis append_Cons append_Nil)
qed

text \<open>
  The \<open>AsyncRead\<close> interface is different: when the inner reader is not ready, \<open>poll_read\<close> returns \<open>Poll::Pending\<close> after it
  has copied the cached line into the buffer of the caller, and the line is no longer cached.
\<close>

lemma read_pending_drops:
  assumes run: "decode_read_once st room rds = Ok (st', got, copied, Pending)"
    and c: "db_cache_data st = Some (a, e)" "decode_bounds st" "e \<le> db_end st"
  shows "decode_cache st = Ok copied \<and> db_cache_data st' = None"
proof -
  obtain s q where s: "decode_copy_cache st room = Ok (s, q, True)"
    using run by (auto simp: decode_read_once_def rs_iff split: if_splits)
  then have q: "slice (db_buf st) a e = Ok q" "s = st\<lparr>db_cache_data := None, db_start := e\<rparr>"
    using c(1) by (auto simp: decode_copy_cache_def rs_iff split: if_splits)
  have "decode_bounds s" using c(2,3) by (simp add: q(2) decode_bounds_def)
  note pl = poll_line_pending [OF this, of rds]
  obtain s1 g p where r: "decode_poll_line s rds = Ok (s1, g, p)"
    using run s by (cases "decode_poll_line s rds") (auto simp: decode_read_once_def)
  then have "copied = q" "p = Pending" "st' = s1"
    using run s by (cases p; auto simp: decode_read_once_def rs_iff)+
  then show ?thesis using pl r q c(1) by (auto simp: decode_cache_def)
qed

end
