(* ===== verification/Spec2Isabelle.thy ===== *)
theory Spec2Isabelle
  imports Codec_Tlv Quic_Packet Dpi_Reset Sni_Accept Smtp_Decode
begin

text \<open>
  VEY is a family of network services: a forward proxy with traffic inspection (\<open>vey-proxy\<close>), a gateway, a keyless
  server and tools, over a set of libraries. This development models the parts that read bytes from an untrusted
  peer before anything else is known of it, and the paths on which they work together, and shows that they compute
  what their protocols say, on every input and for every way the bytes are split.

  \<^bold>\<open>The parts and how they interact.\<close> A TLS connection to the SNI proxy is read record by record, its handshake
  messages are put together, the ClientHello is parsed and its server name picks the upstream. A QUIC connection
  carries the same ClientHello in CRYPTO frames of protected Initial packets. Any other connection goes through
  the protocol inspector, which tries the checks of some twenty protocols on its first bytes and asks for more bytes
  until one of them decides; the mails of an SMTP connection that is then intercepted are decoded, adapted and
  encoded again.

  \<^bold>\<open>Conventions.\<close> \<open>Vey_Prelude\<close> has the results of fallible Rust code, \<open>Ok\<close>, \<open>Err\<close> and \<open>Panic\<close>, where the last
  one stands for an index or slice out of range or an arithmetic underflow, so that the absence of panics is a theorem;
  machine words where the code works on bits, and naturals with a check where it only counts. Sockets are sequences
  of the results of reads, or of the events that a poll returns. The locale \<open>prefix_decoder\<close> is the contract of a
  parser that reads an item at the front of a buffer; the lengths, integers, records and frames are instances.

  \<^bold>\<open>Codecs\<close> (\<open>lib/vey-codec/src\<close>).
  \<^item> \<open>Codec_Varint\<close>: \<open>leb128.rs\<close>, \<open>thrift/var_int.rs\<close>, \<open>quic/var_int.rs\<close> and \<open>zig_zag.rs\<close> of \<open>vey-std-ext\<close>: round trips,
    the shortest encodings, and the outcome of the decoders on every input.
  \<^item> \<open>Codec_Ber\<close>, \<open>Codec_Ldap\<close>: \<open>ber/\<close> and \<open>ldap/\<close>: the parsers accept exactly the grammar, ask for no more bytes than
    a message needs, and the encoder is inverted.
  \<^item> \<open>Codec_Tlv\<close>: \<open>tlv.rs\<close>, with the handler as a parameter.
  \<^item> \<open>Codec_Tls\<close>, \<open>Codec_Hello\<close>: \<open>tls/record.rs\<close>, \<open>tls/handshake/\<close>, \<open>tls/extension.rs\<close>: the grammars, and that the
    outcome does not depend on how a message is cut into records.
  \<^item> \<open>Quic_Frame\<close>, \<open>Quic_Coalescer\<close>, \<open>Quic_Packet\<close>: \<open>quic/\<close>: the frame loop, the reassembly of the handshake from frames
    in any order, repeated and overlapping, and the removal of header and packet protection. The primitives of
    OpenSSL are third-party code and a parameter (\<open>quic_crypto\<close>); what a receiver relies on of them is the
    hypothesis \<open>quic_crypto_ok\<close>. The number 64 in calls of the frame loop is the width of a \<open>usize\<close>.
  \<^item> this theory: the whole way from protected datagrams to the ClientHello.

  \<^bold>\<open>Names\<close> (\<open>lib/vey-types/src/net\<close>). \<open>Net_Types\<close> and \<open>Net_Host\<close>: \<open>domain.rs\<close>, \<open>host.rs\<close>, \<open>tls/server_name.rs\<close> and
  \<open>tls/alpn.rs\<close>: what is accepted is well formed and canonical, and the operations on names keep that. The text
  parsers of addresses of the standard library and the conversion of internationalised names of the \<open>idna\<close> crate are
  parameters (\<open>net_parsers\<close>).

  \<^bold>\<open>Inspection\<close> (\<open>lib/vey-dpi/src\<close>).
  \<^item> \<open>Dpi_State\<close>: the enumerations, the port maps, the size limits and the state that the checks share.
  \<^item> \<open>Dpi_Text\<close>, \<open>Dpi_Binary\<close>, \<open>Dpi_Greeting\<close>: the checks, one definition for each function of \<open>protocol/\<close>.
  \<^item> \<open>Dpi_Contract\<close>: the contract of a check (locale \<open>protocol_check\<close>), and \<open>Dpi_Check_Text\<close>, \<open>Dpi_Check_Binary\<close>,
    \<open>Dpi_Check_Greeting\<close>: every check keeps it.
  \<^item> \<open>Dpi_Inspect\<close>: the rounds of \<open>protocol/inspect.rs\<close> and the loops of \<open>vey-proxy/src/inspect/stream/object.rs\<close>.
  \<^item> \<open>Dpi_Rounds\<close>: for every dispatch that keeps the laws of the locale \<open>dispatcher\<close>, a round finds the first candidate
    whose own check finds it, although the checks exclude each other; the loops end (locale \<open>data_inspector\<close>).
  \<^item> \<open>Dpi_Reset\<close>: two places where the inspector does not do what it means to.

  \<^bold>\<open>Accepting TLS\<close> (\<open>vey-proxy/src/serve/sni_proxy/task/accept/tls.rs\<close>). \<open>Sni_Accept\<close>: the loop ends after a number of
  reads bounded by its buffer limit, and answers what the extensions of the ClientHello decide, however it arrives.

  \<^bold>\<open>SMTP text\<close> (\<open>lib/vey-smtp-proto/src/io\<close>).
  \<^item> \<open>Smtp_Text\<close>: \<open>text_reader.rs\<close> finds the line that ends a text in any split of it into reads.
  \<^item> \<open>Smtp_Encode\<close>: \<open>text_encoder.rs\<close> as a relation over the events of a reader and a writer (\<open>encode_run\<close>), with the
    invariant of its buffer; what it has written when it returns.
  \<^item> \<open>Smtp_Decode\<close>: \<open>text_decoder.rs\<close> behind its buffered interface (\<open>decode_run\<close>); the round trip through both.
  The theorems assume a buffer of more than 16 bytes; the configuration gives at least 4096. They say what holds
  when a transfer returns; whether it returns depends on the peer, and the witnesses are transfers that do.

  \<^bold>\<open>Loops.\<close> Every function is total: the loops over a buffer end since they move forward in it, and the loops that
  read end since every read that goes on adds a byte below a limit. No function has fuel.

  \<^bold>\<open>Not modelled.\<close> Sockets, timers, tasks and the scheduling of them; logging, metrics and configuration files; the
  bindings to TLS and cryptographic libraries; the HTTP, ICAP, FTP, IMAP and SOCKS libraries and the command and
  reply parsers of SMTP, which are mostly asynchronous code around third-party crates; of \<open>vey-proxy\<close> everything
  but the two paths above; the other servers and the tools. Of the modelled files: \<open>write_flush\<close> and the accessors
  of the text encoder, the setters of the size limits, the choice of the interceptor behind the inspector, and
  formatting for logs. The allocation of memory, and that a count of bytes fits into a \<open>usize\<close>, are not
  considered where the count is bounded by the length of a buffer.
\<close>

section \<open>From QUIC datagrams to the ClientHello\<close>

text \<open>
  The way a receiver composes the QUIC components: each datagram is parsed as an Initial packet and its
  frames are handed to the handshake coalescer.
\<close>

fun recv_datagrams ::
    "quic_crypto \<Rightarrow> quic_coalescer \<Rightarrow> bytes list \<Rightarrow> (packet_parse_error + frame_parse_error, quic_coalescer) rs" where
  "recv_datagrams crypto c [] = Ok c"
| "recv_datagrams crypto c (d # ds) =
     bnd (map_err Inl (initial_packet_parse_client crypto d)) (\<lambda>packet.
     case consume_frames 64 recv_crypto c (initial_payload packet) of
       (c', Ok _) \<Rightarrow> recv_datagrams crypto c' ds
     | (c', Err e) \<Rightarrow> Err (Inr e)
     | (c', Panic) \<Rightarrow> Panic)"

lemma initial_payload_of: "initial_payload (initial_packet_of v n payload) = payload"
  by (cases v) auto

lemma recv_all_append:
  "recv_all recv st (xs @ ys) =
    (case recv_all recv st xs of (st', Ok _) \<Rightarrow> recv_all recv st' ys
     | (st', Err e) \<Rightarrow> (st', Err e) | (st', Panic) \<Rightarrow> (st', Panic))"
  by (induction xs arbitrary: st) (auto split: prod.splits rs.splits)

text \<open>One packet of the sender: its version, content, secrets and the CRYPTO frames of its payload.\<close>

record sent_packet =
  sp_version :: quic_version
  sp_plain :: initial_plain
  sp_secrets :: client_secrets
  sp_frames :: "crypto_frame list"

definition sp_wire :: "quic_crypto \<Rightarrow> aead_seal \<Rightarrow> sent_packet \<Rightarrow> bytes" where
  "sp_wire crypto seal p = protect_initial crypto seal (sp_secrets p) (sp_version p) (sp_plain p)"

definition sp_ok :: "quic_crypto \<Rightarrow> aead_seal \<Rightarrow> sent_packet \<Rightarrow> bool" where
  "sp_ok crypto seal p \<longleftrightarrow>
     initial_wf (sp_version p) (sp_plain p) \<and>
     client_secrets_of (sp_version p) crypto (ip_dcid (sp_plain p)) = Ok (sp_secrets p) \<and>
     length (sp_wire crypto seal p) < 2 ^ 63 \<and>
     quic_frames 64 (ip_payload (sp_plain p)) (sp_frames p)"

lemma payload_length:
  assumes "quic_crypto_ok crypto seal" and "sp_ok crypto seal p"
  shows "length (ip_payload (sp_plain p)) < 2 ^ 63"
proof -
  have "length (seal_initial seal (sp_secrets p) (sp_version p) (sp_plain p)) = length (ip_payload (sp_plain p)) + 16"
    using assms(1) by (auto simp: seal_initial_def quic_crypto_ok_def Let_def split: prod.splits) (metis fst_conv snd_conv)+
  then show ?thesis using assms(2) by (simp add: sp_ok_def sp_wire_def protect_initial_def Let_def)
qed

lemma recv_datagrams_frames:
  assumes "quic_crypto_ok crypto seal" and "\<forall>p \<in> set ps. sp_ok crypto seal p"
    and "recv_all recv_crypto c (concat (map sp_frames ps)) = (c', Ok ())"
  shows "recv_datagrams crypto c (map (sp_wire crypto seal) ps) = Ok c'"
  using assms(2,3)
proof (induction ps arbitrary: c)
  case (Cons p ps)
  then obtain c1 where c1: "recv_all recv_crypto c (sp_frames p) = (c1, Ok ())"
    "recv_all recv_crypto c1 (concat (map sp_frames ps)) = (c', Ok ())"
    by (auto simp: recv_all_append split: prod.splits rs.splits)
  have "initial_packet_parse_client crypto (sp_wire crypto seal p) =
      Ok (initial_packet_of (sp_version p) (be_nat (ip_pn (sp_plain p))) (ip_payload (sp_plain p)))"
    using Cons.prems(1) parse_protected [OF assms(1)] by (simp add: sp_ok_def sp_wire_def)
  moreover have "consume_frames 64 recv_crypto c (ip_payload (sp_plain p)) = (c1, Ok ())"
    using consume_frames_loop_complete [of 64 "ip_payload (sp_plain p)" "sp_frames p" 0 "ip_payload (sp_plain p)" recv_crypto c] c1(1)
      payload_length [OF assms(1)] Cons.prems(1) by (simp add: consume_frames_def sp_ok_def)
  ultimately show ?case using Cons c1(2) by (simp add: initial_payload_of)
qed simp

text \<open>
  C1: a client's Initial packets, protected as the RFCs prescribe, whose CRYPTO frames begin with the
  handshake header and together carry a message within the size limit, in whatever order they were cut
  and sent, lead from the datagrams to the same ClientHello as the message in one piece.
\<close>

theorem quic_flight_client_hello:
  assumes "quic_crypto_ok crypto seal" and "\<forall>p \<in> set ps. sp_ok crypto seal p"
    and "concat (map sp_frames ps) = fst_frame # fs" and "\<forall>f \<in> set (fst_frame # fs). piece_of S f"
    and "handshake_try_parse_fragment S = Some msg" and "hh_msg_length (hm_header msg) \<le> max_size"
    and "cf_stream_offset fst_frame = 0" and "4 \<le> length (cf_data fst_frame)"
    and "\<forall>f \<in> set fs. cf_stream_offset f \<le> length (hm_msg_data msg)"
    and "{0..<length (hm_msg_data msg)} \<subseteq> (\<Union>f \<in> set (fst_frame # fs). frame_span f)"
  shows "\<exists>c. recv_datagrams crypto (quic_coalescer_new max_size) (map (sp_wire crypto seal) ps) = Ok c \<and>
    quic_parse_client_hello c = map_ok Some (handshake_parse_client_hello msg)"
  using reassembly_succeeds [OF assms(4,5,7,8,6,9,10)] recv_datagrams_frames [OF assms(1,2)] assms(3) by metis

definition example_flight :: "sent_packet list" where
  "example_flight =
     [\<lparr>sp_version = QuicV1,
       sp_plain = \<lparr>ip_byte1 = 0xC0, ip_dcid = [1, 2], ip_scid = [], ip_token_len = [0], ip_token = [],
         ip_length = [25], ip_pn = [0], ip_payload = [6, 0, 5, 1, 0, 0, 3, 9]\<rparr>,
       sp_secrets = example_secrets, sp_frames = [\<lparr>cf_stream_offset = 0, cf_data = [1, 0, 0, 3, 9], cf_encoded_len = 7\<rparr>]\<rparr>,
      \<lparr>sp_version = QuicV1,
       sp_plain = \<lparr>ip_byte1 = 0xC0, ip_dcid = [1, 2], ip_scid = [], ip_token_len = [0], ip_token = [],
         ip_length = [22], ip_pn = [1], ip_payload = [6, 5, 2, 8, 7]\<rparr>,
       sp_secrets = example_secrets, sp_frames = [\<lparr>cf_stream_offset = 5, cf_data = [8, 7], cf_encoded_len = 4\<rparr>]\<rparr>]"

lemma single_crypto_frame:
  assumes "crypto_frame_parse 64 data = Ok f" and "cf_encoded_len f = length data"
  shows "quic_frames 64 (6 # data) [f]"
proof -
  have "var_int_bytes 6 [6]" by (simp add: var_int_bytes_def quic_var_int_def)
  then have "quic_frame 64 ([6] @ data) (Some f)" using assms by (intro quic_frame.crypto)
  from quic_frames.cons [OF this quic_frames.nil] show ?thesis by simp
qed

lemma example_flight_ok: "\<forall>p \<in> set example_flight. sp_ok example_crypto example_seal p"
  using example_secrets_of
  by (auto simp: example_flight_def sp_ok_def sp_wire_def initial_wf_def pn_len_of_def var_int_bytes_def
      quic_var_int_def protect_initial_def seal_initial_def example_seal_def example_crypto_def
      initial_long_header_def crypto_frame_parse_def intro!: single_crypto_frame)

theorem quic_flight_client_hello_witness:
  "\<exists>c. recv_datagrams example_crypto (quic_coalescer_new 100) (map (sp_wire example_crypto example_seal) example_flight) = Ok c \<and>
    quic_parse_client_hello c = map_ok Some (handshake_parse_client_hello
      \<lparr>hm_header = \<lparr>hh_msg_type = 1, hh_msg_length = 3\<rparr>, hm_msg_data = [1, 0, 0, 3, 9, 8, 7]\<rparr>)"
  by (rule quic_flight_client_hello [where S = "[1, 0, 0, 3, 9, 8, 7]" and
        fst_frame = "\<lparr>cf_stream_offset = 0, cf_data = [1, 0, 0, 3, 9], cf_encoded_len = 7\<rparr>" and
        fs = "[\<lparr>cf_stream_offset = 5, cf_data = [8, 7], cf_encoded_len = 4\<rparr>]",
        OF example_crypto_ok example_flight_ok])
    (auto simp: example_flight_def piece_of_def frame_span_def handshake_try_parse_fragment_def
      handshake_header_try_parse_def handshake_header_encoded_len_def)

end
